(* ===== verification/Prelude.thy ===== *)
theory Prelude
  imports Main "HOL-Library.Word"
begin

text \<open>
  Shared vocabulary of the development: machine integers, little-endian byte
  encodings, in-place edits of byte arrays, and the outcome type in which every
  kernel routine returns.

  A routine of the kernel is a function from a state to an outcome.  It may
  return (\<open>Ret\<close>), call \<open>panic\<close> (\<open>Panic\<close>, with the
  message of the source), dereference an address that is not mapped
  (\<open>Fault\<close>), read or write outside the object it was given
  (\<open>Wild\<close>, after which C promises nothing), spin for ever on a lock some other processor holds
  (\<open>Spins\<close>), or give up the processor in the middle of a call because it
  called \<open>sched\<close> (\<open>Switch\<close>, with the state at the point of the
  context switch).  \<open>OutOfFuel\<close> is the value of a loop that has run for
  more iterations than its bound in the model.  \<open>bnd\<close> is sequencing.
\<close>

unbundle bit_operations_syntax

section \<open>Machine integers\<close>

type_synonym byte = "8 word"
type_synonym ushort = "16 word"
type_synonym uint = "32 word"

lemma unat_lt32: "unat (x :: uint) < 2 ^ 32"
  using unsigned_less[of x] by simp

lemma unat_add_of_nat: "unat (a :: uint) + i < 2 ^ 32 \<Longrightarrow> unat (a + of_nat i) = unat a + i"
proof -
  assume a: "unat a + i < 2 ^ 32"
  then have "unat (of_nat i :: uint) = i" by (simp add: unat_of_nat)
  then show ?thesis using a by (subst unat_plus_if') simp
qed

lemma map_eq_nth: "map f xs = map f ys \<Longrightarrow> i < length xs \<Longrightarrow> f (xs ! i) = f (ys ! i)"
  by (metis length_map nth_map)

lemma find_SomeD: "List.find Q xs = Some x \<Longrightarrow> x \<in> set xs \<and> Q x"
  by (auto simp: find_Some_iff)

lemma find_NoneD: "List.find Q xs = None \<Longrightarrow> x \<in> set xs \<Longrightarrow> \<not> Q x"
  by (auto simp: find_None_iff)

section \<open>Outcomes\<close>

text \<open>Sleep locks live inside buffers and inodes; a sleep lock is named by its owner.\<close>

datatype sleepid = SL_buf nat | SL_inode nat

text \<open>
  The spin locks of the kernel: the global ones by name, the one inside a sleep
  lock by the sleep lock, the one inside a pipe by the address of the pipe.
\<close>

datatype lockid =
    L_ptable | L_kmem | L_ticks | L_cons | L_cmos | L_bcache | L_ide | L_icache
  | L_ftable | L_log | L_sleep sleepid | L_pipe uint

text \<open>
  Sleep channels.  The source uses addresses of kernel objects as channels; they
  matter only up to equality, so a channel is named by the object.
\<close>

datatype chan =
    Ch_none | Ch_proc nat | Ch_ticks | Ch_log | Ch_input | Ch_buf nat
  | Ch_sleep sleepid | Ch_nread uint | Ch_nwrite uint

datatype ('s, 'a) outcome =
    Ret 'a 's
  | Panic string
  | Fault uint
  | Wild
  | OutOfFuel
  | Spins lockid
  | Switch 's

fun bnd :: "('s, 'a) outcome \<Rightarrow> ('a \<Rightarrow> 's \<Rightarrow> ('s, 'b) outcome) \<Rightarrow> ('s, 'b) outcome" where
  "bnd (Ret a s) f = f a s"
| "bnd (Panic m) f = Panic m"
| "bnd (Fault a) f = Fault a"
| "bnd Wild f = Wild"
| "bnd OutOfFuel f = OutOfFuel"
| "bnd (Spins l) f = Spins l"
| "bnd (Switch s) f = Switch s"

named_theorems outcome_elims \<open>inversion of a routine that returned\<close>

lemma bnd_eq_Ret [simp]:
  "bnd m f = Ret b t \<longleftrightarrow> (\<exists>a s. m = Ret a s \<and> f a s = Ret b t)"
  by (cases m) auto

lemma bnd_eq_Switch [simp]:
  "bnd m f = Switch t \<longleftrightarrow> m = Switch t \<or> (\<exists>a s. m = Ret a s \<and> f a s = Switch t)"
  by (cases m) auto

lemma bnd_RetE [outcome_elims]:
  assumes "bnd m f = Ret b t"
  obtains a s where "m = Ret a s" and "f a s = Ret b t"
  using assms by auto

lemma bnd_cong [fundef_cong]:
  "m = m' \<Longrightarrow> (\<And>a s. m' = Ret a s \<Longrightarrow> f a s = g a s) \<Longrightarrow> bnd m f = bnd m' g"
  by (cases m') auto

lemma bnd_assoc: "bnd (bnd m f) g = bnd m (\<lambda>a s. bnd (f a s) g)"
  by (cases m) auto

section \<open>Byte arrays\<close>

text \<open>
  \<open>blit off xs ys\<close> overwrites \<open>ys\<close> with \<open>xs\<close> from index
  \<open>off\<close>; \<open>seg off n ys\<close> reads \<open>n\<close> elements there.
\<close>

definition blit :: "nat \<Rightarrow> 'a list \<Rightarrow> 'a list \<Rightarrow> 'a list" where
  "blit off xs ys = take off ys @ xs @ drop (off + length xs) ys"

definition seg :: "nat \<Rightarrow> nat \<Rightarrow> 'a list \<Rightarrow> 'a list" where
  "seg off n ys = take n (drop off ys)"

lemma length_blit [simp]: "off + length xs \<le> length ys \<Longrightarrow> length (blit off xs ys) = length ys"
  by (simp add: blit_def)

lemma length_seg [simp]: "off + n \<le> length ys \<Longrightarrow> length (seg off n ys) = n"
  by (simp add: seg_def)

lemma nth_blit:
  assumes "off + length xs \<le> length ys" and "i < length ys"
  shows "blit off xs ys ! i = (if off \<le> i \<and> i < off + length xs then xs ! (i - off) else ys ! i)"
  using assms by (auto simp: blit_def nth_append min_def)

lemma nth_seg: "off + n \<le> length ys \<Longrightarrow> i < n \<Longrightarrow> seg off n ys ! i = ys ! (off + i)"
  by (simp add: seg_def)

lemma seg_blit_same [simp]:
  "off + length xs \<le> length ys \<Longrightarrow> seg off (length xs) (blit off xs ys) = xs"
  by (simp add: blit_def seg_def)

lemma seg_blit_other:
  assumes "off + length xs \<le> length ys" "i + n \<le> length ys" "i + n \<le> off \<or> off + length xs \<le> i"
  shows "seg i n (blit off xs ys) = seg i n ys"
proof (rule nth_equalityI)
  show "length (seg i n (blit off xs ys)) = length (seg i n ys)"
    using assms by simp
next
  fix j assume "j < length (seg i n (blit off xs ys))"
  then have j: "j < n" using assms by simp
  show "seg i n (blit off xs ys) ! j = seg i n ys ! j"
    using assms j by (auto simp: nth_seg nth_blit)
qed

lemma blit_seg_id: "off + n \<le> length ys \<Longrightarrow> blit off (seg off n ys) ys = ys"
  by (rule nth_equalityI) (auto simp: nth_blit nth_seg)

section \<open>Little-endian encodings\<close>

definition le16 :: "ushort \<Rightarrow> byte list" where
  "le16 w = [ucast w, ucast (drop_bit 8 w)]"

definition un16 :: "byte list \<Rightarrow> ushort" where
  "un16 bs = ucast (bs ! 0) OR push_bit 8 (ucast (bs ! 1))"

definition le32 :: "uint \<Rightarrow> byte list" where
  "le32 w = [ucast w, ucast (drop_bit 8 w), ucast (drop_bit 16 w), ucast (drop_bit 24 w)]"

definition un32 :: "byte list \<Rightarrow> uint" where
  "un32 bs = ucast (bs ! 0) OR push_bit 8 (ucast (bs ! 1)) OR push_bit 16 (ucast (bs ! 2))
     OR push_bit 24 (ucast (bs ! 3))"

lemma length_le16 [simp]: "length (le16 w) = 2"
  by (simp add: le16_def)

lemma length_le32 [simp]: "length (le32 w) = 4"
  by (simp add: le32_def)

lemma un16_le16 [simp]: "un16 (le16 w) = w"
proof (rule bit_word_eqI)
  fix n assume "n < LENGTH(16)"
  then show "bit (un16 (le16 w)) n \<longleftrightarrow> bit w n"
    by (auto simp: un16_def le16_def bit_simps)
qed

lemma un32_le32 [simp]: "un32 (le32 w) = w"
proof (rule bit_word_eqI)
  fix n assume n: "n < LENGTH(32)"
  consider "n < 8" | "8 \<le> n" "n < 16" | "16 \<le> n" "n < 24" | "24 \<le> n" "n < 32"
    using n by fastforce
  then show "bit (un32 (le32 w)) n \<longleftrightarrow> bit w n"
    by cases (auto simp: un32_def le32_def bit_simps)
qed

end
