(* ===== verification/Spinlock.thy ===== *)
theory Spinlock
  imports Prelude
begin

text \<open>
  Processors, interrupt masking and spin locks: \<open>kernel/spinlock.c\<close>, and
  \<open>mycpu\<close>, \<open>cpuid\<close> of \<open>kernel/proc.c\<close>.

  The state \<open>mach\<close> holds the table of processors, the spin locks and two
  pieces of hardware: the local APIC identifier of the processor that executes
  the code (what \<open>lapicid()\<close> reads) and the interrupt-enable flag of every
  processor.  The record is extensible; every later component adds its fields to
  it, so the routines here apply to the state of the whole kernel.

  Not modelled: the call stack a lock records for debugging (\<open>pcs\<close>).
\<close>

section \<open>State\<close>

record cpu =
  apicid :: byte
  ncli :: int
  intena :: bool
  cproc :: "nat option"

record spinlock =
  locked :: bool
  lk_name :: string
  lk_cpu :: "nat option"

record mach =
  hw_id :: byte
  hw_if :: "byte \<Rightarrow> bool"
  ncpu :: nat
  cpus :: "cpu list"
  locks :: "lockid \<Rightarrow> spinlock"

section \<open>Operations\<close>

definition readeflags_IF :: "('x) mach_scheme \<Rightarrow> bool" where
  "readeflags_IF s = hw_if s (hw_id s)"

definition cli :: "('x) mach_scheme \<Rightarrow> ('x) mach_scheme" where
  "cli s = s\<lparr>hw_if := (hw_if s)(hw_id s := False)\<rparr>"

definition sti :: "('x) mach_scheme \<Rightarrow> ('x) mach_scheme" where
  "sti s = s\<lparr>hw_if := (hw_if s)(hw_id s := True)\<rparr>"

definition this_cpu :: "('x) mach_scheme \<Rightarrow> nat option" where
  "this_cpu s = List.find (\<lambda>i. apicid (cpus s ! i) = hw_id s) [0..<ncpu s]"

definition mycpu :: "('x) mach_scheme \<Rightarrow> (('x) mach_scheme, nat) outcome" where
  "mycpu s =
     (if readeflags_IF s then Panic (''mycpu called with interrupts enabled'' @ [CHR 0x0A])
      else case this_cpu s of
             None \<Rightarrow> Panic (''unknown apicid'' @ [CHR 0x0A])
           | Some i \<Rightarrow> Ret i s)"

definition upd_cpu :: "nat \<Rightarrow> (cpu \<Rightarrow> cpu) \<Rightarrow> ('x) mach_scheme \<Rightarrow> ('x) mach_scheme" where
  "upd_cpu c f s = s\<lparr>cpus := (cpus s)[c := f (cpus s ! c)]\<rparr>"

definition pushcli :: "('x) mach_scheme \<Rightarrow> (('x) mach_scheme, unit) outcome" where
  "pushcli s =
     (let eflags = readeflags_IF s; s = cli s in
      bnd (mycpu s) (\<lambda>c s.
      let s = (if ncli (cpus s ! c) = 0
               then upd_cpu c (\<lambda>k. k\<lparr>intena := eflags\<rparr>) s else s) in
      Ret () (upd_cpu c (\<lambda>k. k\<lparr>ncli := ncli k + 1\<rparr>) s)))"

definition popcli :: "('x) mach_scheme \<Rightarrow> (('x) mach_scheme, unit) outcome" where
  "popcli s =
     (if readeflags_IF s then Panic ''popcli - interruptible''
      else bnd (mycpu s) (\<lambda>c s.
        let s = upd_cpu c (\<lambda>k. k\<lparr>ncli := ncli k - 1\<rparr>) s in
        if ncli (cpus s ! c) < 0 then Panic ''popcli''
        else if ncli (cpus s ! c) = 0 \<and> intena (cpus s ! c) then Ret () (sti s)
        else Ret () s))"

definition initlock :: "lockid \<Rightarrow> string \<Rightarrow> ('x) mach_scheme \<Rightarrow> ('x) mach_scheme" where
  "initlock lk name s =
     s\<lparr>locks := (locks s)(lk := \<lparr>locked = False, lk_name = name, lk_cpu = None\<rparr>)\<rparr>"

definition holding :: "lockid \<Rightarrow> ('x) mach_scheme \<Rightarrow> (('x) mach_scheme, bool) outcome" where
  "holding lk s =
     (if \<not> locked (locks s lk) then Ret False s
      else bnd (mycpu s) (\<lambda>c s. Ret (lk_cpu (locks s lk) = Some c) s))"

text \<open>
  \<open>xchg\<close> on the lock word: when the word is already set, the loop never
  leaves in this run; in a run of several processors it is retried later.
\<close>

definition acquire :: "lockid \<Rightarrow> ('x) mach_scheme \<Rightarrow> (('x) mach_scheme, unit) outcome" where
  "acquire lk s =
     bnd (pushcli s) (\<lambda>_ s.
     bnd (holding lk s) (\<lambda>h s.
     if h then Panic ''acquire''
     else if locked (locks s lk) then Spins lk
     else let s = s\<lparr>locks := (locks s)(lk := (locks s lk)\<lparr>locked := True\<rparr>)\<rparr> in
     bnd (mycpu s) (\<lambda>c s.
     Ret () (s\<lparr>locks := (locks s)(lk := (locks s lk)\<lparr>lk_cpu := Some c\<rparr>)\<rparr>))))"

definition release :: "lockid \<Rightarrow> ('x) mach_scheme \<Rightarrow> (('x) mach_scheme, unit) outcome" where
  "release lk s =
     bnd (holding lk s) (\<lambda>h s.
     if \<not> h then Panic ''release''
     else let s = s\<lparr>locks := (locks s)(lk := (locks s lk)\<lparr>lk_cpu := None\<rparr>)\<rparr>;
              s = s\<lparr>locks := (locks s)(lk := (locks s lk)\<lparr>locked := False\<rparr>)\<rparr> in
     popcli s)"

section \<open>A processor between critical sections\<close>

text \<open>
  \<open>cli_ok\<close>: the executing processor is known, its nesting depth is not
  negative, and its interrupt flag agrees with the depth: disabled when the depth
  is positive, equal to the saved \<open>intena\<close> when it is 0.
\<close>

definition cli_ok :: "('x) mach_scheme \<Rightarrow> bool" where
  "cli_ok s \<longleftrightarrow>
     (\<exists>c. this_cpu s = Some c \<and> c < length (cpus s) \<and> 0 \<le> ncli (cpus s ! c) \<and>
          (if ncli (cpus s ! c) = 0 then readeflags_IF s = intena (cpus s ! c)
           else \<not> readeflags_IF s))"

definition lk_free :: "lockid \<Rightarrow> ('x) mach_scheme \<Rightarrow> bool" where
  "lk_free lk s \<longleftrightarrow> \<not> locked (locks s lk) \<and> lk_cpu (locks s lk) = None"

definition acq :: "lockid \<Rightarrow> ('x) mach_scheme \<Rightarrow> ('x) mach_scheme" where
  "acq lk s =
     s\<lparr>hw_if := (hw_if s)(hw_id s := False),
       cpus := (cpus s)[the (this_cpu s) := (cpus s ! the (this_cpu s))
                 \<lparr>ncli := ncli (cpus s ! the (this_cpu s)) + 1\<rparr>],
       locks := (locks s)(lk := (locks s lk)\<lparr>locked := True, lk_cpu := this_cpu s\<rparr>)\<rparr>"

lemma this_cpu_cong:
  assumes "hw_id s = hw_id t" "ncpu s = ncpu t"
    "\<And>i. apicid (cpus s ! i) = apicid (cpus t ! i)"
  shows "this_cpu s = this_cpu t"
  using assms by (simp add: this_cpu_def)

lemma this_cpu_upd [simp]:
  "this_cpu (s\<lparr>hw_if := a\<rparr>) = this_cpu s"
  "this_cpu (s\<lparr>locks := b\<rparr>) = this_cpu s"
  by (simp_all add: this_cpu_def)

lemma this_cpu_upd_cpu [simp]:
  assumes "\<And>k. apicid (f k) = apicid k"
  shows "this_cpu (upd_cpu c f s) = this_cpu s"
proof -
  have "apicid ((cpus s)[c := f (cpus s ! c)] ! i) = apicid (cpus s ! i)" for i
    using assms by (cases "c < length (cpus s)") (auto simp: nth_list_update list_update_beyond)
  then show ?thesis by (intro this_cpu_cong) (simp_all add: upd_cpu_def)
qed

lemma acquire_acq:
  assumes "cli_ok s" and "lk_free lk s"
  shows "acquire lk s = Ret () (acq lk s)"
proof -
  from assms(1) obtain c where c: "this_cpu s = Some c" "c < length (cpus s)"
    "0 \<le> ncli (cpus s ! c)"
    "if ncli (cpus s ! c) = 0 then readeflags_IF s = intena (cpus s ! c) else \<not> readeflags_IF s"
    by (auto simp: cli_ok_def)
  have id: "ncli (cpus s ! c) = 0 \<Longrightarrow> (cpus s ! c)\<lparr>intena := readeflags_IF s\<rparr> = cpus s ! c"
    using c by simp
  show ?thesis
    using c assms(2) id
    by (simp add: acquire_def pushcli_def mycpu_def holding_def cli_def readeflags_IF_def
        lk_free_def acq_def Let_def)
      (auto simp: upd_cpu_def)
qed

lemma acq_sel [simp]:
  "hw_id (acq lk s) = hw_id s" "ncpu (acq lk s) = ncpu s"
  "hw_if (acq lk s) = (hw_if s)(hw_id s := False)"
  "locks (acq lk s) = (locks s)(lk := (locks s lk)\<lparr>locked := True, lk_cpu := this_cpu s\<rparr>)"
  by (simp_all add: acq_def)

lemma this_cpu_acq [simp]: "this_cpu (acq lk s) = this_cpu s"
proof -
  have "this_cpu (acq lk s)
      = this_cpu (upd_cpu (the (this_cpu s)) (\<lambda>k. k\<lparr>ncli := ncli k + 1\<rparr>) s)"
    by (rule this_cpu_cong) (simp_all add: acq_def upd_cpu_def)
  then show ?thesis by simp
qed

lemma cpus_acq:
  "this_cpu s = Some c \<Longrightarrow>
   cpus (acq lk s) = (cpus s)[c := (cpus s ! c)\<lparr>ncli := ncli (cpus s ! c) + 1\<rparr>]"
  by (simp add: acq_def)

lemma cli_ok_acq [simp]: "cli_ok s \<Longrightarrow> cli_ok (acq lk s)"
  by (auto simp: cli_ok_def readeflags_IF_def cpus_acq)

lemma lk_free_acq [simp]: "l \<noteq> lk \<Longrightarrow> lk_free l (acq lk s) = lk_free l s"
  by (simp add: lk_free_def)

lemma popcli_eq:
  assumes "this_cpu t = Some c" "c < length (cpus t)" "\<not> readeflags_IF t" "1 \<le> ncli (cpus t ! c)"
  shows "popcli t = Ret ()
    (if ncli (cpus t ! c) = 1 \<and> intena (cpus t ! c)
     then t\<lparr>cpus := (cpus t)[c := (cpus t ! c)\<lparr>ncli := 0\<rparr>], hw_if := (hw_if t)(hw_id t := True)\<rparr>
     else t\<lparr>cpus := (cpus t)[c := (cpus t ! c)\<lparr>ncli := ncli (cpus t ! c) - 1\<rparr>]\<rparr>)"
  using assms by (simp add: popcli_def mycpu_def Let_def upd_cpu_def sti_def)

text \<open>
  Leaving a critical section: when the code between \<open>acquire\<close> and
  \<open>release\<close> has not touched the processor table or the locks, releasing
  restores them exactly.
\<close>

lemma release_acq:
  assumes "cli_ok s" "lk_free lk s"
    and "hw_id t = hw_id s" "ncpu t = ncpu s" "hw_if t = hw_if (acq lk s)"
    and "cpus t = cpus (acq lk s)" "locks t = locks (acq lk s)"
  shows "release lk t = Ret () (t\<lparr>hw_if := hw_if s, cpus := cpus s, locks := locks s\<rparr>)"
proof -
  from assms(1) obtain c where c: "this_cpu s = Some c" "c < length (cpus s)"
    "0 \<le> ncli (cpus s ! c)"
    "if ncli (cpus s ! c) = 0 then readeflags_IF s = intena (cpus s ! c) else \<not> readeflags_IF s"
    by (auto simp: cli_ok_def)
  have tc: "this_cpu t = Some c"
    using this_cpu_cong[of t "acq lk s"] assms c by simp
  have cp: "cpus t = (cpus s)[c := (cpus s ! c)\<lparr>ncli := ncli (cpus s ! c) + 1\<rparr>]"
    using assms(6) c by (simp add: acq_def)
  have lk: "(locks s lk)\<lparr>lk_cpu := None, locked := False\<rparr> = locks s lk"
    using assms(2) by (cases "locks s lk") (simp add: lk_free_def)
  have h: "holding lk t = Ret True t"
    using assms(3,5,7) tc c by (simp add: holding_def mycpu_def readeflags_IF_def)
  define u where "u = t\<lparr>locks := locks s\<rparr>"
  have "release lk t = popcli u"
    using assms(7) lk by (simp add: release_def h u_def Let_def)
  also have "\<dots> = Ret () (u\<lparr>hw_if := hw_if s, cpus := cpus s\<rparr>)"
  proof (cases "ncli (cpus s ! c) = 0")
    case True
    have k: "(cpus s)[c := (cpus s ! c)\<lparr>ncli := 0\<rparr>] = cpus s"
      using list_update_id[of "cpus s" c] True by (metis cpu.surjective cpu.update_convs(2))
    have i: "(hw_if s)(hw_id s := intena (cpus s ! c)) = hw_if s"
      using True c(4) by (intro fun_upd_idem) (simp add: readeflags_IF_def)
    show ?thesis
      using True c(2) tc assms(3,5) i by (subst popcli_eq[of _ c])
        (auto simp: u_def cp readeflags_IF_def k)
  next
    case False
    have i: "(hw_if s)(hw_id s := False) = hw_if s"
      using False c(4) by (intro fun_upd_idem) (simp add: readeflags_IF_def)
    show ?thesis
      using False c(2,3,4) tc assms(3,5) i by (subst popcli_eq[of _ c])
        (auto simp: u_def cp readeflags_IF_def)
  qed
  finally show ?thesis by (simp add: u_def)
qed

lemma acq_commute:
  assumes "l \<noteq> k"
  shows "acq l (acq k s) = acq k (acq l s)"
proof -
  have e: "(acq m s)\<lparr>hw_if := a, cpus := b, locks := d\<rparr> = s\<lparr>hw_if := a, cpus := b, locks := d\<rparr>" for m a b d
    by (simp add: acq_def)
  have c: "cpus (acq m s) = (cpus s)[the (this_cpu s) := (cpus s ! the (this_cpu s))
      \<lparr>ncli := ncli (cpus s ! the (this_cpu s)) + 1\<rparr>]" for m
    by (simp add: acq_def)
  show ?thesis
    unfolding acq_def[of l "acq k s"] acq_def[of k "acq l s"] this_cpu_acq acq_sel c e
    using assms by (simp add: fun_upd_twist)
qed

section \<open>What locking leaves alone\<close>

text \<open>
  \<open>frame s t\<close>: \<open>t\<close> differs from \<open>s\<close> at most in interrupt flags,
  nesting depths and locks.
\<close>

definition frame :: "('x) mach_scheme \<Rightarrow> ('x) mach_scheme \<Rightarrow> bool" where
  "frame s t \<longleftrightarrow>
     hw_id t = hw_id s \<and> ncpu t = ncpu s \<and> length (cpus t) = length (cpus s) \<and>
     map cproc (cpus t) = map cproc (cpus s) \<and> map apicid (cpus t) = map apicid (cpus s) \<and>
     mach.more t = mach.more s"

named_theorems frames \<open>routines that respect \<open>frame\<close>\<close>

lemma frame_refl [simp]: "frame s s"
  by (simp add: frame_def)

lemma frame_trans: "frame s t \<Longrightarrow> frame t u \<Longrightarrow> frame s u"
  by (simp add: frame_def)

lemma mycpu_RetD: "mycpu s = Ret c t \<Longrightarrow> t = s \<and> this_cpu s = Some c \<and> \<not> readeflags_IF s"
  by (auto simp: mycpu_def split: if_splits option.splits)

lemma map_list_update_same:
  assumes "\<And>k. g (f k) = g k"
  shows "map g (xs[c := f (xs ! c)]) = map g xs"
proof (rule nth_equalityI)
  fix i assume "i < length (map g (xs[c := f (xs ! c)]))"
  then show "map g (xs[c := f (xs ! c)]) ! i = map g xs ! i"
    using assms by (cases "i = c") auto
qed simp

lemma frame_upd_cpu:
  assumes "\<And>k. cproc (f k) = cproc k" "\<And>k. apicid (f k) = apicid k"
  shows "frame s (upd_cpu c f s)"
  using map_list_update_same[of cproc f, OF assms(1)] map_list_update_same[of apicid f, OF assms(2)]
  by (simp add: frame_def upd_cpu_def)

lemma frame_hw: "frame s (s\<lparr>hw_if := i\<rparr>)" "frame s (s\<lparr>locks := l\<rparr>)"
  by (simp_all add: frame_def)

lemma frame_pushcli [frames]: "pushcli s = Ret u t \<Longrightarrow> frame s t"
  by (auto simp: pushcli_def Let_def cli_def dest!: mycpu_RetD
      intro!: frame_trans[OF frame_trans[OF frame_hw(1) frame_upd_cpu] frame_upd_cpu]
        frame_trans[OF frame_hw(1) frame_upd_cpu])

lemma frame_popcli [frames]: "popcli s = Ret u t \<Longrightarrow> frame s t"
  by (auto simp: popcli_def Let_def sti_def split: if_splits dest!: mycpu_RetD
      intro!: frame_trans[OF frame_upd_cpu frame_hw(1)] frame_upd_cpu)

lemma holding_RetD: "holding l s = Ret h t \<Longrightarrow> t = s"
  by (auto simp: holding_def split: if_splits dest!: mycpu_RetD)

lemma frame_acquire [frames]: "acquire l s = Ret u t \<Longrightarrow> frame s t"
  by (auto simp: acquire_def Let_def split: if_splits dest!: mycpu_RetD holding_RetD frame_pushcli)
    (auto simp: frame_def)

lemma frame_release [frames]: "release l s = Ret u t \<Longrightarrow> frame s t"
  by (auto simp: release_def Let_def split: if_splits dest!: holding_RetD frame_popcli)
    (auto simp: frame_def)

text \<open>Locking never gives up the processor.\<close>

lemma no_switch [simp]:
  "mycpu s \<noteq> Switch t" "pushcli s \<noteq> Switch t" "popcli s \<noteq> Switch t" "holding l s \<noteq> Switch t"
  "acquire l s \<noteq> Switch t" "release l s \<noteq> Switch t"
proof -
  show my: "mycpu s \<noteq> Switch t" for s :: "('a) mach_scheme" and t
    by (auto simp: mycpu_def split: option.splits)
  show push: "pushcli s \<noteq> Switch t" and pop: "popcli s \<noteq> Switch t" for s :: "('b) mach_scheme" and t
    by (auto simp: pushcli_def popcli_def mycpu_def Let_def split: option.splits)
  show hold: "holding l s \<noteq> Switch t" for s :: "('c) mach_scheme" and t
    by (auto simp: holding_def mycpu_def split: option.splits)
  show "acquire l s \<noteq> Switch t" for s :: "('d) mach_scheme" and t
    by (auto simp: acquire_def Let_def holding_def mycpu_def pushcli_def split: option.splits if_splits)
  show "release l s \<noteq> Switch t" for s :: "('e) mach_scheme" and t
    by (auto simp: release_def Let_def holding_def mycpu_def popcli_def split: option.splits if_splits)
qed

lemma frame_this_cpu:
  assumes "frame s t" "ncpu s \<le> length (cpus s)"
  shows "this_cpu t = this_cpu s"
proof -
  have "apicid (cpus t ! i) = apicid (cpus s ! i)" if "i < ncpu s" for i
    using assms that unfolding frame_def by (metis nth_map less_le_trans)
  then show ?thesis
    using assms(1) unfolding this_cpu_def frame_def by (auto intro!: find_cong)
qed

section \<open>Several processors\<close>

text \<open>
  Any interleaving of lock operations of several processors.  \<open>on_cpu i s\<close>
  lets processor \<open>i\<close> execute.  \<open>smp s H D\<close>: from boot, the
  processors have reached \<open>s\<close>; \<open>H\<close> records which processor has
  returned from \<open>acquire\<close> of which lock and not yet from \<open>release\<close>,
  and \<open>D i\<close> how many bare \<open>pushcli\<close> of processor \<open>i\<close> are
  not yet undone.  \<open>smp_sti\<close> is \<open>idle\<close> enabling interrupts,
  \<open>smp_cli\<close> an interrupt gate disabling them.
\<close>

definition on_cpu :: "nat \<Rightarrow> ('x) mach_scheme \<Rightarrow> ('x) mach_scheme" where
  "on_cpu i s = s\<lparr>hw_id := apicid (cpus s ! i)\<rparr>"

definition boot_ok :: "mach \<Rightarrow> bool" where
  "boot_ok s \<longleftrightarrow>
     ncpu s \<le> length (cpus s) \<and> distinct (map apicid (take (ncpu s) (cpus s))) \<and>
     (\<forall>i<ncpu s. ncli (cpus s ! i) = 0) \<and> (\<forall>l. \<not> locked (locks s l) \<and> lk_cpu (locks s l) = None)"

inductive smp :: "mach \<Rightarrow> (nat \<times> lockid) set \<Rightarrow> (nat \<Rightarrow> nat) \<Rightarrow> bool" where
  smp_boot: "boot_ok s \<Longrightarrow> smp s {} (\<lambda>_. 0)"
| smp_acquire: "smp s H D \<Longrightarrow> i < ncpu s \<Longrightarrow> acquire l (on_cpu i s) = Ret u t \<Longrightarrow>
     smp t (insert (i, l) H) D"
| smp_release: "smp s H D \<Longrightarrow> i < ncpu s \<Longrightarrow> release l (on_cpu i s) = Ret u t \<Longrightarrow>
     smp t (H - {(i, l)}) D"
| smp_push: "smp s H D \<Longrightarrow> i < ncpu s \<Longrightarrow> pushcli (on_cpu i s) = Ret u t \<Longrightarrow>
     smp t H (D(i := D i + 1))"
| smp_pop: "smp s H D \<Longrightarrow> i < ncpu s \<Longrightarrow> 0 < D i \<Longrightarrow> popcli (on_cpu i s) = Ret u t \<Longrightarrow>
     smp t H (D(i := D i - 1))"
| smp_sti: "smp s H D \<Longrightarrow> i < ncpu s \<Longrightarrow> ncli (cpus s ! i) = 0 \<Longrightarrow> smp (sti (on_cpu i s)) H D"
| smp_cli: "smp s H D \<Longrightarrow> i < ncpu s \<Longrightarrow> smp (cli (on_cpu i s)) H D"

definition held_by :: "(nat \<times> lockid) set \<Rightarrow> nat \<Rightarrow> lockid set" where
  "held_by H i = {l. (i, l) \<in> H}"

definition smp_inv :: "mach \<Rightarrow> (nat \<times> lockid) set \<Rightarrow> (nat \<Rightarrow> nat) \<Rightarrow> bool" where
  "smp_inv s H D \<longleftrightarrow>
     ncpu s \<le> length (cpus s) \<and>
     (\<forall>i j. i < ncpu s \<longrightarrow> j < ncpu s \<longrightarrow> apicid (cpus s ! i) = apicid (cpus s ! j) \<longrightarrow> i = j) \<and>
     finite H \<and> (\<forall>i l. (i, l) \<in> H \<longrightarrow> i < ncpu s) \<and>
     (\<forall>i l. (i, l) \<in> H \<longleftrightarrow> lk_cpu (locks s l) = Some i) \<and>
     (\<forall>l. locked (locks s l) \<longleftrightarrow> lk_cpu (locks s l) \<noteq> None) \<and>
     (\<forall>i<ncpu s. ncli (cpus s ! i) = int (card (held_by H i) + D i) \<and>
        (0 < ncli (cpus s ! i) \<longrightarrow> \<not> hw_if s (apicid (cpus s ! i))))"

lemma this_cpu_on_cpu:
  assumes "smp_inv s H D" "i < ncpu s"
  shows "this_cpu (on_cpu i s) = Some i"
proof -
  have inj: "apicid (cpus s ! j) = apicid (cpus s ! i) \<Longrightarrow> j = i" if "j < i" for j
    using assms that by (simp add: smp_inv_def)
  show ?thesis
    unfolding this_cpu_def find_Some_iff
    using assms(2) by (intro exI[of _ i]) (auto simp: on_cpu_def dest: inj)
qed

lemma on_cpu_sel [simp]:
  "ncpu (on_cpu i s) = ncpu s" "cpus (on_cpu i s) = cpus s" "locks (on_cpu i s) = locks s"
  "hw_if (on_cpu i s) = hw_if s" "hw_id (on_cpu i s) = apicid (cpus s ! i)"
  by (simp_all add: on_cpu_def)

lemma pushcli_eq:
  assumes "this_cpu s = Some c" "c < length (cpus s)"
  shows "pushcli s = Ret () (s\<lparr>hw_if := (hw_if s)(hw_id s := False),
     cpus := (cpus s)[c := (cpus s ! c)\<lparr>
       intena := (if ncli (cpus s ! c) = 0 then readeflags_IF s else intena (cpus s ! c)),
       ncli := ncli (cpus s ! c) + 1\<rparr>]\<rparr>)"
  using assms
  by (simp add: pushcli_def mycpu_def cli_def Let_def upd_cpu_def readeflags_IF_def)

lemma acquire_eq:
  assumes "this_cpu s = Some c" "c < length (cpus s)"
  shows "acquire lk s =
    (if \<not> locked (locks s lk) then Ret () (s\<lparr>hw_if := (hw_if s)(hw_id s := False),
       cpus := (cpus s)[c := (cpus s ! c)\<lparr>
         intena := (if ncli (cpus s ! c) = 0 then readeflags_IF s else intena (cpus s ! c)),
         ncli := ncli (cpus s ! c) + 1\<rparr>],
       locks := (locks s)(lk := (locks s lk)\<lparr>locked := True, lk_cpu := Some c\<rparr>)\<rparr>)
     else if lk_cpu (locks s lk) = Some c then Panic ''acquire'' else Spins lk)"
proof -
  let ?k = "(cpus s ! c)\<lparr>
       intena := (if ncli (cpus s ! c) = 0 then readeflags_IF s else intena (cpus s ! c)),
       ncli := ncli (cpus s ! c) + 1\<rparr>"
  define t where "t = s\<lparr>hw_if := (hw_if s)(hw_id s := False), cpus := (cpus s)[c := ?k]\<rparr>"
  have 1: "pushcli s = Ret () t" using pushcli_eq[OF assms] by (simp add: t_def)
  have "this_cpu t = this_cpu s"
    by (rule this_cpu_cong) (use assms in \<open>auto simp: t_def nth_list_update\<close>)
  then have 2: "this_cpu t = Some c" using assms by simp
  have 3: "\<not> readeflags_IF t" by (simp add: t_def readeflags_IF_def)
  have 4: "\<not> readeflags_IF (t\<lparr>locks := x\<rparr>)" for x by (simp add: t_def readeflags_IF_def)
  have 5: "locks t = locks s" by (simp add: t_def)
  show ?thesis
    using assms
    by (simp add: acquire_def 1 holding_def mycpu_def 2 3 4 5 Let_def, simp add: t_def)
qed

lemma release_eq:
  assumes "this_cpu s = Some c" "c < length (cpus s)" "\<not> readeflags_IF s"
  shows "release lk s =
    (if locked (locks s lk) \<and> lk_cpu (locks s lk) = Some c
     then popcli (s\<lparr>locks := (locks s)(lk := (locks s lk)\<lparr>lk_cpu := None, locked := False\<rparr>)\<rparr>)
     else Panic ''release'')"
  using assms by (auto simp: release_def holding_def mycpu_def Let_def)

lemma held_by_insert:
  "held_by (insert (i, l) H) k = (if k = i then insert l (held_by H k) else held_by H k)"
  by (auto simp: held_by_def)

lemma held_by_delete:
  "held_by (H - {(i, l)}) k = (if k = i then held_by H k - {l} else held_by H k)"
  by (auto simp: held_by_def)

lemma finite_held_by: "finite H \<Longrightarrow> finite (held_by H i)"
  by (rule finite_subset[of _ "snd ` H"]) (force simp: held_by_def)+

lemma smp_invD:
  assumes "smp_inv s H D"
  shows "ncpu s \<le> length (cpus s)"
    and "\<And>i j. i < ncpu s \<Longrightarrow> j < ncpu s \<Longrightarrow> apicid (cpus s ! i) = apicid (cpus s ! j) \<longleftrightarrow> i = j"
    and "finite H"
    and "\<And>i l. (i, l) \<in> H \<longleftrightarrow> lk_cpu (locks s l) = Some i"
    and "\<And>l. locked (locks s l) \<longleftrightarrow> lk_cpu (locks s l) \<noteq> None"
    and "\<And>i. i < ncpu s \<Longrightarrow> ncli (cpus s ! i) = int (card (held_by H i) + D i)"
    and "\<And>i. i < ncpu s \<Longrightarrow> 0 < ncli (cpus s ! i) \<Longrightarrow> \<not> hw_if s (apicid (cpus s ! i))"
    and "\<And>i l. (i, l) \<in> H \<Longrightarrow> i < ncpu s"
  using assms unfolding smp_inv_def by blast+

text \<open>
  A step of processor \<open>i\<close> that changes its own entry of the table, its own
  interrupt flag and the locks keeps the invariant if it keeps the bookkeeping.
\<close>

lemma smp_inv_upd:
  assumes inv: "smp_inv s H D" and i: "i < ncpu s"
    and k: "apicid k = apicid (cpus s ! i)"
    and n: "ncli k = int (card (held_by H' i) + D' i)" "0 < ncli k \<Longrightarrow> \<not> b"
    and H': "finite H'" "\<And>j. j \<noteq> i \<Longrightarrow> held_by H' j = held_by H j \<and> D' j = D j"
    and L: "\<And>j l. (j, l) \<in> H' \<longleftrightarrow> lk_cpu (L l) = Some j" "\<And>l. locked (L l) \<longleftrightarrow> lk_cpu (L l) \<noteq> None"
  shows "smp_inv (s\<lparr>hw_id := h, hw_if := (hw_if s)(apicid (cpus s ! i) := b), cpus := (cpus s)[i := k],
           locks := L\<rparr>) H' D'"
proof -
  note D = smp_invD[OF inv]
  have il: "i < length (cpus s)" using D(1) i by simp
  have ap: "apicid ((cpus s)[i := k] ! j) = apicid (cpus s ! j)" for j
    using k il by (cases "j = i") auto
  have nc: "ncli ((cpus s)[i := k] ! j) = int (card (held_by H' j) + D' j)" if "j < ncpu s" for j
    using that D(6)[OF that] il n(1) H'(2)[of j] by (cases "j = i") auto
  have fl: "\<not> ((hw_if s)(apicid (cpus s ! i) := b)) (apicid (cpus s ! j))"
    if "j < ncpu s" "0 < ncli ((cpus s)[i := k] ! j)" for j
    using that D(2)[OF that(1) i] D(7)[OF that(1)] il n(2) by (cases "j = i") auto
  have "j < ncpu s" if "(j, l) \<in> H'" for j l
    using that i H'(2)[of j] D(8)[of j l] by (cases "j = i") (auto simp: held_by_def)
  then show ?thesis
    unfolding smp_inv_def using D(1,2) H'(1) L ap nc fl by simp
qed

lemma smp_inv_boot:
  assumes "boot_ok s"
  shows "smp_inv s {} (\<lambda>_. 0)"
proof -
  have "i = j" if "i < ncpu s" "j < ncpu s" "apicid (cpus s ! i) = apicid (cpus s ! j)" for i j
    using assms that nth_eq_iff_index_eq[of "map apicid (take (ncpu s) (cpus s))" i j]
    by (simp add: boot_ok_def)
  then show ?thesis
    using assms unfolding smp_inv_def boot_ok_def by (auto simp: held_by_def)
qed

lemma on_cpu_updates:
  "(on_cpu i s)\<lparr>hw_if := a, cpus := b, locks := c\<rparr>
     = s\<lparr>hw_id := apicid (cpus s ! i), hw_if := a, cpus := b, locks := c\<rparr>"
  "(on_cpu i s)\<lparr>hw_if := a, cpus := b\<rparr>
     = s\<lparr>hw_id := apicid (cpus s ! i), hw_if := a, cpus := b, locks := locks s\<rparr>"
  "(on_cpu i s)\<lparr>hw_if := a\<rparr>
     = s\<lparr>hw_id := apicid (cpus s ! i), hw_if := a, cpus := (cpus s)[i := cpus s ! i], locks := locks s\<rparr>"
  by (simp_all add: on_cpu_def)

lemma smp_inv_acquire:
  assumes inv: "smp_inv s H D" and i: "i < ncpu s" and r: "acquire l (on_cpu i s) = Ret u t"
  shows "smp_inv t (insert (i, l) H) D"
proof -
  note D = smp_invD[OF inv]
  have il: "i < length (cpus s)" using D(1) i by simp
  note e = acquire_eq[OF this_cpu_on_cpu[OF inv i], of l]
  from r e il have nl: "\<not> locked (locks s l)" by (auto split: if_splits)
  then have new: "l \<notin> held_by H i" using D(4,5) by (auto simp: held_by_def)
  have card: "card (insert l (held_by H i)) = Suc (card (held_by H i))"
    using new finite_held_by[OF D(3)] by simp
  from r e il nl have t: "t = s\<lparr>hw_id := apicid (cpus s ! i),
      hw_if := (hw_if s)(apicid (cpus s ! i) := False),
      cpus := (cpus s)[i := (cpus s ! i)\<lparr>
        intena := (if ncli (cpus s ! i) = 0 then readeflags_IF (on_cpu i s) else intena (cpus s ! i)),
        ncli := ncli (cpus s ! i) + 1\<rparr>],
      locks := (locks s)(l := (locks s l)\<lparr>locked := True, lk_cpu := Some i\<rparr>)\<rparr>"
    by (simp add: on_cpu_updates split del: if_split cong: if_cong)
  show ?thesis
    unfolding t
  proof (rule smp_inv_upd[OF inv i])
    show "(j, k) \<in> insert (i, l) H \<longleftrightarrow>
        lk_cpu (((locks s)(l := (locks s l)\<lparr>locked := True, lk_cpu := Some i\<rparr>)) k) = Some j" for j k
      using nl D(4,5) by auto
  qed (use D card i in \<open>auto simp: held_by_insert\<close>)
qed

lemma smp_inv_pop:
  assumes inv: "smp_inv s H D" and i: "i < ncpu s"
    and L: "\<And>j l. (j, l) \<in> H' \<longleftrightarrow> lk_cpu (L l) = Some j" "\<And>l. locked (L l) \<longleftrightarrow> lk_cpu (L l) \<noteq> None"
    and H': "finite H'" "\<And>j. j \<noteq> i \<Longrightarrow> held_by H' j = held_by H j \<and> D' j = D j"
    and c: "Suc (card (held_by H' i) + D' i) = card (held_by H i) + D i"
    and r: "popcli ((on_cpu i s)\<lparr>locks := L\<rparr>) = Ret u t"
  shows "smp_inv t H' D'"
proof -
  note D = smp_invD[OF inv]
  have il: "i < length (cpus s)" using D(1) i by simp
  let ?s = "(on_cpu i s)\<lparr>locks := L\<rparr>"
  have n: "ncli (cpus s ! i) = int (card (held_by H' i) + D' i) + 1" using D(6)[OF i] c by simp
  then have b: "\<not> hw_if s (apicid (cpus s ! i))" using D(7)[OF i] by simp
  define v where "v = (ncli (cpus s ! i) = 1 \<and> intena (cpus s ! i))"
  have e: "popcli ?s = Ret ()
    (if ncli (cpus s ! i) = 1 \<and> intena (cpus s ! i)
     then ?s\<lparr>cpus := (cpus s)[i := (cpus s ! i)\<lparr>ncli := 0\<rparr>],
             hw_if := (hw_if s)(apicid (cpus s ! i) := True)\<rparr>
     else ?s\<lparr>cpus := (cpus s)[i := (cpus s ! i)\<lparr>ncli := ncli (cpus s ! i) - 1\<rparr>]\<rparr>)"
    using popcli_eq[of ?s i] this_cpu_on_cpu[OF inv i] il b n by (simp add: readeflags_IF_def)
  have f: "(hw_if s)(apicid (cpus s ! i) := False) = hw_if s" using b by (intro fun_upd_idem) simp
  have t: "t = s\<lparr>hw_id := apicid (cpus s ! i), hw_if := (hw_if s)(apicid (cpus s ! i) := v),
      cpus := (cpus s)[i := (cpus s ! i)\<lparr>ncli := ncli (cpus s ! i) - 1\<rparr>], locks := L\<rparr>"
    using r e f by (cases v) (auto simp: v_def on_cpu_def)
  show ?thesis
    unfolding t by (rule smp_inv_upd[OF inv i]) (use n H' L in \<open>auto simp: v_def\<close>)
qed

lemma smp_inv_release:
  assumes inv: "smp_inv s H D" and i: "i < ncpu s" and r: "release l (on_cpu i s) = Ret u t"
  shows "smp_inv t (H - {(i, l)}) D"
proof -
  note D = smp_invD[OF inv]
  have il: "i < length (cpus s)" using D(1) i by simp
  from r this_cpu_on_cpu[OF inv i] have h: "lk_cpu (locks s l) = Some i"
    by (auto simp: release_def holding_def mycpu_def split: if_splits)
  then have m: "l \<in> held_by H i" using D(4) by (simp add: held_by_def)
  then have c: "card (held_by H i) = Suc (card (held_by H i - {l}))"
    using finite_held_by[OF D(3)] by (metis card_Suc_Diff1)
  have b: "\<not> readeflags_IF (on_cpu i s)"
    using D(7)[OF i] D(6)[OF i] c by (simp add: readeflags_IF_def)
  let ?L = "(locks s)(l := (locks s l)\<lparr>lk_cpu := None, locked := False\<rparr>)"
  have p: "popcli ((on_cpu i s)\<lparr>locks := ?L\<rparr>) = Ret u t"
    using r release_eq[OF this_cpu_on_cpu[OF inv i] _ b, of l] il h D(5) by simp
  show ?thesis
    by (rule smp_inv_pop[OF inv i _ _ _ _ _ p])
      (use D c h in \<open>auto simp: held_by_delete\<close>)
qed

lemma smp_inv_push:
  assumes inv: "smp_inv s H D" and i: "i < ncpu s" and r: "pushcli (on_cpu i s) = Ret u t"
  shows "smp_inv t H (D(i := D i + 1))"
proof -
  note D = smp_invD[OF inv]
  have il: "i < length (cpus s)" using D(1) i by simp
  have t: "t = (on_cpu i s)\<lparr>hw_if := (hw_if s)(apicid (cpus s ! i) := False),
      cpus := (cpus s)[i := (cpus s ! i)\<lparr>
        intena := (if ncli (cpus s ! i) = 0 then readeflags_IF (on_cpu i s) else intena (cpus s ! i)),
        ncli := ncli (cpus s ! i) + 1\<rparr>]\<rparr>"
    using r pushcli_eq[OF this_cpu_on_cpu[OF inv i]] il by (simp split del: if_split cong: if_cong)
  show ?thesis
    unfolding t on_cpu_updates(2) by (rule smp_inv_upd[OF inv i]) (use D i in auto)
qed

lemma smp_inv_flag:
  assumes inv: "smp_inv s H D" and i: "i < ncpu s" and b: "b \<Longrightarrow> ncli (cpus s ! i) = 0"
  shows "smp_inv ((on_cpu i s)\<lparr>hw_if := (hw_if s)(apicid (cpus s ! i) := b)\<rparr>) H D"
  unfolding on_cpu_updates
  by (rule smp_inv_upd[OF inv i]) (use smp_invD[OF inv] i b in auto)

lemma smp_smp_inv: "smp s H D \<Longrightarrow> smp_inv s H D"
proof (induction rule: smp.induct)
  case (smp_pop s H D i u t)
  then have "popcli ((on_cpu i s)\<lparr>locks := locks s\<rparr>) = Ret u t" by (simp add: on_cpu_def)
  then show ?case
    by (rule smp_inv_pop[OF smp_pop.IH smp_pop.hyps(2), rotated 5])
      (use smp_invD[OF smp_pop.IH] smp_pop.hyps in auto)
next
  case (smp_sti s H D i)
  then show ?case using smp_inv_flag[of s H D i True] by (simp add: sti_def)
next
  case (smp_cli s H D i)
  then show ?case using smp_inv_flag[of s H D i False] by (simp add: cli_def)
qed (blast intro: smp_inv_boot smp_inv_acquire smp_inv_release smp_inv_push)+

text \<open>
  C4.  Mutual exclusion with interrupts off.  In every interleaving of lock
  operations, at most one processor is between \<open>acquire\<close> and
  \<open>release\<close> of a lock, and a processor that is has interrupts disabled.
\<close>

theorem spinlock_mutex:
  assumes "smp s H D" and "(i, l) \<in> H" and "(j, l) \<in> H"
  shows "i = j \<and> \<not> hw_if s (apicid (cpus s ! i))"
proof -
  note D = smp_invD[OF smp_smp_inv[OF assms(1)]]
  have i: "i < ncpu s" by (rule D(8)[OF assms(2)])
  have "held_by H i \<noteq> {}" using assms(2) by (auto simp: held_by_def)
  then have "0 < card (held_by H i)"
    using finite_held_by[OF D(3), of i] by (simp add: card_gt_0_iff)
  then have "0 < ncli (cpus s ! i)" using D(6)[OF i] by simp
  with D(7)[OF i] D(4) assms(2,3) show ?thesis by auto
qed

definition two_cpus :: mach where
  "two_cpus = \<lparr>hw_id = 0, hw_if = (\<lambda>_. True), ncpu = 2,
     cpus = [\<lparr>apicid = 0, ncli = 0, intena = False, cproc = None\<rparr>,
             \<lparr>apicid = 5, ncli = 0, intena = False, cproc = None\<rparr>],
     locks = (\<lambda>_. \<lparr>locked = False, lk_name = [], lk_cpu = None\<rparr>)\<rparr>"

lemma smp_two_cpus: "smp two_cpus {} (\<lambda>_. 0)"
  by (rule smp_boot) (simp add: boot_ok_def two_cpus_def nth_Cons split: nat.splits)

lemma smp_two_cpus_acquired:
  "\<exists>t. acquire L_kmem (on_cpu 1 two_cpus) = Ret () t \<and> smp t {(1, L_kmem)} (\<lambda>_. 0)"
proof -
  have "\<exists>t. acquire L_kmem (on_cpu 1 two_cpus) = Ret () t"
    using acquire_eq[OF this_cpu_on_cpu[OF smp_smp_inv[OF smp_two_cpus], of 1], of L_kmem]
    by (simp add: two_cpus_def)
  then show ?thesis
    using smp_acquire[OF smp_two_cpus, of 1 L_kmem] by (auto simp: two_cpus_def)
qed

theorem spinlock_mutex_witness:
  "\<exists>t. acquire L_kmem (on_cpu 1 two_cpus) = Ret () t \<and> \<not> hw_if t (apicid (cpus t ! 1))"
  using smp_two_cpus_acquired spinlock_mutex[of _ "{(1, L_kmem)}" _ 1 L_kmem 1] by blast

text \<open>
  C29.  What \<open>acquire\<close> does is decided by who holds the lock: it panics exactly
  when the calling processor already holds it, spins exactly when another one
  does, and otherwise returns holding it.
\<close>

theorem acquire_outcome:
  assumes "smp s H D" and "i < ncpu s"
  shows "case acquire l (on_cpu i s) of
      Panic m \<Rightarrow> m = ''acquire'' \<and> (i, l) \<in> H
    | Spins k \<Rightarrow> k = l \<and> (\<exists>j. j \<noteq> i \<and> (j, l) \<in> H)
    | Ret u t \<Rightarrow> (\<forall>j. (j, l) \<notin> H) \<and> locked (locks t l) \<and> lk_cpu (locks t l) = Some i
    | _ \<Rightarrow> False"
proof -
  have inv: "smp_inv s H D" by (rule smp_smp_inv[OF assms(1)])
  note D = smp_invD[OF inv]
  have "i < length (cpus s)" using D(1) assms(2) by simp
  then show ?thesis
    using acquire_eq[OF this_cpu_on_cpu[OF inv assms(2)], of l] D(4,5)
    by (simp split del: if_split) (auto split: if_splits)
qed

theorem acquire_outcome_witness:
  "\<exists>t. smp t {(1, L_kmem)} (\<lambda>_. 0) \<and> acquire L_kmem (on_cpu 0 t) = Spins L_kmem"
proof -
  obtain t where t: "smp t {(1, L_kmem)} (\<lambda>_. 0)" using smp_two_cpus_acquired by blast
  have "1 < ncpu t" using smp_invD(8)[OF smp_smp_inv[OF t], of 1 L_kmem] by simp
  then have "0 < ncpu t" by simp
  from t acquire_outcome[OF t this, of L_kmem] show ?thesis
    by (intro exI[of _ t]) (auto split: outcome.splits)
qed

end
