(* ===== verification/Cstring.thy ===== *)
theory Cstring
  imports Prelude
begin

text \<open>
  The string and memory routines: \<open>kernel/string.c\<close> and
  \<open>user/ulib.c\<close>.

  The \<open>mem*\<close> routines work on byte-addressed memory with 32-bit addresses,
  which wrap around.  The \<open>str*\<close> routines work on character arrays.  A
  character array is the list of its bytes; reading at its end gives the
  terminating NUL, so a C string may be written as the list of its characters.
\<close>

type_synonym memory = "uint \<Rightarrow> byte"

section \<open>Memory\<close>

definition store32 :: "uint \<Rightarrow> uint \<Rightarrow> memory \<Rightarrow> memory" where
  "store32 a v m = m(a := ucast v, a + 1 := ucast (drop_bit 8 v),
     a + 2 := ucast (drop_bit 16 v), a + 3 := ucast (drop_bit 24 v))"

definition load32 :: "uint \<Rightarrow> memory \<Rightarrow> uint" where
  "load32 a m = un32 [m a, m (a + 1), m (a + 2), m (a + 3)]"

fun stosb :: "uint \<Rightarrow> byte \<Rightarrow> nat \<Rightarrow> memory \<Rightarrow> memory" where
  "stosb a v 0 m = m"
| "stosb a v (Suc n) m = stosb (a + 1) v n (m(a := v))"

fun stosl :: "uint \<Rightarrow> uint \<Rightarrow> nat \<Rightarrow> memory \<Rightarrow> memory" where
  "stosl a v 0 m = m"
| "stosl a v (Suc n) m = stosl (a + 4) v n (store32 a v m)"

definition memset :: "uint \<Rightarrow> uint \<Rightarrow> uint \<Rightarrow> memory \<Rightarrow> memory" where
  "memset dst c n m =
     (if dst mod 4 = 0 \<and> n mod 4 = 0
      then let c = c AND 0xFF in
           stosl dst (push_bit 24 c OR push_bit 16 c OR push_bit 8 c OR c) (unat (n div 4)) m
      else stosb dst (ucast c) (unat n) m)"

fun copy_fwd :: "nat \<Rightarrow> uint \<Rightarrow> uint \<Rightarrow> memory \<Rightarrow> memory" where
  "copy_fwd 0 d s m = m"
| "copy_fwd (Suc n) d s m = copy_fwd n (d + 1) (s + 1) (m(d := m s))"

fun copy_bwd :: "nat \<Rightarrow> uint \<Rightarrow> uint \<Rightarrow> memory \<Rightarrow> memory" where
  "copy_bwd 0 d s m = m"
| "copy_bwd (Suc n) d s m = (let d = d - 1; s = s - 1 in copy_bwd n d s (m(d := m s)))"

definition memmove :: "uint \<Rightarrow> uint \<Rightarrow> uint \<Rightarrow> memory \<Rightarrow> memory" where
  "memmove dst src n m =
     (if src < dst \<and> src + n > dst
      then copy_bwd (unat n) (dst + n) (src + n) m
      else copy_fwd (unat n) dst src m)"

definition memcpy :: "uint \<Rightarrow> uint \<Rightarrow> uint \<Rightarrow> memory \<Rightarrow> memory" where
  "memcpy dst src n m = memmove dst src n m"

fun memcmp_loop :: "nat \<Rightarrow> uint \<Rightarrow> uint \<Rightarrow> memory \<Rightarrow> int" where
  "memcmp_loop 0 s1 s2 m = 0"
| "memcmp_loop (Suc n) s1 s2 m =
     (if m s1 \<noteq> m s2 then uint (m s1) - uint (m s2) else memcmp_loop n (s1 + 1) (s2 + 1) m)"

definition memcmp :: "uint \<Rightarrow> uint \<Rightarrow> uint \<Rightarrow> memory \<Rightarrow> int" where
  "memcmp v1 v2 n m = memcmp_loop (unat n) v1 v2 m"

section \<open>Character arrays\<close>

definition chr :: "byte list \<Rightarrow> byte" where
  "chr p = (case p of [] \<Rightarrow> 0 | c # _ \<Rightarrow> c)"

fun strncmp :: "byte list \<Rightarrow> byte list \<Rightarrow> nat \<Rightarrow> int" where
  "strncmp p q 0 = 0"
| "strncmp p q (Suc n) =
     (if chr p \<noteq> 0 \<and> chr p = chr q then strncmp (tl p) (tl q) n
      else uint (chr p) - uint (chr q))"

text \<open>
  \<open>strncpy\<close> and \<open>safestrcpy\<close> fill an array from its start; the
  auxiliary functions give the bytes they store, in order.
\<close>

fun strncpy_bytes :: "byte list \<Rightarrow> nat \<Rightarrow> byte list" where
  "strncpy_bytes t 0 = []"
| "strncpy_bytes t (Suc n) =
     (if chr t \<noteq> 0 then chr t # strncpy_bytes (tl t) n else 0 # replicate n 0)"

definition strncpy :: "byte list \<Rightarrow> byte list \<Rightarrow> int \<Rightarrow> byte list" where
  "strncpy s t n = blit 0 (strncpy_bytes t (nat n)) s"

fun safestrcpy_bytes :: "byte list \<Rightarrow> nat \<Rightarrow> byte list" where
  "safestrcpy_bytes t 0 = [0]"
| "safestrcpy_bytes t (Suc n) =
     (if chr t \<noteq> 0 then chr t # safestrcpy_bytes (tl t) n else [0, 0])"

definition safestrcpy :: "byte list \<Rightarrow> byte list \<Rightarrow> int \<Rightarrow> byte list" where
  "safestrcpy s t n = (if n \<le> 0 then s else blit 0 (safestrcpy_bytes t (nat n - 1)) s)"

fun strlen :: "byte list \<Rightarrow> nat" where
  "strlen [] = 0"
| "strlen (c # s) = (if c = 0 then 0 else Suc (strlen s))"

fun strcpy_bytes :: "byte list \<Rightarrow> byte list" where
  "strcpy_bytes [] = [0]"
| "strcpy_bytes (c # t) = (if c = 0 then [0] else c # strcpy_bytes t)"

definition strcpy :: "byte list \<Rightarrow> byte list \<Rightarrow> byte list" where
  "strcpy s t = blit 0 (strcpy_bytes t) s"

fun strcmp :: "byte list \<Rightarrow> byte list \<Rightarrow> int" where
  "strcmp [] q = - uint (chr q)"
| "strcmp (c # p) q =
     (if c \<noteq> 0 \<and> c = chr q then strcmp p (tl q) else uint c - uint (chr q))"

text \<open>\<open>strchr\<close> returns the index of the occurrence instead of a pointer to it.\<close>

fun strchr :: "byte list \<Rightarrow> byte \<Rightarrow> nat option" where
  "strchr [] c = None"
| "strchr (b # s) c = (if b = 0 then None else if b = c then Some 0 else map_option Suc (strchr s c))"

text \<open>\<open>atoi\<close>: \<open>int\<close> arithmetic on 32 bits.\<close>

fun atoi_loop :: "byte list \<Rightarrow> uint \<Rightarrow> uint" where
  "atoi_loop [] n = n"
| "atoi_loop (c # s) n = (if 48 \<le> c \<and> c \<le> 57 then atoi_loop s (n * 10 + ucast c - 48) else n)"

definition atoi :: "byte list \<Rightarrow> int" where
  "atoi s = sint (atoi_loop s 0)"

section \<open>What the memory routines do\<close>

lemma unat_pred: "(y::uint) \<noteq> 0 \<Longrightarrow> unat (y - 1) = unat y - 1"
  by (simp add: unat_minus_one)

lemma unat_max32: "unat (- 1 :: uint) = 2 ^ 32 - 1"
  by (simp add: unsigned_minus_1_eq_mask mask_eq_exp_minus_1)

lemma stosb_apply:
  "n \<le> 2 ^ 32 \<Longrightarrow> stosb a v n m x = (if unat (x - a) < n then v else m x)"
proof (induction n arbitrary: a m)
  case 0
  then show ?case by simp
next
  case (Suc n)
  then have n: "n < 2 ^ 32" by simp
  have IH: "stosb (a + 1) v n (m(a := v)) x
      = (if unat (x - (a + 1)) < n then v else (m(a := v)) x)"
    using Suc n by simp
  show ?case
  proof (cases "x = a")
    case True
    then show ?thesis using IH n by (simp add: unat_max32)
  next
    case False
    then have "unat (x - (a + 1)) = unat (x - a) - 1" "0 < unat (x - a)"
      using unat_pred[of "x - a"] by (simp_all add: diff_diff_eq[symmetric] unat_gt_0)
    then show ?thesis using IH False by auto
  qed
qed

lemma copy_fwd_apply:
  assumes "unat d + n \<le> 2 ^ 32" "unat s + n \<le> 2 ^ 32" "unat d \<le> unat s \<or> unat s + n \<le> unat d"
  shows "copy_fwd n d s m x = (if unat (x - d) < n then m (s + (x - d)) else m x)"
  using assms
proof (induction n arbitrary: d s m)
  case 0
  then show ?case by simp
next
  case (Suc n)
  show ?case
  proof (cases n)
    case 0
    have "unat (x - d) < 1 \<longleftrightarrow> x = d" by (auto simp: unat_eq_0)
    then show ?thesis using 0 by auto
  next
    case (Suc k)
    have d1: "unat (d + 1) = unat d + 1" and s1: "unat (s + 1) = unat s + 1"
      using Suc.prems Suc by (simp_all add: unat_plus_if')
    have IH: "copy_fwd n (d + 1) (s + 1) (m(d := m s)) x
        = (if unat (x - (d + 1)) < n then (m(d := m s)) (s + 1 + (x - (d + 1))) else (m(d := m s)) x)"
      using Suc.prems by (intro Suc.IH) (simp_all add: d1 s1, linarith)
    have e: "s + 1 + (x - (d + 1)) = s + (x - d)" by simp
    show ?thesis
    proof (cases "x = d")
      case True
      then show ?thesis using IH Suc.prems by (simp add: unat_max32)
    next
      case False
      then have u: "unat (x - (d + 1)) = unat (x - d) - 1" "0 < unat (x - d)"
        using unat_pred[of "x - d"] by (simp_all add: diff_diff_eq[symmetric] unat_gt_0)
      have "s + (x - d) \<noteq> d" if "unat (x - d) < Suc n"
      proof
        assume eq: "s + (x - d) = d"
        have "unat (s + (x - d)) = unat s + unat (x - d)"
          using that Suc.prems by (simp add: unat_plus_if')
        then have "unat d = unat s + unat (x - d)" by (simp only: eq)
        then show False using that u(2) Suc.prems by linarith
      qed
      then show ?thesis using IH e u False by auto
    qed
  qed
qed

lemma copy_bwd_apply:
  assumes "unat d + n \<le> 2 ^ 32" "unat s + n \<le> 2 ^ 32" "unat s \<le> unat d"
  shows "copy_bwd n (d + of_nat n) (s + of_nat n) m x
    = (if unat (x - d) < n then m (s + (x - d)) else m x)"
  using assms
proof (induction n arbitrary: m)
  case 0
  then show ?case by simp
next
  case (Suc n)
  let ?m = "m(d + of_nat n := m (s + of_nat n))"
  have n32: "unat (of_nat n :: uint) = n" using Suc.prems by (simp add: unsigned_of_nat take_bit_nat_eq_self)
  have IH: "copy_bwd n (d + of_nat n) (s + of_nat n) ?m x
      = (if unat (x - d) < n then ?m (s + (x - d)) else ?m x)"
    using Suc.prems by (intro Suc.IH) simp_all
  have step: "copy_bwd (Suc n) (d + of_nat (Suc n)) (s + of_nat (Suc n)) m x
      = copy_bwd n (d + of_nat n) (s + of_nat n) ?m x"
    by (simp add: Let_def algebra_simps)
  have x_eq: "x = d + of_nat n \<longleftrightarrow> unat (x - d) = n"
  proof
    assume "x = d + of_nat n" then show "unat (x - d) = n" using n32 by simp
  next
    assume "unat (x - d) = n"
    then have "x - d = of_nat n" by auto
    then show "x = d + of_nat n" by (simp add: algebra_simps)
  qed
  have src: "s + (x - d) \<noteq> d + of_nat n" if "unat (x - d) < n"
  proof
    assume eq: "s + (x - d) = d + of_nat n"
    have 1: "unat (s + (x - d)) = unat s + unat (x - d)"
      using that Suc.prems by (simp add: unat_plus_if')
    have "unat (d + of_nat n) = unat d + n"
      using Suc.prems n32 by (simp add: unat_plus_if')
    then show False using 1 that Suc.prems by (simp only: eq)
  qed
  show ?case
  proof (cases "unat (x - d) = n")
    case True
    then have "x - d = of_nat n" by auto
    then show ?thesis unfolding step IH using True x_eq by simp
  next
    case False
    then show ?thesis unfolding step IH using x_eq src by (auto simp: less_Suc_eq)
  qed
qed

lemma memmove_apply:
  assumes "unat dst + unat n \<le> 2 ^ 32" and "unat src + unat n < 2 ^ 32"
  shows "memmove dst src n m x = (if x - dst < n then m (src + (x - dst)) else m x)"
proof -
  have lt: "x - dst < n \<longleftrightarrow> unat (x - dst) < unat n" by (simp add: word_less_nat_alt)
  have sn: "unat (src + n) = unat src + unat n" using assms by (simp add: unat_plus_if')
  show ?thesis
  proof (cases "src < dst \<and> src + n > dst")
    case True
    then have "unat src \<le> unat dst" by (simp add: word_less_nat_alt)
    from copy_bwd_apply[of dst "unat n" src m x] assms this show ?thesis
      using True by (simp add: memmove_def lt)
  next
    case False
    then have "unat dst \<le> unat src \<or> unat src + unat n \<le> unat dst"
      using sn by (auto simp: word_less_nat_alt)
    from copy_fwd_apply[of dst "unat n" src m x] assms this show ?thesis
      using False by (auto simp: memmove_def lt)
  qed
qed

text \<open>
  C30.  \<open>memmove\<close> copies correctly whether or not the ranges overlap: afterwards
  the destination holds the bytes the source held before, and nothing else has
  changed.
\<close>

theorem memmove_correct:
  assumes "unat dst + unat n \<le> 2 ^ 32" and "unat src + unat n < 2 ^ 32"
  shows "memmove dst src n m x = (if x - dst < n then m (src + (x - dst)) else m x)"
  using assms by (rule memmove_apply)

theorem memmove_correct_witness:
  "memmove 102 100 4 (\<lambda>a. ucast a) 103 = 101 \<and> memmove 102 100 4 (\<lambda>a. ucast a) 106 = 106"
  using memmove_correct[of 102 4 100 "\<lambda>a. ucast a" 103] memmove_correct[of 102 4 100 "\<lambda>a. ucast a" 106]
  by simp


section \<open>Words in memory\<close>

lemma load32_store32_same [simp]: "load32 a (store32 a v m) = v"
proof -
  have "load32 a (store32 a v m) = un32 (le32 v)"
    by (simp add: load32_def store32_def le32_def)
  then show ?thesis by simp
qed

text \<open>Aligned words do not overlap.\<close>

lemma aligned_diff:
  fixes a b :: uint
  assumes "a mod 4 = 0" "b mod 4 = 0" "a \<noteq> b" "i < 4" "j < 4"
  shows "a + i \<noteq> b + j"
proof
  assume eq: "a + i = b + j"
  have am: "unat a mod 4 = 0" "unat b mod 4 = 0"
    using unat_mod[of a 4] unat_mod[of b 4] assms(1,2) by simp_all
  have ij: "unat i < 4" "unat j < 4" using assms(4,5) by (simp_all add: word_less_nat_alt)
  have "(unat a + unat i) mod 2 ^ 32 = (unat b + unat j) mod 2 ^ 32"
    using unat_word_ariths(1)[of a i] unat_word_ariths(1)[of b j] eq by simp
  moreover have "x + y < 2 ^ 32" if "x mod 4 = 0" "x < 2 ^ 32" "y < 4" for x y :: nat
    using that by simp presburger
  then have "unat a + unat i < 2 ^ 32" "unat b + unat j < 2 ^ 32"
    using am ij unat_lt32[of a] unat_lt32[of b] by simp_all
  ultimately have "unat a + unat i = unat b + unat j" by simp
  then have "unat a = unat b" using am ij by presburger
  then show False using assms(3) by (simp add: word_unat_eq_iff)
qed


lemma store32_apply:
  "store32 a v m x = (if x = a + 3 then ucast (drop_bit 24 v) else if x = a + 2 then ucast (drop_bit 16 v)
     else if x = a + 1 then ucast (drop_bit 8 v) else if x = a then ucast v else m x)"
  by (simp add: store32_def)

lemma load32_store32_other:
  fixes a b :: uint
  assumes "a mod 4 = 0" "b mod 4 = 0" "a \<noteq> b"
  shows "load32 b (store32 a v m) = load32 b m"
proof -
  have "store32 a v m (b + j) = m (b + j)" if "j < 4" for j
    using aligned_diff[OF assms, of 0 j] aligned_diff[OF assms, of 1 j] aligned_diff[OF assms, of 2 j]
      aligned_diff[OF assms, of 3 j] that
    by (auto simp: store32_apply)
  from this[of 0] this[of 1] this[of 2] this[of 3] show ?thesis
    by (simp add: load32_def)
qed

lemma stosl_apply:
  assumes "4 * n \<le> 2 ^ 32" and "\<And>x. P x \<longleftrightarrow> unat (x - a) < 4 * n"
    and "ucast v = b" "ucast (drop_bit 8 v) = b" "ucast (drop_bit 16 v) = b" "ucast (drop_bit 24 v) = b"
  shows "stosl a v n m x = (if P x then b else m x)"
  using assms(1,2)
proof (induction n arbitrary: a m P)
  case 0
  then show ?case by simp
next
  case (Suc n)
  have IH: "stosl (a + 4) v n (store32 a v m) x
      = (if unat (x - (a + 4)) < 4 * n then b else store32 a v m x)"
    using Suc.prems by (intro Suc.IH) simp_all
  have st: "store32 a v m x = (if unat (x - a) < 4 then b else m x)"
  proof -
    have "unat (x - a) < 4 \<longleftrightarrow> x = a \<or> x = a + 1 \<or> x = a + 2 \<or> x = a + 3"
    proof
      assume "unat (x - a) < 4"
      then have "unat (x - a) = 0 \<or> unat (x - a) = 1 \<or> unat (x - a) = 2 \<or> unat (x - a) = 3" by linarith
      then have "x - a = 0 \<or> x - a = 1 \<or> x - a = 2 \<or> x - a = 3"
        by (simp add: word_unat_eq_iff)
      then show "x = a \<or> x = a + 1 \<or> x = a + 2 \<or> x = a + 3" by (auto simp: algebra_simps)
    qed auto
    then show ?thesis using assms(3-) by (auto simp: store32_apply)
  qed
  have "unat (x - (a + 4)) < 4 * n \<longleftrightarrow> 4 \<le> unat (x - a) \<and> unat (x - a) < 4 * Suc n"
  proof -
    have "x - (a + 4) = (x - a) - 4" by simp
    then have e: "unat (x - (a + 4)) = (if 4 \<le> unat (x - a) then unat (x - a) - 4 else unat (x - a) + 2 ^ 32 - 4)"
      by (simp only:) (simp add: unat_sub_if' word_le_nat_alt)
    show ?thesis unfolding e using Suc.prems(1) by auto
  qed
  then show ?case using IH st Suc.prems(2) by auto
qed


definition fill32 :: "uint \<Rightarrow> uint" where
  "fill32 e = push_bit 24 e OR push_bit 16 e OR push_bit 8 e OR e"

lemma fill32_bytes:
  fixes c :: uint
  shows "(ucast (fill32 (c AND 0xFF)) :: byte) = ucast c"
    "(ucast (drop_bit 8 (fill32 (c AND 0xFF))) :: byte) = ucast c"
    "(ucast (drop_bit 16 (fill32 (c AND 0xFF))) :: byte) = ucast c"
    "(ucast (drop_bit 24 (fill32 (c AND 0xFF))) :: byte) = ucast c"
proof -
  have "0xFF = (mask 8 :: uint)" by (simp add: mask_eq_exp_minus_1)
  then have e: "bit (c AND 0xFF) n \<longleftrightarrow> n < 8 \<and> bit c n" for n
    by (simp only: bit_and_iff bit_mask_iff) (auto dest: bit_imp_le_length)
  define e where "e = c AND 0xFF"
  note e = e[folded e_def]
  show "(ucast (fill32 (c AND 0xFF)) :: byte) = ucast c"
    "(ucast (drop_bit 8 (fill32 (c AND 0xFF))) :: byte) = ucast c"
    "(ucast (drop_bit 16 (fill32 (c AND 0xFF))) :: byte) = ucast c"
    "(ucast (drop_bit 24 (fill32 (c AND 0xFF))) :: byte) = ucast c"
    unfolding fill32_def e_def[symmetric] by (rule bit_word_eqI, auto simp: bit_simps e)+
qed

lemma memset_apply: "memset dst c n m x = (if x - dst < n then ucast c else m x)"
proof (cases "dst mod 4 = 0 \<and> n mod 4 = 0")
  case True
  have "unat n mod 4 = 0" using True unat_mod[of n 4] by simp
  then have "unat n = 4 * (unat n div 4)" by presburger
  then have n4: "unat n = 4 * unat (n div 4)" by (simp add: unat_div)
  have "x - dst < n \<longleftrightarrow> unat (x - dst) < 4 * unat (n div 4)" for x
    by (simp add: word_less_nat_alt n4[symmetric])
  moreover have "4 * unat (n div 4) \<le> 2 ^ 32" using n4 unat_lt32[of n] by simp
  ultimately have "stosl dst (fill32 (c AND 0xFF)) (unat (n div 4)) m x
      = (if x - dst < n then ucast c else m x)"
    by (rule stosl_apply[OF _ _ fill32_bytes, rotated])
  then show ?thesis using True by (simp only: memset_def Let_def fill32_def) simp
next
  case False
  then have "memset dst c n m = stosb dst (ucast c) (unat n) m"
    unfolding memset_def by (rule if_not_P)
  then show ?thesis using stosb_apply[of "unat n" dst "ucast c" m x] unat_lt32[of n]
    by (simp add: word_less_nat_alt)
qed

text \<open>
  C31.  \<open>memset\<close> stores the low byte of \<open>c\<close> in the \<open>n\<close> bytes from
  \<open>dst\<close> and nowhere else, on the word-wise path for aligned ranges as on the
  byte-wise one.
\<close>

theorem memset_correct: "memset dst c n m x = (if x - dst < n then ucast c else m x)"
  by (rule memset_apply)

section \<open>What the string routines do\<close>

text \<open>The C string an array holds: the bytes before the first NUL.\<close>

definition cstr :: "byte list \<Rightarrow> byte list" where
  "cstr p = takeWhile (\<lambda>c. c \<noteq> 0) p"

lemma cstr_simps [simp]:
  "cstr [] = []" "cstr (c # p) = (if c = 0 then [] else c # cstr p)"
  by (simp_all add: cstr_def)

lemma cstr_no_nul [simp]: "0 \<notin> set (cstr p)"
  by (auto simp: cstr_def dest: set_takeWhileD)

lemma cstr_id: "0 \<notin> set p \<Longrightarrow> cstr p = p"
  by (induction p) auto

lemma cstr_append_nul: "0 \<notin> set xs \<Longrightarrow> cstr (xs @ 0 # ys) = xs"
  by (induction xs) auto

lemma strlen_cstr: "strlen p = length (cstr p)"
  by (induction p) auto

lemma chr_simps [simp]: "chr [] = 0" "chr (c # p) = c"
  by (simp_all add: chr_def)

lemma chr_unfold: "chr p \<noteq> 0 \<Longrightarrow> cstr p = chr p # cstr (tl p)" "chr p = 0 \<Longrightarrow> cstr p = []"
  by (cases p; simp)+

lemma strncmp_eq_0: "strncmp p q n = 0 \<longleftrightarrow> take n (cstr p) = take n (cstr q)"
proof (induction n arbitrary: p q)
  case (Suc n)
  show ?case
    by (cases "chr p = 0"; cases "chr q = 0")
      (auto simp: Suc.IH chr_unfold uint_word_ariths word_uint_eq_iff)
qed simp

lemma strncpy_bytes_eq: "strncpy_bytes t n = take n (cstr t) @ replicate (n - length (cstr t)) 0"
  by (induction n arbitrary: t) (auto simp: chr_unfold)

lemma length_strncpy_bytes [simp]: "length (strncpy_bytes t n) = n"
  by (induction n arbitrary: t) auto

lemma cstr_strncpy_bytes: "cstr (strncpy_bytes t n) = take n (cstr t)"
  by (induction n arbitrary: t) (auto simp: chr_unfold cstr_id)

lemma length_safestrcpy_bytes: "length (safestrcpy_bytes t n) \<le> Suc n"
  by (induction n arbitrary: t) auto

lemma cstr_safestrcpy_bytes: "cstr (safestrcpy_bytes t n @ ys) = take n (cstr t)"
  by (induction n arbitrary: t) (auto simp: chr_unfold)

lemma strcmp_eq_0: "strcmp p q = 0 \<longleftrightarrow> cstr p = cstr q"
proof (induction p q rule: strcmp.induct)
  case (1 q)
  then show ?case by (cases "chr q = 0") (auto simp: chr_unfold word_uint_eq_iff)
next
  case (2 c p q)
  then show ?case by (cases "chr q = 0") (auto simp: chr_unfold word_uint_eq_iff)
qed

lemma strchr_Some: "strchr s c = Some i \<Longrightarrow> i < length (cstr s) \<and> s ! i = c \<and> c \<notin> set (take i s)"
  by (induction s arbitrary: i) (auto split: if_splits)

lemma strchr_None: "strchr s c = None \<longleftrightarrow> c \<notin> set (cstr s)"
  by (induction s) auto

text \<open>
  C32.  \<open>safestrcpy\<close> never writes outside the \<open>n\<close> bytes it is given and
  always leaves a NUL-terminated string there: the first \<open>n - 1\<close> characters
  of its source.
\<close>

theorem safestrcpy_correct:
  assumes "0 < n" and "nat n \<le> length s"
  shows "length (safestrcpy s t n) = length s \<and>
    cstr (safestrcpy s t n) = take (nat n - 1) (cstr t) \<and>
    drop (nat n) (safestrcpy s t n) = drop (nat n) s"
proof -
  let ?b = "safestrcpy_bytes t (nat n - 1)"
  have lb: "length ?b \<le> nat n" using length_safestrcpy_bytes[of t "nat n - 1"] assms by simp
  have "cstr (safestrcpy s t n) = take (nat n - 1) (cstr t)"
    using assms by (simp add: safestrcpy_def blit_def cstr_safestrcpy_bytes)
  moreover have "drop (nat n) (safestrcpy s t n) = drop (nat n) s"
    using lb assms by (simp add: safestrcpy_def blit_def)
  ultimately show ?thesis using lb assms by (simp add: safestrcpy_def)
qed

theorem safestrcpy_correct_witness:
  "cstr (safestrcpy (replicate 16 0xAA) [0x73, 0x68] 16) = [0x73, 0x68] \<and>
   length (safestrcpy (replicate 16 0xAA) [0x73, 0x68] 16) = 16"
  using safestrcpy_correct[of 16 "replicate 16 0xAA" "[0x73, 0x68]"] by simp

end
