(* ===== verification/Mmu.thy ===== *)
theory Mmu
  imports Prelude
begin

text \<open>
  Address arithmetic: the macros of \<open>kernel/mmu.h\<close> and
  \<open>kernel/memlayout.h\<close>, on 32-bit words.
\<close>

definition PGSIZE :: uint where "PGSIZE = 4096"
definition EXTMEM :: uint where "EXTMEM = 0x100000"
definition PHYSTOP :: uint where "PHYSTOP = 0xE000000"
definition DEVSPACE :: uint where "DEVSPACE = 0xFE000000"
definition KERNBASE :: uint where "KERNBASE = 0x80000000"
definition KERNLINK :: uint where "KERNLINK = KERNBASE + EXTMEM"

definition V2P :: "uint \<Rightarrow> uint" where "V2P a = a - KERNBASE"
definition P2V :: "uint \<Rightarrow> uint" where "P2V a = a + KERNBASE"

definition PDX :: "uint \<Rightarrow> uint" where "PDX va = drop_bit 22 va AND 0x3FF"
definition PTX :: "uint \<Rightarrow> uint" where "PTX va = drop_bit 12 va AND 0x3FF"
definition PGADDR :: "uint \<Rightarrow> uint \<Rightarrow> uint \<Rightarrow> uint" where
  "PGADDR d t off = push_bit 22 d OR push_bit 12 t OR off"

definition PGROUNDUP :: "uint \<Rightarrow> uint" where
  "PGROUNDUP sz = (sz + PGSIZE - 1) AND NOT (PGSIZE - 1)"
definition PGROUNDDOWN :: "uint \<Rightarrow> uint" where
  "PGROUNDDOWN a = a AND NOT (PGSIZE - 1)"

definition PTE_P :: uint where "PTE_P = 0x001"
definition PTE_W :: uint where "PTE_W = 0x002"
definition PTE_U :: uint where "PTE_U = 0x004"
definition PTE_D :: uint where "PTE_D = 0x040"
definition PTE_PS :: uint where "PTE_PS = 0x080"
definition PTE_ADDR :: "uint \<Rightarrow> uint" where "PTE_ADDR pte = pte AND NOT 0xFFF"
definition PTE_FLAGS :: "uint \<Rightarrow> uint" where "PTE_FLAGS pte = pte AND 0xFFF"

lemmas layout_defs = PGSIZE_def EXTMEM_def PHYSTOP_def DEVSPACE_def KERNBASE_def KERNLINK_def

lemma V2P_P2V [simp]: "V2P (P2V a) = a"
  by (simp add: V2P_def P2V_def)

lemma P2V_V2P [simp]: "P2V (V2P a) = a"
  by (simp add: V2P_def P2V_def)

section \<open>Rounding\<close>

lemma mask12: "(0xFFF :: uint) = mask 12" "PGSIZE - 1 = mask 12"
  by (simp_all add: mask_eq_exp_minus_1 PGSIZE_def)

lemma mask10: "(0x3FF :: uint) = mask 10"
  by (simp add: mask_eq_exp_minus_1)

lemma and_not_mask12: "(a :: uint) AND NOT (mask 12) = a div 4096 * 4096"
proof -
  have "a AND NOT (mask 12) = push_bit 12 (drop_bit 12 a)"
    by (rule bit_word_eqI) (auto simp: bit_simps)
  then show ?thesis by (simp add: drop_bit_eq_div push_bit_eq_mult)
qed

lemma and_mask12: "(a :: uint) AND mask 12 = a mod 4096"
  by (simp add: take_bit_eq_mask[symmetric] take_bit_eq_mod)

lemma unat_mult_4096: "unat ((a :: uint) div 4096 * 4096) = unat a div 4096 * 4096"
proof -
  have "unat a div 4096 * 4096 < 2 ^ 32"
    using unat_lt32[of a] by (simp add: less_mult_imp_div_less)
  then show ?thesis by (simp add: unat_word_ariths unat_div)
qed

lemma unat_PGROUNDDOWN: "unat (PGROUNDDOWN a) = unat a div 4096 * 4096"
  by (simp add: PGROUNDDOWN_def mask12 and_not_mask12 unat_mult_4096)

lemma unat_PGROUNDUP:
  assumes "unat a + 4095 < 2 ^ 32"
  shows "unat (PGROUNDUP a) = (unat a + 4095) div 4096 * 4096"
proof -
  have e: "a + PGSIZE - 1 = a + 4095" by (simp add: PGSIZE_def)
  have u: "unat (a + 4095) = unat a + 4095" using assms by (subst unat_plus_if') simp
  show ?thesis
    unfolding PGROUNDUP_def mask12(2) e and_not_mask12 unat_mult_4096 u ..
qed

lemma PGROUNDDOWN_mod [simp]: "PGROUNDDOWN a mod 4096 = 0"
proof -
  have "unat (PGROUNDDOWN a mod 4096) = 0" by (simp add: unat_mod unat_PGROUNDDOWN)
  then show ?thesis by (simp add: unat_eq_0)
qed

lemma PGROUNDDOWN_id: "a mod 4096 = 0 \<Longrightarrow> PGROUNDDOWN a = a"
  using div_mult_mod_eq[of "unat a" 4096] unat_mod[of a 4096]
  by (simp add: word_unat_eq_iff unat_PGROUNDDOWN)

section \<open>Page directory and page table indices\<close>

lemma bit_PDX: "bit (PDX va) n \<longleftrightarrow> n < 10 \<and> bit va (n + 22)"
  unfolding PDX_def mask10 by (auto simp: bit_simps add.commute dest: bit_imp_le_length)

lemma bit_PTX: "bit (PTX va) n \<longleftrightarrow> n < 10 \<and> bit va (n + 12)"
  unfolding PTX_def mask10 by (auto simp: bit_simps add.commute dest: bit_imp_le_length)

lemma PDX_less: "unat (PDX va) < 1024"
proof -
  have "PDX va \<le> 0x3FF" unfolding PDX_def by (rule word_and_le1)
  then show ?thesis by (simp add: word_le_nat_alt)
qed

lemma PTX_less: "unat (PTX va) < 1024"
proof -
  have "PTX va \<le> 0x3FF" unfolding PTX_def by (rule word_and_le1)
  then show ?thesis by (simp add: word_le_nat_alt)
qed

lemma PGADDR_split: "PGADDR (PDX va) (PTX va) (va AND 0xFFF) = va"
proof (rule bit_word_eqI)
  fix n assume "n < LENGTH(32)"
  then consider "n < 12" | "12 \<le> n" "n < 22" | "22 \<le> n" "n < 32" by fastforce
  then show "bit (PGADDR (PDX va) (PTX va) (va AND 0xFFF)) n \<longleftrightarrow> bit va n"
    unfolding PGADDR_def mask12 by cases (auto simp: bit_simps bit_PDX bit_PTX)
qed

lemma page_index_inj:
  assumes "a mod 4096 = 0" "b mod 4096 = 0" "PDX a = PDX b" "PTX a = PTX b"
  shows "a = b"
proof -
  have "x AND 0xFFF = 0" if "x mod 4096 = 0" for x :: uint
    using that unfolding mask12 by (simp add: and_mask12)
  then show ?thesis using PGADDR_split[of a] PGADDR_split[of b] assms by metis
qed

lemma PTE_ADDR_or_flags:
  assumes "pa mod 4096 = 0" and "unat f < 4096"
  shows "PTE_ADDR (pa OR f) = pa" and "PTE_FLAGS (pa OR f) = f"
proof -
  have f: "f AND mask 12 = f"
    using assms(2) by (simp add: and_mask12 word_unat_eq_iff unat_mod)
  have "pa AND mask 12 = 0" using assms(1) by (simp add: and_mask12)
  then have z: "\<not> bit (pa AND mask 12) n" for n by simp
  have pa: "12 \<le> n" if "bit pa n" for n
    using z[of n] that bit_imp_le_length[OF that] by (auto simp: bit_and_iff bit_mask_iff not_le)
  have "bit (f AND mask 12) n \<Longrightarrow> n < 12" for n by (simp add: bit_and_iff bit_mask_iff)
  then have fb: "n < 12" if "bit f n" for n using that by (simp only: f)
  have "bit (PTE_ADDR (pa OR f)) n \<longleftrightarrow> bit pa n" if "n < LENGTH(32)" for n
    unfolding PTE_ADDR_def mask12 using that pa[of n] fb[of n]
    by (cases "bit pa n"; cases "bit f n") (simp_all add: bit_simps)
  then show "PTE_ADDR (pa OR f) = pa" by (rule bit_word_eqI)
  have "bit (PTE_FLAGS (pa OR f)) n \<longleftrightarrow> bit f n" if "n < LENGTH(32)" for n
    unfolding PTE_FLAGS_def mask12 using that pa[of n] fb[of n]
    by (cases "bit pa n"; cases "bit f n") (simp_all add: bit_simps)
  then show "PTE_FLAGS (pa OR f) = f" by (rule bit_word_eqI)
qed

end
