(* ===== verification/Kalloc.thy ===== *)
theory Kalloc
  imports Spinlock Cstring Mmu
begin

text \<open>
  The physical page allocator: \<open>kernel/kalloc.c\<close>.

  The free list is threaded through the free pages themselves: the first word of
  a free page is the address of the next one.  The model keeps it that way, in
  byte-addressed kernel memory.  \<open>kend\<close> is the linker's symbol \<open>end\<close>,
  the first address after the kernel image.
\<close>

section \<open>State and operations\<close>

record kmem = mach +
  mem :: memory
  kend :: uint
  use_lock :: bool
  freelist :: uint

definition kfree :: "uint \<Rightarrow> ('x) kmem_scheme \<Rightarrow> (('x) kmem_scheme, unit) outcome" where
  "kfree v s =
     (if v mod PGSIZE \<noteq> 0 \<or> v < kend s \<or> V2P v \<ge> PHYSTOP then Panic ''kfree''
      else
        let s = s\<lparr>mem := memset v 1 PGSIZE (mem s)\<rparr> in
        bnd (if use_lock s then acquire L_kmem s else Ret () s) (\<lambda>_ s.
        let s = s\<lparr>mem := store32 v (freelist s) (mem s)\<rparr>;
            s = s\<lparr>freelist := v\<rparr> in
        if use_lock s then release L_kmem s else Ret () s))"

definition kalloc :: "('x) kmem_scheme \<Rightarrow> (('x) kmem_scheme, uint) outcome" where
  "kalloc s =
     bnd (if use_lock s then acquire L_kmem s else Ret () s) (\<lambda>_ s.
     let r = freelist s;
         s = (if r \<noteq> 0 then s\<lparr>freelist := load32 r (mem s)\<rparr> else s) in
     bnd (if use_lock s then release L_kmem s else Ret () s) (\<lambda>_ s.
     Ret r s))"

text \<open>The loop of \<open>freerange\<close> stops: \<open>kfree\<close> panics before the address wraps.\<close>

lemma kfree_Ret_bounds:
  assumes "kfree v s = Ret u t"
  shows "unat v < unat (v + PGSIZE)"
proof -
  from assms have "V2P v < PHYSTOP"
    by (auto simp: kfree_def not_le split: if_splits)
  then have "unat (v - 0x80000000) < 0xE000000"
    by (simp add: V2P_def layout_defs word_less_nat_alt)
  then have "unat v < 0x8E000000"
    using unat_sub_if'[of v "0x80000000"] by (auto split: if_splits simp: word_le_nat_alt)
  then show ?thesis by (simp add: PGSIZE_def unat_plus_if')
qed

function freerange_loop :: "uint \<Rightarrow> uint \<Rightarrow> ('x) kmem_scheme \<Rightarrow> (('x) kmem_scheme, unit) outcome" where
  "freerange_loop p vend s =
     (if p + PGSIZE \<le> vend
      then bnd (kfree p s) (\<lambda>_ s. freerange_loop (p + PGSIZE) vend s)
      else Ret () s)"
  by pat_completeness auto
termination
  by (relation "measure (\<lambda>(p, vend, s). 2 ^ 32 - unat p)")
    (auto dest: kfree_Ret_bounds intro!: diff_less_mono2 intro: unat_lt32 less_le_trans[OF unat_lt32])

declare freerange_loop.simps [simp del]

definition freerange :: "uint \<Rightarrow> uint \<Rightarrow> ('x) kmem_scheme \<Rightarrow> (('x) kmem_scheme, unit) outcome" where
  "freerange vstart vend s = freerange_loop (PGROUNDUP vstart) vend s"

definition kinit1 :: "uint \<Rightarrow> uint \<Rightarrow> ('x) kmem_scheme \<Rightarrow> (('x) kmem_scheme, unit) outcome" where
  "kinit1 vstart vend s =
     (let s = initlock L_kmem ''kmem'' s; s = s\<lparr>use_lock := False\<rparr> in
      freerange vstart vend s)"

definition kinit2 :: "uint \<Rightarrow> uint \<Rightarrow> ('x) kmem_scheme \<Rightarrow> (('x) kmem_scheme, unit) outcome" where
  "kinit2 vstart vend s =
     bnd (freerange vstart vend s) (\<lambda>_ s. Ret () (s\<lparr>use_lock := True\<rparr>))"

lemma cli_ok_locks [simp]: "cli_ok (s\<lparr>locks := l\<rparr>) = cli_ok s"
  by (simp add: cli_ok_def readeflags_IF_def)

lemma mach_kmem_upd [simp]:
  "this_cpu (s\<lparr>mem := a\<rparr>) = this_cpu s" "this_cpu (s\<lparr>use_lock := b\<rparr>) = this_cpu s"
  "this_cpu (s\<lparr>freelist := f\<rparr>) = this_cpu s"
  "cli_ok (s\<lparr>mem := a\<rparr>) = cli_ok s" "cli_ok (s\<lparr>use_lock := b\<rparr>) = cli_ok s"
  "cli_ok (s\<lparr>freelist := f\<rparr>) = cli_ok s"
  "lk_free l (s\<lparr>mem := a\<rparr>) = lk_free l s" "lk_free l (s\<lparr>use_lock := b\<rparr>) = lk_free l s"
  "lk_free l (s\<lparr>freelist := f\<rparr>) = lk_free l s"
  by (simp_all add: this_cpu_def cli_ok_def readeflags_IF_def lk_free_def)

section \<open>The free list\<close>

fun chain :: "memory \<Rightarrow> uint \<Rightarrow> uint list \<Rightarrow> bool" where
  "chain m h [] \<longleftrightarrow> h = 0"
| "chain m h (x # xs) \<longleftrightarrow> h = x \<and> x \<noteq> 0 \<and> chain m (load32 x m) xs"

definition page_ok :: "('x) kmem_scheme \<Rightarrow> uint \<Rightarrow> bool" where
  "page_ok s v \<longleftrightarrow> v mod PGSIZE = 0 \<and> kend s \<le> v \<and> V2P v < PHYSTOP"

definition free_pages :: "('x) kmem_scheme \<Rightarrow> uint list \<Rightarrow> bool" where
  "free_pages s xs \<longleftrightarrow> chain (mem s) (freelist s) xs \<and> distinct xs \<and> (\<forall>x\<in>set xs. page_ok s x)"

definition in_page :: "uint \<Rightarrow> uint \<Rightarrow> bool" where
  "in_page v a \<longleftrightarrow> a - v < PGSIZE"

text \<open>The allocator may be entered: its lock is free, or not in use yet.\<close>

definition kmem_ready :: "('x) kmem_scheme \<Rightarrow> bool" where
  "kmem_ready s \<longleftrightarrow> (use_lock s \<longrightarrow> cli_ok s \<and> lk_free L_kmem s)"

lemma kalloc_eq:
  assumes "kmem_ready s"
  shows "kalloc s = Ret (freelist s)
    (if freelist s \<noteq> 0 then s\<lparr>freelist := load32 (freelist s) (mem s)\<rparr> else s)"
proof (cases "use_lock s")
  case False
  then show ?thesis by (simp add: kalloc_def Let_def)
next
  case True
  then have ok: "cli_ok s" "lk_free L_kmem s" using assms by (simp_all add: kmem_ready_def)
  show ?thesis
    using True by (simp add: kalloc_def acquire_acq[OF ok] Let_def release_acq[OF ok] acq_def)
qed


lemma kfree_eq:
  assumes "kmem_ready s" and "page_ok s v"
  shows "kfree v s = Ret () (s\<lparr>mem := store32 v (freelist s) (memset v 1 PGSIZE (mem s)), freelist := v\<rparr>)"
proof -
  define t where "t = s\<lparr>mem := memset v 1 PGSIZE (mem s)\<rparr>"
  have guard: "\<not> (v mod PGSIZE \<noteq> 0 \<or> v < kend s \<or> PHYSTOP \<le> V2P v)"
    using assms(2) by (auto simp: page_ok_def not_less not_le)
  show ?thesis
  proof (cases "use_lock s")
    case False
    then show ?thesis using guard by (simp add: kfree_def Let_def)
  next
    case True
    have ok: "cli_ok t" "lk_free L_kmem t"
      using assms(1) True by (simp_all add: kmem_ready_def t_def)
    show ?thesis
      using True guard
      by (simp add: kfree_def t_def[symmetric] acquire_acq[OF ok] Let_def release_acq[OF ok])
        (simp add: t_def acq_def)
  qed
qed

lemma kfree_not_ok: "\<not> page_ok s v \<Longrightarrow> kfree v s = Panic ''kfree''"
  by (auto simp: kfree_def page_ok_def not_less not_le)

section \<open>Pages do not overlap\<close>

declare mod_0_imp_dvd [rule del]

lemma page_aligned:
  assumes "(v :: uint) mod PGSIZE = 0"
  obtains k where "unat v = 4096 * k" and "k < 1048576"
proof
  show "unat v = 4096 * (unat v div 4096)"
    using assms unat_mod[of v 4096] div_mult_mod_eq[of "unat v" 4096] by (simp add: PGSIZE_def)
  show "unat v div 4096 < 1048576"
    using unat_lt32[of v] by simp
qed

lemma in_page_iff:
  assumes "v mod PGSIZE = 0"
  shows "in_page v a \<longleftrightarrow> unat a div 4096 = unat v div 4096"
proof -
  obtain k where k: "unat v = 4096 * k" "k < 1048576" using page_aligned[OF assms] .
  have "in_page v a \<longleftrightarrow> unat (a - v) < 4096"
    by (simp add: in_page_def word_less_nat_alt PGSIZE_def)
  also have "\<dots> \<longleftrightarrow> 4096 * k \<le> unat a \<and> unat a < 4096 * k + 4096"
    using unat_sub_if'[of a v] unat_lt32[of a] k by (auto simp: word_le_nat_alt)
  also have "\<dots> \<longleftrightarrow> unat a div 4096 = k" by auto
  finally show ?thesis using k by simp
qed

lemma in_page_unique:
  assumes "v mod PGSIZE = 0" "w mod PGSIZE = 0" "in_page v a" "in_page w a"
  shows "v = w"
proof -
  obtain k where k: "unat v = 4096 * k" using page_aligned[OF assms(1)] .
  obtain l where l: "unat w = 4096 * l" using page_aligned[OF assms(2)] .
  have "k = l" using assms k l by (simp add: in_page_iff)
  then show ?thesis using k l by (simp add: word_unat_eq_iff)
qed

lemma in_page_add: "j < PGSIZE \<Longrightarrow> in_page v (v + j)"
  by (simp add: in_page_def)

lemma load32_cong:
  assumes "\<And>j. j < 4 \<Longrightarrow> m (a + j) = m' (a + j)"
  shows "load32 a m = load32 a m'"
  using assms[of 0] assms[of 1] assms[of 2] assms[of 3] by (simp add: load32_def)

text \<open>What the allocator writes into a page it frees stays inside that page.\<close>

lemma kfree_mem_other:
  assumes "\<not> in_page v a"
  shows "store32 v w (memset v c PGSIZE m) a = m a"
proof -
  have "a \<noteq> v + j" if "j < 4" for j
    using assms that by (auto simp: in_page_def PGSIZE_def word_less_nat_alt)
  from this[of 0] this[of 1] this[of 2] this[of 3] show ?thesis
    using assms by (simp add: store32_apply memset_apply in_page_def)
qed

lemma chain_cong:
  assumes "chain m h xs" and "\<And>x a. x \<in> set xs \<Longrightarrow> in_page x a \<Longrightarrow> m' a = m a"
  shows "chain m' h xs"
  using assms
proof (induction xs arbitrary: h)
  case (Cons x xs)
  have "load32 x m' = load32 x m"
    by (rule load32_cong, rule Cons.prems(2)[of x])
      (auto simp: in_page_def PGSIZE_def word_less_nat_alt)
  with Cons show ?case by auto
qed simp

lemma chain_inj: "chain m h xs \<Longrightarrow> chain m h ys \<Longrightarrow> xs = ys"
proof (induction xs arbitrary: h ys)
  case Nil
  then show ?case by (cases ys) auto
next
  case (Cons x xs)
  then show ?case by (cases ys) auto
qed


lemma page_ok_nz: "page_ok s v \<Longrightarrow> v \<noteq> 0"
  by (auto simp: page_ok_def V2P_def layout_defs)

lemma free_pages_kalloc:
  "free_pages s (p # ps) \<Longrightarrow> free_pages (s\<lparr>freelist := load32 (freelist s) (mem s)\<rparr>) ps"
  by (auto simp: free_pages_def page_ok_def)

lemma free_pages_mem:
  assumes "free_pages s ps" "\<And>p a. p \<in> set ps \<Longrightarrow> in_page p a \<Longrightarrow> m a = mem s a"
  shows "free_pages (s\<lparr>mem := m\<rparr>) ps"
  using assms chain_cong[of "mem s" "freelist s" ps m] by (auto simp: free_pages_def page_ok_def)

lemma free_pages_kfree:
  assumes "free_pages s ps" "page_ok s p" "p \<notin> set ps"
  shows "free_pages (s\<lparr>mem := store32 p (freelist s) (memset p 1 PGSIZE (mem s)), freelist := p\<rparr>) (p # ps)"
proof -
  have "\<not> in_page p a" if "q \<in> set ps" "in_page q a" for q a
    using assms that in_page_unique[of p q a] by (auto simp: free_pages_def page_ok_def)
  then have "chain (store32 p (freelist s) (memset p 1 PGSIZE (mem s))) (freelist s) ps"
    using assms(1) by - (rule chain_cong[of "mem s"], auto simp: free_pages_def kfree_mem_other)
  then show ?thesis
    using assms page_ok_nz[OF assms(2)] by (simp add: free_pages_def page_ok_def)
qed

section \<open>What a client of the allocator may rely on\<close>

text \<open>
  The interface of a page allocator.  \<open>pool s ps\<close>: in state \<open>s\<close> the
  pages \<open>ps\<close> are free; \<open>usable\<close>: the addresses it may be given;
  \<open>poke\<close>: a client writing one byte.
\<close>

locale page_allocator =
  fixes alloc :: "'s \<Rightarrow> ('s, uint) outcome"
    and dealloc :: "uint \<Rightarrow> 's \<Rightarrow> ('s, unit) outcome"
    and poke :: "uint \<Rightarrow> byte \<Rightarrow> 's \<Rightarrow> 's"
    and peek :: "'s \<Rightarrow> memory"
    and pool :: "'s \<Rightarrow> uint list \<Rightarrow> bool"
    and usable :: "'s \<Rightarrow> uint \<Rightarrow> bool"
  assumes pool_wf: "pool s ps \<Longrightarrow> distinct ps \<and> (\<forall>p\<in>set ps. usable s p)"
    and usable_page: "usable s p \<Longrightarrow> p mod PGSIZE = 0 \<and> p \<noteq> 0"
    and alloc_nil: "pool s [] \<Longrightarrow> alloc s = Ret 0 s"
    and alloc_cons: "pool s (p # ps) \<Longrightarrow>
      \<exists>t. alloc s = Ret p t \<and> pool t ps \<and> peek t = peek s \<and> usable t = usable s"
    and dealloc_law: "pool s ps \<Longrightarrow> usable s p \<Longrightarrow> p \<notin> set ps \<Longrightarrow>
      \<exists>t. dealloc p s = Ret () t \<and> pool t (p # ps) \<and> usable t = usable s \<and>
          (\<forall>a. \<not> in_page p a \<longrightarrow> peek t a = peek s a)"
    and poke_law: "pool s ps \<Longrightarrow> \<forall>p\<in>set ps. \<not> in_page p a \<Longrightarrow>
      pool (poke a b s) ps \<and> usable (poke a b s) = usable s"

text \<open>A client: it allocates, frees pages it holds, and writes into pages it holds.\<close>

inductive page_client ::
  "('s \<Rightarrow> ('s, uint) outcome) \<Rightarrow> (uint \<Rightarrow> 's \<Rightarrow> ('s, unit) outcome) \<Rightarrow> (uint \<Rightarrow> byte \<Rightarrow> 's \<Rightarrow> 's) \<Rightarrow>
   's \<Rightarrow> 's \<Rightarrow> uint set \<Rightarrow> bool" for al de po s0 where
  pc_start: "page_client al de po s0 s0 {}"
| pc_alloc: "page_client al de po s0 s L \<Longrightarrow> al s = Ret p t \<Longrightarrow> p \<noteq> 0 \<Longrightarrow>
    page_client al de po s0 t (insert p L)"
| pc_free: "page_client al de po s0 s L \<Longrightarrow> p \<in> L \<Longrightarrow> de p s = Ret u t \<Longrightarrow>
    page_client al de po s0 t (L - {p})"
| pc_poke: "page_client al de po s0 s L \<Longrightarrow> p \<in> L \<Longrightarrow> in_page p a \<Longrightarrow>
    page_client al de po s0 (po a b s) L"

context page_allocator
begin

lemma client_pool:
  assumes "page_client alloc dealloc poke s0 s L" and "pool s0 ps0"
  shows "\<exists>ps. pool s ps \<and> set ps \<inter> L = {} \<and> set ps \<union> L = set ps0 \<and> usable s = usable s0"
  using assms
proof (induction rule: page_client.induct)
  case pc_start
  then show ?case by auto
next
  case (pc_alloc s L p t)
  then obtain ps where ps: "pool s ps" "set ps \<inter> L = {}" "set ps \<union> L = set ps0" "usable s = usable s0"
    by auto
  have "ps \<noteq> []" using pc_alloc.hyps alloc_nil[of s] ps(1) by auto
  then obtain q qs where q: "ps = q # qs" by (cases ps) auto
  with alloc_cons[of s q qs] ps pc_alloc have t: "pool t qs" "q = p" "usable t = usable s" by auto
  have "p \<notin> set qs" using pool_wf[OF ps(1)] q t by simp
  then show ?case using ps q t by (intro exI[of _ qs]) auto
next
  case (pc_free s L p u t)
  then obtain ps where ps: "pool s ps" "set ps \<inter> L = {}" "set ps \<union> L = set ps0" "usable s = usable s0"
    by auto
  have p: "p \<notin> set ps" "usable s p" using ps pc_free pool_wf[OF pc_free.prems] by auto
  then have "pool t (p # ps)" "usable t = usable s" using dealloc_law[OF ps(1) p(2,1)] pc_free by auto
  then show ?case using ps pc_free.hyps by (intro exI[of _ "p # ps"]) auto
next
  case (pc_poke s L p a b)
  then obtain ps where ps: "pool s ps" "set ps \<inter> L = {}" "set ps \<union> L = set ps0" "usable s = usable s0"
    by auto
  have us: "usable s q" if "q \<in> set ps \<union> L" for q
    using ps that pool_wf[OF pc_poke.prems] by auto
  have "\<not> in_page q a" if "q \<in> set ps" for q
    using in_page_unique[of q p a] usable_page us that ps pc_poke.hyps by blast
  then show ?case using ps poke_law[OF ps(1), of a b] by (intro exI[of _ ps]) auto
qed

lemma client_alloc:
  assumes "page_client alloc dealloc poke s0 s L" and "pool s0 ps0"
  shows "\<exists>p t. alloc s = Ret p t \<and> peek t = peek s \<and>
    (if p = 0 then L = set ps0
     else p \<in> set ps0 \<and> p \<notin> L \<and> (\<forall>q\<in>L. \<forall>a. in_page p a \<longrightarrow> \<not> in_page q a))"
proof -
  obtain ps where ps: "pool s ps" "set ps \<inter> L = {}" "set ps \<union> L = set ps0" "usable s = usable s0"
    using client_pool[OF assms] by auto
  show ?thesis
  proof (cases ps)
    case Nil
    then show ?thesis using ps alloc_nil by auto
  next
    case (Cons p qs)
    with alloc_cons[of s p qs] ps obtain t where t: "alloc s = Ret p t" "peek t = peek s" by auto
    have us: "usable s q" if "q \<in> set ps0" for q using that ps pool_wf[OF assms(2)] by auto
    have "p \<noteq> 0" using us ps Cons usable_page by auto
    moreover have "\<not> in_page q a" if "q \<in> L" "in_page p a" for q a
    proof
      assume "in_page q a"
      then have "p = q" using in_page_unique[of p q a] usable_page us that ps Cons by auto
      then show False using that ps Cons by auto
    qed
    ultimately show ?thesis using t ps Cons by auto
  qed
qed

lemma client_free_keeps:
  assumes "page_client alloc dealloc poke s0 s L" and "pool s0 ps0" and "p \<in> L"
  shows "\<exists>t. dealloc p s = Ret () t \<and>
    (\<forall>q\<in>L - {p}. \<forall>a. in_page q a \<longrightarrow> peek t a = peek s a)"
proof -
  obtain ps where ps: "pool s ps" "set ps \<inter> L = {}" "set ps \<union> L = set ps0" "usable s = usable s0"
    using client_pool[OF assms(1,2)] by auto
  have us: "usable s q" if "q \<in> set ps0" for q using that ps pool_wf[OF assms(2)] by auto
  obtain t where t: "dealloc p s = Ret () t" "\<And>a. \<not> in_page p a \<Longrightarrow> peek t a = peek s a"
    using dealloc_law[OF ps(1), of p] us ps assms(3) by auto
  moreover have "\<not> in_page p a" if "q \<in> L - {p}" "in_page q a" for q a
    using in_page_unique[of p q a] usable_page us that ps assms(3) by blast
  ultimately show ?thesis by auto
qed

end

definition poke_mem :: "uint \<Rightarrow> byte \<Rightarrow> ('x) kmem_scheme \<Rightarrow> ('x) kmem_scheme" where
  "poke_mem a b s = s\<lparr>mem := (mem s)(a := b)\<rparr>"

definition kpool :: "('x) kmem_scheme \<Rightarrow> uint list \<Rightarrow> bool" where
  "kpool s ps \<longleftrightarrow> kmem_ready s \<and> free_pages s ps"

lemma kmem_ready_upd [simp]:
  "kmem_ready (s\<lparr>mem := m\<rparr>) = kmem_ready s" "kmem_ready (s\<lparr>freelist := f\<rparr>) = kmem_ready s"
  by (simp_all add: kmem_ready_def)

lemma page_ok_upd [simp]:
  "page_ok (s\<lparr>mem := m\<rparr>) = page_ok s" "page_ok (s\<lparr>freelist := f\<rparr>) = page_ok s"
  by (simp_all add: page_ok_def fun_eq_iff)

interpretation kpages: page_allocator kalloc kfree poke_mem mem kpool page_ok
proof unfold_locales
  fix s :: "('x) kmem_scheme" and ps p a b
  show "kpool s ps \<Longrightarrow> distinct ps \<and> (\<forall>p\<in>set ps. page_ok s p)"
    by (simp add: kpool_def free_pages_def)
  show "page_ok s p \<Longrightarrow> p mod PGSIZE = 0 \<and> p \<noteq> 0"
    using page_ok_nz[of s p] by (simp add: page_ok_def)
  show "kpool s [] \<Longrightarrow> kalloc s = Ret 0 s"
    by (simp add: kpool_def kalloc_eq free_pages_def)
  show "kpool s (p # ps) \<Longrightarrow>
      \<exists>t. kalloc s = Ret p t \<and> kpool t ps \<and> mem t = mem s \<and> page_ok t = page_ok s"
    using free_pages_kalloc[of s p ps] by (auto simp: kpool_def kalloc_eq) (auto simp: free_pages_def)
  show "\<exists>t. kfree p s = Ret () t \<and> kpool t (p # ps) \<and> page_ok t = page_ok s \<and>
      (\<forall>a. \<not> in_page p a \<longrightarrow> mem t a = mem s a)"
    if "kpool s ps" "page_ok s p" "p \<notin> set ps"
    using that free_pages_kfree[of s ps p] by (simp add: kpool_def kfree_eq kfree_mem_other)
  show "kpool (poke_mem a b s) ps \<and> page_ok (poke_mem a b s) = page_ok s"
    if "kpool s ps" "\<forall>p\<in>set ps. \<not> in_page p a"
  proof -
    have "free_pages (s\<lparr>mem := (mem s)(a := b)\<rparr>) ps"
      using that by - (rule free_pages_mem, auto simp: kpool_def)
    then show ?thesis using that by (simp add: kpool_def poke_mem_def)
  qed
qed

text \<open>
  C5.  However the kernel interleaves allocating pages, freeing pages it holds and
  writing into them, the next \<open>kalloc\<close> returns without changing memory, and
  returns either a page of the initial pool that overlaps no page in use, or 0;
  and 0 only when every page of the pool is in use.
\<close>

theorem kalloc_exclusive:
  assumes "page_client kalloc kfree poke_mem s0 s L" and "kpool s0 ps0"
  shows "\<exists>p t. kalloc s = Ret p t \<and> mem t = mem s \<and>
    (if p = 0 then L = set ps0
     else p \<in> set ps0 \<and> p \<notin> L \<and> (\<forall>q\<in>L. \<forall>a. in_page p a \<longrightarrow> \<not> in_page q a))"
  by (rule kpages.client_alloc[OF assms])

text \<open>One processor, one free page at the 4 MB mark.\<close>

definition one_page :: kmem where
  "one_page =
     \<lparr>hw_id = 0, hw_if = (\<lambda>_. False), ncpu = 1,
      cpus = [\<lparr>apicid = 0, ncli = 0, intena = False, cproc = None\<rparr>],
      locks = (\<lambda>_. \<lparr>locked = False, lk_name = [], lk_cpu = None\<rparr>),
      mem = (\<lambda>_. 0), kend = 0x80110000, use_lock = True, freelist = 0x80400000\<rparr>"

lemma kpool_one_page: "kpool one_page [0x80400000]"
  by (simp add: kpool_def free_pages_def kmem_ready_def one_page_def load32_def un32_def page_ok_def
      V2P_def layout_defs cli_ok_def this_cpu_def readeflags_IF_def lk_free_def)

theorem kalloc_exclusive_witness:
  "\<exists>p t. kalloc one_page = Ret p t \<and> mem t = mem one_page \<and> p = 0x80400000"
  using kalloc_exclusive[OF pc_start kpool_one_page] by (auto split: if_splits)

section \<open>Initialisation\<close>

lemma freerange_loop_pages:
  assumes "kpool s ps" "p mod PGSIZE = 0" "kend s \<le> p" "KERNBASE \<le> p" "p \<le> P2V PHYSTOP"
    "vend \<le> P2V PHYSTOP" "\<forall>x\<in>set ps. x < p"
  shows "\<exists>t qs. freerange_loop p vend s = Ret () t \<and> kpool t qs \<and>
    kend t = kend s \<and> use_lock t = use_lock s \<and> locks t = locks s \<and> cli_ok t = cli_ok s \<and>
    set qs = set ps \<union> {v. v mod PGSIZE = 0 \<and> unat p \<le> unat v \<and> unat v + 4096 \<le> unat vend}"
  using assms
proof (induction p vend s arbitrary: ps rule: freerange_loop.induct)
  case (1 p vend s)
  obtain k where k: "unat p = 4096 * k" using page_aligned[OF 1(3)] .
  have b: "unat vend \<le> 0x8E000000" "0x80000000 \<le> unat p" "unat p \<le> 0x8E000000"
    using 1(5,6,7) by (simp_all add: P2V_def layout_defs word_le_nat_alt)
  have next_p: "unat (p + PGSIZE) = unat p + 4096"
    using b by (simp add: unat_plus_if' PGSIZE_def)
  then have cond: "p + PGSIZE \<le> vend \<longleftrightarrow> unat p + 4096 \<le> unat vend"
    by (simp add: word_le_nat_alt)
  show ?case
  proof (cases "p + PGSIZE \<le> vend")
    case False
    then have "freerange_loop p vend s = Ret () s" by (simp add: freerange_loop.simps)
    moreover have "{v. v mod PGSIZE = 0 \<and> unat p \<le> unat v \<and> unat v + 4096 \<le> unat vend} = {}"
      using False cond by auto
    ultimately show ?thesis using 1(2) by (simp only: Un_empty_right) blast
  next
    case True
    have "V2P p < PHYSTOP"
      using True b cond by (simp add: V2P_def layout_defs word_less_nat_alt unat_sub_if' word_le_nat_alt)
    then have ok: "page_ok s p" using 1(3,4) by (simp add: page_ok_def)
    have "p \<notin> set ps" using 1(8) by auto
    define t where "t = s\<lparr>mem := store32 p (freelist s) (memset p 1 PGSIZE (mem s)), freelist := p\<rparr>"
    have t: "kfree p s = Ret () t" "kpool t (p # ps)"
      using 1(2) ok \<open>p \<notin> set ps\<close> free_pages_kfree[of s ps p] by (simp_all add: kpool_def kfree_eq t_def)
    have al: "(p + PGSIZE) mod PGSIZE = 0"
      using k next_p by (simp add: word_unat_eq_iff unat_mod) (simp add: PGSIZE_def)
    have lt: "p < p + PGSIZE" using next_p by (simp add: word_less_nat_alt)
    obtain u qs where u: "freerange_loop (p + PGSIZE) vend t = Ret () u" "kpool u qs"
      "kend u = kend t" "use_lock u = use_lock t" "locks u = locks t" "cli_ok u = cli_ok t"
      "set qs = set (p # ps) \<union> {v. v mod PGSIZE = 0 \<and> unat (p + PGSIZE) \<le> unat v \<and> unat v + 4096 \<le> unat vend}"
      using 1(1)[OF True t(1), of "p # ps"] t(2) al lt 1(4,5,7,8) True by (fastforce simp: t_def)
    have "unat v \<ge> unat p + 4096" if v: "v mod PGSIZE = 0" "unat p \<le> unat v" "v \<noteq> p" for v :: uint
    proof -
      obtain l where "unat v = 4096 * l" using page_aligned[OF v(1)] .
      then show ?thesis using v(2,3) k by (auto simp: word_unat_eq_iff)
    qed
    then have "set qs = set ps \<union> {v. v mod PGSIZE = 0 \<and> unat p \<le> unat v \<and> unat v + 4096 \<le> unat vend}"
      using u(7) next_p 1(3) True cond by auto
    then show ?thesis
      using True t(1) u by (intro exI[of _ u] exI[of _ qs]) (simp add: freerange_loop.simps[of p] t_def)
  qed
qed

lemma page_below:
  assumes "v mod PGSIZE = 0" "e mod PGSIZE = 0"
  shows "unat v + 4096 \<le> unat e \<longleftrightarrow> unat v < unat e"
proof -
  obtain k where "unat v = 4096 * k" using page_aligned[OF assms(1)] .
  moreover obtain l where "unat e = 4096 * l" using page_aligned[OF assms(2)] .
  ultimately show ?thesis by auto
qed

lemma PGROUNDUP_aligned_le:
  assumes "unat a + 4095 < 2 ^ 32" and "v mod PGSIZE = 0"
  shows "unat (PGROUNDUP a) \<le> unat v \<longleftrightarrow> unat a \<le> unat v"
proof -
  obtain k where k: "unat v = 4096 * k" using page_aligned[OF assms(2)] .
  have "unat (PGROUNDUP a) \<le> unat v \<longleftrightarrow> (unat a + 4095) div 4096 < Suc k"
    using unat_PGROUNDUP[OF assms(1)] k by auto
  also have "\<dots> \<longleftrightarrow> unat a \<le> unat v"
    using k by (subst div_less_iff_less_mult) auto
  finally show ?thesis .
qed

lemma kinit1_pages:
  assumes "cli_ok s" "freelist s = 0" "KERNBASE \<le> kend s" "kend s \<le> P2V 0x400000"
  shows "\<exists>t ps. kinit1 (kend s) (P2V 0x400000) s = Ret () t \<and> kpool t ps \<and> kend t = kend s \<and>
    lk_free L_kmem t \<and> cli_ok t \<and>
    set ps = {v. v mod PGSIZE = 0 \<and> unat (kend s) \<le> unat v \<and> unat v < 0x80400000}"
proof -
  define s1 where "s1 = initlock L_kmem ''kmem'' s\<lparr>use_lock := False\<rparr>"
  have e: "unat (kend s) \<le> 0x80400000" "0x80000000 \<le> unat (kend s)"
    using assms(3,4) by (simp_all add: layout_defs P2V_def word_le_nat_alt)
  have r: "unat (PGROUNDUP (kend s)) = (unat (kend s) + 4095) div 4096 * 4096"
    using e by (intro unat_PGROUNDUP) simp
  have al: "PGROUNDUP (kend s) mod PGSIZE = 0"
    using r by (simp add: word_unat_eq_iff unat_mod) (simp add: PGSIZE_def)
  have s1: "kpool s1 []" "kend s1 = kend s" "cli_ok s1" "lk_free L_kmem s1" "\<not> use_lock s1"
    using assms(1,2)
    by (simp_all add: s1_def initlock_def kpool_def kmem_ready_def free_pages_def lk_free_def)
  have c: "kend s1 \<le> PGROUNDUP (kend s)" "KERNBASE \<le> PGROUNDUP (kend s)" "PGROUNDUP (kend s) \<le> P2V PHYSTOP"
    "P2V 0x400000 \<le> P2V PHYSTOP"
    using e r s1(2) by (simp_all add: layout_defs P2V_def word_le_nat_alt)
  obtain t ps where t: "freerange_loop (PGROUNDUP (kend s)) (P2V 0x400000) s1 = Ret () t" "kpool t ps"
    "kend t = kend s1" "locks t = locks s1" "cli_ok t = cli_ok s1"
    "set ps = {v. v mod PGSIZE = 0 \<and> unat (PGROUNDUP (kend s)) \<le> unat v \<and> unat v + 4096 \<le> unat (P2V 0x400000)}"
    using freerange_loop_pages[OF s1(1) al c] by auto
  have "unat v + 4096 \<le> unat (P2V 0x400000) \<longleftrightarrow> unat v < 0x80400000" if "v mod PGSIZE = 0" for v :: uint
    using page_below[OF that, of "P2V 0x400000"] by (simp add: P2V_def layout_defs)
  then have "set ps = {v. v mod PGSIZE = 0 \<and> unat (kend s) \<le> unat v \<and> unat v < 0x80400000}"
    using t(6) e PGROUNDUP_aligned_le[of "kend s"] by auto
  moreover have "kinit1 (kend s) (P2V 0x400000) s = Ret () t"
    using t(1) by (simp add: kinit1_def freerange_def s1_def)
  ultimately show ?thesis using t(2-5) s1 by (auto simp: lk_free_def)
qed

text \<open>
  C28.  The two-phase initialisation of \<open>main\<close>, \<open>kinit1(end, P2V(4 MB))\<close>
  and later \<open>kinit2(P2V(4 MB), P2V(PHYSTOP))\<close>, returns, and leaves on the free
  list every page from the end of the kernel to the top of physical memory,
  each once.
\<close>

theorem kinit_pages:
  assumes "cli_ok s" and "freelist s = 0" and "KERNBASE \<le> kend s" and "kend s \<le> P2V 0x400000"
  shows "\<exists>t u ps. kinit1 (kend s) (P2V 0x400000) s = Ret () t \<and>
    kinit2 (P2V 0x400000) (P2V PHYSTOP) t = Ret () u \<and> kpool u ps \<and> distinct ps \<and> use_lock u \<and>
    set ps = {v. v mod PGSIZE = 0 \<and> kend s \<le> v \<and> v < P2V PHYSTOP}"
proof -
  obtain t ps where t: "kinit1 (kend s) (P2V 0x400000) s = Ret () t" "kpool t ps" "kend t = kend s"
    "lk_free L_kmem t" "cli_ok t"
    "set ps = {v. v mod PGSIZE = 0 \<and> unat (kend s) \<le> unat v \<and> unat v < 0x80400000}"
    using kinit1_pages[OF assms] by auto
  have e: "unat (kend s) \<le> 0x80400000" using assms(4) by (simp add: layout_defs P2V_def word_le_nat_alt)
  have "unat (PGROUNDUP (P2V 0x400000)) = 0x80400000"
    by (subst unat_PGROUNDUP) (simp_all add: P2V_def layout_defs)
  then have r: "PGROUNDUP (P2V 0x400000) = 0x80400000" by (simp add: word_unat_eq_iff)
  obtain u qs where u: "freerange (P2V 0x400000) (P2V PHYSTOP) t = Ret () u" "kpool u qs"
    "locks u = locks t" "cli_ok u = cli_ok t"
    "set qs = set ps \<union> {v. v mod PGSIZE = 0 \<and> 0x80400000 \<le> unat v \<and> unat v + 4096 \<le> unat (P2V PHYSTOP)}"
    using freerange_loop_pages[OF t(2), of "0x80400000" "P2V PHYSTOP"] t(3,6) e
    unfolding freerange_def r
    by (fastforce simp: P2V_def layout_defs word_le_nat_alt word_less_nat_alt)
  have "unat v + 4096 \<le> unat (P2V PHYSTOP) \<longleftrightarrow> unat v < unat (P2V PHYSTOP)" if "v mod PGSIZE = 0" for v :: uint
    using page_below[OF that, of "P2V PHYSTOP"] by (simp add: P2V_def layout_defs)
  then have set: "set qs = {v. v mod PGSIZE = 0 \<and> kend s \<le> v \<and> v < P2V PHYSTOP}"
    unfolding u(5) t(6) word_le_nat_alt word_less_nat_alt
    using e by (auto simp: P2V_def layout_defs)
  define w where "w = u\<lparr>use_lock := True\<rparr>"
  have "kpool w qs" "distinct qs" "use_lock w"
    using u(2-4) t(4,5)
    by (auto simp: w_def kpool_def kmem_ready_def free_pages_def page_ok_def lk_free_def)
  then show ?thesis using t(1) u(1) set by (auto simp: kinit2_def w_def)
qed

theorem kinit_pages_witness:
  "\<exists>t u ps. kinit1 0x80110000 (P2V 0x400000) (one_page\<lparr>freelist := 0\<rparr>) = Ret () t \<and>
    kinit2 (P2V 0x400000) (P2V PHYSTOP) t = Ret () u \<and> 0x8DFFF000 \<in> set ps \<and> kpool u ps"
proof -
  have "cli_ok (one_page\<lparr>freelist := 0\<rparr>)"
    by (simp add: one_page_def cli_ok_def this_cpu_def readeflags_IF_def)
  from kinit_pages[OF this] obtain t u ps where
    "kinit1 0x80110000 (P2V 0x400000) (one_page\<lparr>freelist := 0\<rparr>) = Ret () t"
    "kinit2 (P2V 0x400000) (P2V PHYSTOP) t = Ret () u" "kpool u ps"
    "set ps = {v. v mod PGSIZE = 0 \<and> 0x80110000 \<le> v \<and> v < P2V PHYSTOP}"
    by (auto simp: one_page_def layout_defs P2V_def)
  then show ?thesis by (intro exI[of _ t] exI[of _ u] exI[of _ ps]) (simp add: layout_defs P2V_def)
qed

section \<open>What the allocator leaves alone\<close>

definition kframe :: "('x) kmem_scheme \<Rightarrow> ('x) kmem_scheme \<Rightarrow> bool" where
  "kframe s t \<longleftrightarrow>
     hw_id t = hw_id s \<and> ncpu t = ncpu s \<and> length (cpus t) = length (cpus s) \<and>
     map cproc (cpus t) = map cproc (cpus s) \<and> map apicid (cpus t) = map apicid (cpus s) \<and>
     kmem.more t = kmem.more s"

lemma kframe_refl [simp]: "kframe s s"
  by (simp add: kframe_def)

lemma kframe_trans: "kframe s t \<Longrightarrow> kframe t u \<Longrightarrow> kframe s u"
  by (simp add: kframe_def)

lemma kframe_mem [simp]: "kframe s (s\<lparr>mem := m\<rparr>)" "kframe s (s\<lparr>freelist := f\<rparr>)"
  by (simp_all add: kframe_def)

lemma frame_kframe: "frame s t \<Longrightarrow> kframe s t"
  by (cases s; cases t) (simp add: frame_def kframe_def)

lemma kframe_kalloc [frames]:
  assumes "kalloc s = Ret p t"
  shows "kframe s t"
proof -
  obtain s1 s2 where 1: "(if use_lock s then acquire L_kmem s else Ret () s) = Ret () s1"
    and 2: "s2 = (if freelist s1 \<noteq> 0 then s1\<lparr>freelist := load32 (freelist s1) (mem s1)\<rparr> else s1)"
    and 3: "(if use_lock s2 then release L_kmem s2 else Ret () s2) = Ret () t"
    using assms by (auto simp: kalloc_def Let_def)
  have "kframe s s1" using 1 frame_kframe[OF frame_acquire] by (auto split: if_splits)
  moreover have "kframe s1 s2" using 2 by simp
  moreover have "kframe s2 t" using 3 frame_kframe[OF frame_release] by (auto split: if_splits)
  ultimately show ?thesis by (blast intro: kframe_trans)
qed

lemma kframe_kfree [frames]:
  assumes "kfree v s = Ret u t"
  shows "kframe s t"
proof -
  define s0 where "s0 = s\<lparr>mem := memset v 1 PGSIZE (mem s)\<rparr>"
  obtain s1 where 1: "(if use_lock s0 then acquire L_kmem s0 else Ret () s0) = Ret () s1"
    and 3: "(if use_lock s1 then release L_kmem (s1\<lparr>mem := store32 v (freelist s1) (mem s1), freelist := v\<rparr>)
             else Ret () (s1\<lparr>mem := store32 v (freelist s1) (mem s1), freelist := v\<rparr>)) = Ret () t"
    using assms by (auto simp: kfree_def Let_def s0_def split: if_splits)
  have "kframe s s0" by (simp add: s0_def)
  moreover have "kframe s0 s1" using 1 frame_kframe[OF frame_acquire] by (auto split: if_splits)
  moreover have "kframe s1 (s1\<lparr>mem := store32 v (freelist s1) (mem s1), freelist := v\<rparr>)" by (simp add: kframe_def)
  moreover have "kframe (s1\<lparr>mem := store32 v (freelist s1) (mem s1), freelist := v\<rparr>) t"
    using 3 frame_kframe[OF frame_release] by (auto split: if_splits)
  ultimately show ?thesis by (blast intro: kframe_trans)
qed

end
