(* ===== verification/Vm.thy ===== *)
theory Vm
  imports Kalloc
begin

text \<open>
  Page tables: \<open>kernel/vm.c\<close>.

  A page directory and its page tables are pages of kernel memory, read and
  written as words.  \<open>mem\<close> is kernel memory at kernel virtual addresses; a
  physical address \<open>pa\<close> is \<open>P2V pa\<close> there.  \<open>kdata\<close> is the
  linker's symbol \<open>data\<close>; \<open>hw_cr3\<close> and \<open>hw_esp0\<close> are what
  \<open>lcr3\<close> and the task state segment hold on every processor.

  Not modelled: segment descriptors (\<open>seginit\<close>), messages on the console.
\<close>

section \<open>State\<close>

record vmst = kmem +
  kpgdir :: uint
  kdata :: uint
  hw_cr3 :: "byte \<Rightarrow> uint"
  hw_esp0 :: "byte \<Rightarrow> uint"

definition rd32 :: "uint \<Rightarrow> ('x) kmem_scheme \<Rightarrow> uint" where
  "rd32 a s = load32 a (mem s)"

definition wr32 :: "uint \<Rightarrow> uint \<Rightarrow> ('x) kmem_scheme \<Rightarrow> ('x) kmem_scheme" where
  "wr32 a v s = s\<lparr>mem := store32 a v (mem s)\<rparr>"

section \<open>Walking and mapping\<close>

definition walkpgdir :: "uint \<Rightarrow> uint \<Rightarrow> bool \<Rightarrow> ('x) kmem_scheme \<Rightarrow> (('x) kmem_scheme, uint) outcome" where
  "walkpgdir pgdir va alloc s =
     (let pde = pgdir + 4 * PDX va in
      if rd32 pde s AND PTE_P \<noteq> 0
      then Ret (P2V (PTE_ADDR (rd32 pde s)) + 4 * PTX va) s
      else if \<not> alloc then Ret 0 s
      else bnd (kalloc s) (\<lambda>pgtab s.
        if pgtab = 0 then Ret 0 s
        else let s = s\<lparr>mem := memset pgtab 0 PGSIZE (mem s)\<rparr>;
                 s = wr32 pde (V2P pgtab OR PTE_P OR PTE_W OR PTE_U) s in
             Ret (pgtab + 4 * PTX va) s))"

text \<open>
  The loop of \<open>mappages\<close> runs from \<open>a\<close> to \<open>last\<close> inclusive,
  both page-aligned: the first argument counts the pages after \<open>a\<close>, and
  \<open>a == last\<close> is the test for 0.
\<close>

fun mappages_loop ::
  "nat \<Rightarrow> uint \<Rightarrow> uint \<Rightarrow> uint \<Rightarrow> uint \<Rightarrow> ('x) kmem_scheme \<Rightarrow> (('x) kmem_scheme, int) outcome" where
  "mappages_loop n pgdir a pa perm s =
     bnd (walkpgdir pgdir a True s) (\<lambda>pte s.
     if pte = 0 then Ret (- 1) s
     else if rd32 pte s AND PTE_P \<noteq> 0 then Panic ''remap''
     else let s = wr32 pte (pa OR perm OR PTE_P) s in
       case n of 0 \<Rightarrow> Ret 0 s
       | Suc n \<Rightarrow> mappages_loop n pgdir (a + PGSIZE) (pa + PGSIZE) perm s)"

declare mappages_loop.simps [simp del]

definition mappages ::
  "uint \<Rightarrow> uint \<Rightarrow> uint \<Rightarrow> uint \<Rightarrow> uint \<Rightarrow> ('x) kmem_scheme \<Rightarrow> (('x) kmem_scheme, int) outcome" where
  "mappages pgdir va sz pa perm s =
     (let a = PGROUNDDOWN va; last = PGROUNDDOWN (va + sz - 1) in
      mappages_loop (unat (last - a) div 4096) pgdir a pa perm s)"

section \<open>Freeing\<close>

text \<open>
  Every iteration of \<open>deallocuvm\<close> advances \<open>a\<close> by at least one page,
  so \<open>2 ^ 20\<close> iterations are enough for every \<open>oldsz\<close> up to
  \<open>KERNBASE\<close>.
\<close>

fun deallocuvm_loop :: "nat \<Rightarrow> uint \<Rightarrow> uint \<Rightarrow> uint \<Rightarrow> ('x) kmem_scheme \<Rightarrow> (('x) kmem_scheme, unit) outcome" where
  "deallocuvm_loop 0 pgdir a oldsz s = (if a < oldsz then OutOfFuel else Ret () s)"
| "deallocuvm_loop (Suc n) pgdir a oldsz s =
     (if a < oldsz
      then bnd (walkpgdir pgdir a False s) (\<lambda>pte s.
        if pte = 0 then deallocuvm_loop n pgdir (PGADDR (PDX a + 1) 0 0 - PGSIZE + PGSIZE) oldsz s
        else if rd32 pte s AND PTE_P \<noteq> 0
        then let pa = PTE_ADDR (rd32 pte s) in
             if pa = 0 then Panic ''kfree''
             else bnd (kfree (P2V pa) s) (\<lambda>_ s.
               deallocuvm_loop n pgdir (a + PGSIZE) oldsz (wr32 pte 0 s))
        else deallocuvm_loop n pgdir (a + PGSIZE) oldsz s)
      else Ret () s)"

definition deallocuvm :: "uint \<Rightarrow> uint \<Rightarrow> uint \<Rightarrow> ('x) kmem_scheme \<Rightarrow> (('x) kmem_scheme, uint) outcome" where
  "deallocuvm pgdir oldsz newsz s =
     (if newsz \<ge> oldsz then Ret oldsz s
      else bnd (deallocuvm_loop (2 ^ 20) pgdir (PGROUNDUP newsz) oldsz s) (\<lambda>_ s. Ret newsz s))"

fun freevm_loop :: "nat list \<Rightarrow> uint \<Rightarrow> ('x) kmem_scheme \<Rightarrow> (('x) kmem_scheme, unit) outcome" where
  "freevm_loop [] pgdir s = Ret () s"
| "freevm_loop (i # js) pgdir s =
     (let e = rd32 (pgdir + 4 * of_nat i) s in
      if e AND PTE_P \<noteq> 0
      then bnd (kfree (P2V (PTE_ADDR e)) s) (\<lambda>_ s. freevm_loop js pgdir s)
      else freevm_loop js pgdir s)"

definition freevm :: "uint \<Rightarrow> ('x) kmem_scheme \<Rightarrow> (('x) kmem_scheme, unit) outcome" where
  "freevm pgdir s =
     (if pgdir = 0 then Panic ''freevm: no pgdir''
      else bnd (deallocuvm pgdir KERNBASE 0 s) (\<lambda>_ s.
        bnd (freevm_loop [0..<1024] pgdir s) (\<lambda>_ s.
        kfree pgdir s)))"

section \<open>The kernel part of a page table\<close>

record kmap_entry =
  virt :: uint
  phys_start :: uint
  phys_end :: uint
  kperm :: uint

definition kmap :: "('x) vmst_scheme \<Rightarrow> kmap_entry list" where
  "kmap s =
     [\<lparr>virt = KERNBASE, phys_start = 0, phys_end = EXTMEM, kperm = PTE_W\<rparr>,
      \<lparr>virt = KERNLINK, phys_start = V2P KERNLINK, phys_end = V2P (kdata s), kperm = 0\<rparr>,
      \<lparr>virt = kdata s, phys_start = V2P (kdata s), phys_end = PHYSTOP, kperm = PTE_W\<rparr>,
      \<lparr>virt = DEVSPACE, phys_start = DEVSPACE, phys_end = 0, kperm = PTE_W\<rparr>]"

fun setupkvm_loop :: "kmap_entry list \<Rightarrow> uint \<Rightarrow> ('x) kmem_scheme \<Rightarrow> (('x) kmem_scheme, uint) outcome" where
  "setupkvm_loop [] pgdir s = Ret pgdir s"
| "setupkvm_loop (k # ks) pgdir s =
     bnd (mappages pgdir (virt k) (phys_end k - phys_start k) (phys_start k) (kperm k) s) (\<lambda>r s.
     if r < 0 then bnd (freevm pgdir s) (\<lambda>_ s. Ret 0 s) else setupkvm_loop ks pgdir s)"

definition setupkvm :: "('x) vmst_scheme \<Rightarrow> (('x) vmst_scheme, uint) outcome" where
  "setupkvm s =
     bnd (kalloc s) (\<lambda>pgdir s.
     if pgdir = 0 then Ret 0 s
     else let s = s\<lparr>mem := memset pgdir 0 PGSIZE (mem s)\<rparr> in
       if P2V PHYSTOP > DEVSPACE then Panic ''PHYSTOP too high''
       else setupkvm_loop (kmap s) pgdir s)"

definition lcr3 :: "uint \<Rightarrow> ('x) vmst_scheme \<Rightarrow> ('x) vmst_scheme" where
  "lcr3 v s = s\<lparr>hw_cr3 := (hw_cr3 s)(hw_id s := v)\<rparr>"

definition switchkvm :: "('x) vmst_scheme \<Rightarrow> ('x) vmst_scheme" where
  "switchkvm s = lcr3 (V2P (kpgdir s)) s"

definition kvmalloc :: "('x) vmst_scheme \<Rightarrow> (('x) vmst_scheme, unit) outcome" where
  "kvmalloc s = bnd (setupkvm s) (\<lambda>d s. Ret () (switchkvm (s\<lparr>kpgdir := d\<rparr>)))"

section \<open>User memory\<close>

definition write_bytes :: "uint \<Rightarrow> byte list \<Rightarrow> memory \<Rightarrow> memory" where
  "write_bytes a bs m = (\<lambda>x. if unat (x - a) < length bs then bs ! unat (x - a) else m x)"

definition inituvm :: "uint \<Rightarrow> byte list \<Rightarrow> ('x) kmem_scheme \<Rightarrow> (('x) kmem_scheme, unit) outcome" where
  "inituvm pgdir init s =
     (if length init \<ge> 4096 then Panic ''inituvm: more than a page''
      else bnd (kalloc s) (\<lambda>page s.
        let s = s\<lparr>mem := memset page 0 PGSIZE (mem s)\<rparr> in
        bnd (mappages pgdir 0 PGSIZE (V2P page) (PTE_W OR PTE_U) s) (\<lambda>_ s.
        Ret () (s\<lparr>mem := write_bytes page init (mem s)\<rparr>))))"

text \<open>
  The values \<open>a\<close> takes in \<open>for(; a < e; a += PGSIZE)\<close>; sizes of user
  memory stay below \<open>KERNBASE\<close>, so \<open>a\<close> does not wrap.
\<close>

definition page_steps :: "uint \<Rightarrow> uint \<Rightarrow> uint list" where
  "page_steps a e = map (\<lambda>i. a + of_nat i * PGSIZE) [0..<(unat e - unat a + 4095) div 4096]"

fun allocuvm_loop ::
  "uint list \<Rightarrow> uint \<Rightarrow> uint \<Rightarrow> uint \<Rightarrow> ('x) kmem_scheme \<Rightarrow> (('x) kmem_scheme, uint) outcome" where
  "allocuvm_loop [] pgdir oldsz newsz s = Ret newsz s"
| "allocuvm_loop (a # as) pgdir oldsz newsz s =
     bnd (kalloc s) (\<lambda>page s.
     if page = 0 then bnd (deallocuvm pgdir newsz oldsz s) (\<lambda>_ s. Ret 0 s)
     else let s = s\<lparr>mem := memset page 0 PGSIZE (mem s)\<rparr> in
       bnd (mappages pgdir a PGSIZE (V2P page) (PTE_W OR PTE_U) s) (\<lambda>r s.
       if r < 0
       then bnd (deallocuvm pgdir newsz oldsz s) (\<lambda>_ s. bnd (kfree page s) (\<lambda>_ s. Ret 0 s))
       else allocuvm_loop as pgdir oldsz newsz s))"

definition allocuvm :: "uint \<Rightarrow> uint \<Rightarrow> uint \<Rightarrow> ('x) kmem_scheme \<Rightarrow> (('x) kmem_scheme, uint) outcome" where
  "allocuvm pgdir oldsz newsz s =
     (if newsz \<ge> KERNBASE then Ret 0 s
      else if newsz < oldsz then Ret oldsz s
      else allocuvm_loop (page_steps (PGROUNDUP oldsz) newsz) pgdir oldsz newsz s)"

definition clearpteu :: "uint \<Rightarrow> uint \<Rightarrow> ('x) kmem_scheme \<Rightarrow> (('x) kmem_scheme, unit) outcome" where
  "clearpteu pgdir uva s =
     bnd (walkpgdir pgdir uva False s) (\<lambda>pte s.
     if pte = 0 then Panic ''clearpteu''
     else Ret () (wr32 pte (rd32 pte s AND NOT PTE_U) s))"

fun copyuvm_loop :: "uint list \<Rightarrow> uint \<Rightarrow> uint \<Rightarrow> ('x) kmem_scheme \<Rightarrow> (('x) kmem_scheme, uint) outcome" where
  "copyuvm_loop [] pgdir d s = Ret d s"
| "copyuvm_loop (i # js) pgdir d s =
     bnd (walkpgdir pgdir i False s) (\<lambda>pte s.
     if pte = 0 then Panic ''copyuvm: pte should exist''
     else if rd32 pte s AND PTE_P = 0 then Panic ''copyuvm: page not present''
     else let pa = PTE_ADDR (rd32 pte s); flags = PTE_FLAGS (rd32 pte s) in
       bnd (kalloc s) (\<lambda>page s.
       if page = 0 then bnd (freevm d s) (\<lambda>_ s. Ret 0 s)
       else let s = s\<lparr>mem := memmove page (P2V pa) PGSIZE (mem s)\<rparr> in
         bnd (mappages d i PGSIZE (V2P page) flags s) (\<lambda>r s.
         if r < 0 then bnd (freevm d s) (\<lambda>_ s. Ret 0 s)
         else copyuvm_loop js pgdir d s)))"

definition copyuvm :: "uint \<Rightarrow> uint \<Rightarrow> ('x) vmst_scheme \<Rightarrow> (('x) vmst_scheme, uint) outcome" where
  "copyuvm pgdir sz s =
     bnd (setupkvm s) (\<lambda>d s.
     if d = 0 then Ret 0 s else copyuvm_loop (page_steps 0 sz) pgdir d s)"

text \<open>
  The processor's own walk of the page table in \<open>cr3\<close>.  \<open>uva2ka\<close>
  dereferences what \<open>walkpgdir\<close> returned without a test for 0; the word at
  virtual address 0 belongs to the running process, and there is a fault when it
  is not mapped.
\<close>

definition hw_walk :: "memory \<Rightarrow> uint \<Rightarrow> uint \<Rightarrow> uint option" where
  "hw_walk m cr3 va =
     (let pde = load32 (P2V cr3 + 4 * PDX va) m in
      if pde AND PTE_P = 0 then None
      else let pte = load32 (P2V (PTE_ADDR pde) + 4 * PTX va) m in
        if pte AND PTE_P = 0 then None else Some (P2V (PTE_ADDR pte) + (va AND 0xFFF)))"

definition uva2ka :: "uint \<Rightarrow> uint \<Rightarrow> ('x) vmst_scheme \<Rightarrow> (('x) vmst_scheme, uint) outcome" where
  "uva2ka pgdir uva s =
     bnd (walkpgdir pgdir uva False s) (\<lambda>pte s.
     bnd (if pte \<noteq> 0 then Ret (rd32 pte s) s
          else case hw_walk (mem s) (hw_cr3 s (hw_id s)) 0 of None \<Rightarrow> Fault 0 | Some ka \<Rightarrow> Ret (rd32 ka s) s)
       (\<lambda>e s.
        if e AND PTE_P = 0 then Ret 0 s
        else if e AND PTE_U = 0 then Ret 0 s
        else Ret (P2V (PTE_ADDR e)) s))"

lemma in_page_offset: "unat (va - PGROUNDDOWN va) < 4096"
proof -
  have "unat (PGROUNDDOWN va) \<le> unat va" by (simp add: unat_PGROUNDDOWN)
  then have "unat (va - PGROUNDDOWN va) = unat va mod 4096"
    by (simp add: unat_sub_if' word_le_nat_alt unat_PGROUNDDOWN minus_div_mult_eq_mod)
  then show ?thesis by simp
qed

function copyout :: "uint \<Rightarrow> uint \<Rightarrow> byte list \<Rightarrow> ('x) vmst_scheme \<Rightarrow> (('x) vmst_scheme, int) outcome" where
  "copyout pgdir va buf s =
     (if buf = [] then Ret 0 s
      else let va0 = PGROUNDDOWN va in
        bnd (uva2ka pgdir va0 s) (\<lambda>pa0 s.
        if pa0 = 0 then Ret (- 1) s
        else let n = 4096 - unat (va - va0); n = (if n > length buf then length buf else n);
                 s = s\<lparr>mem := write_bytes (pa0 + (va - va0)) (take n buf) (mem s)\<rparr> in
             copyout pgdir (va0 + PGSIZE) (drop n buf) s))"
  by pat_completeness auto

termination
  by (relation "measure (\<lambda>(pgdir, va, buf, s). length buf)")
    (use in_page_offset in \<open>auto simp: not_less\<close>)

declare copyout.simps [simp del]

section \<open>What page table operations leave alone\<close>

lemma kframe_wr32 [simp]: "kframe s (wr32 a v s)"
  by (simp add: wr32_def)

lemma walkpgdir_noalloc: "walkpgdir d a False s = Ret p t \<Longrightarrow> t = s"
  by (auto simp: walkpgdir_def Let_def split: if_splits)

lemma kframe_deallocuvm_loop: "deallocuvm_loop n d a e s = Ret u t \<Longrightarrow> kframe s t"
proof (induction n arbitrary: a s)
  case 0
  then show ?case by (auto split: if_splits)
next
  case (Suc n)
  show ?case
  proof (cases "a < e")
    case True
    then obtain p where w: "walkpgdir d a False s = Ret p s"
      using Suc.prems by (auto dest: walkpgdir_noalloc)
    let ?free = "p \<noteq> 0 \<and> rd32 p s AND PTE_P \<noteq> 0"
    show ?thesis
    proof (cases ?free)
      case False
      then obtain a' where "deallocuvm_loop n d a' e s = Ret u t"
        using Suc.prems True w by (auto split: if_splits)
      then show ?thesis by (rule Suc.IH)
    next
      case True
      then obtain s1 where 1: "kfree (P2V (PTE_ADDR (rd32 p s))) s = Ret () s1"
        and 2: "deallocuvm_loop n d (a + PGSIZE) e (wr32 p 0 s1) = Ret u t"
        using Suc.prems \<open>a < e\<close> w by (auto simp: Let_def split: if_splits)
      show ?thesis
        by (rule kframe_trans[OF kframe_trans[OF kframe_kfree[OF 1] kframe_wr32] Suc.IH[OF 2]])
    qed
  next
    case False
    then show ?thesis using Suc.prems by simp
  qed
qed

lemma kframe_deallocuvm [frames]: "deallocuvm d old new s = Ret r t \<Longrightarrow> kframe s t"
  by (auto simp: deallocuvm_def split: if_splits dest!: kframe_deallocuvm_loop)

lemma kframe_freevm_loop: "freevm_loop js d s = Ret u t \<Longrightarrow> kframe s t"
proof (induction js arbitrary: s)
  case (Cons j js)
  let ?e = "rd32 (d + 4 * of_nat j) s"
  show ?case
  proof (cases "?e AND PTE_P \<noteq> 0")
    case True
    then obtain s1 where "kfree (P2V (PTE_ADDR ?e)) s = Ret () s1" "freevm_loop js d s1 = Ret u t"
      using Cons.prems by (auto simp: Let_def)
    then show ?thesis using kframe_kfree Cons.IH kframe_trans by blast
  next
    case False
    then show ?thesis using Cons by (simp add: Let_def)
  qed
qed simp

lemma kframe_freevm [frames]:
  assumes "freevm d s = Ret u t"
  shows "kframe s t"
proof -
  obtain r s1 s2 where "deallocuvm d KERNBASE 0 s = Ret r s1" "freevm_loop [0..<1024] d s1 = Ret () s2"
    "kfree d s2 = Ret u t"
    using assms unfolding freevm_def by (auto split: if_splits simp del: freevm_loop.simps)
  then show ?thesis
    by (rule kframe_trans[OF kframe_trans[OF kframe_deallocuvm kframe_freevm_loop] kframe_kfree])
qed

lemma vm_no_switch [simp]:
  "kalloc s \<noteq> Switch t" "kfree v s \<noteq> Switch t" "walkpgdir d a al s \<noteq> Switch t"
  by (auto simp: kalloc_def kfree_def walkpgdir_def Let_def)

lemma deallocuvm_loop_no_switch [simp]: "deallocuvm_loop n d a e s \<noteq> Switch t"
  by (induction n arbitrary: a s) (auto simp: Let_def)

lemma freevm_loop_no_switch [simp]: "freevm_loop js d s \<noteq> Switch t"
  by (induction js arbitrary: s) (auto simp: Let_def)

lemma freevm_no_switch [simp]: "deallocuvm d old new s \<noteq> Switch t" "freevm d s \<noteq> Switch t"
  by (auto simp: freevm_def deallocuvm_def simp del: freevm_loop.simps deallocuvm_loop.simps)

end
