(* ===== verification/Pages.thy ===== *)
theory Pages
  imports Vm
begin

text \<open>
  What the page tables mean: a page directory as a map from virtual addresses to entries,
  and what \<open>walkpgdir\<close> and \<open>mappages\<close> do to that map.
\<close>

section \<open>Words in pages\<close>

lemma unat_slot:
  assumes "(d :: uint) mod PGSIZE = 0" "unat i < 1024"
  shows "unat (d + 4 * i) = unat d + 4 * unat i"
proof -
  obtain k where k: "unat d = 4096 * k" "k < 1048576" using page_aligned[OF assms(1)] .
  have f: "unat (4 * i) = 4 * unat i" using assms(2) by (simp add: unat_word_ariths)
  have "unat d + 4 * unat i < 2 ^ 32" using k assms(2) by simp
  then show ?thesis by (simp add: unat_word_ariths f)
qed

lemma slot_mod4: "(d :: uint) mod PGSIZE = 0 \<Longrightarrow> unat i < 1024 \<Longrightarrow> (d + 4 * i) mod 4 = 0"
proof -
  assume a: "d mod PGSIZE = 0" "unat i < 1024"
  obtain k where "unat d = 4096 * k" using page_aligned[OF a(1)] .
  then have "unat ((d + 4 * i) mod 4) = 0" by (simp add: unat_mod unat_slot[OF a])
  then show ?thesis by (simp add: unat_eq_0)
qed

lemma slot_inj:
  assumes "(d :: uint) mod PGSIZE = 0" "e mod PGSIZE = 0" "unat i < 1024" "unat j < 1024" "d + 4 * i = e + 4 * j"
  shows "d = e \<and> i = j"
proof -
  obtain k where k: "unat d = 4096 * k" using page_aligned[OF assms(1)] .
  obtain l where l: "unat e = 4096 * l" using page_aligned[OF assms(2)] .
  have "4096 * k + 4 * unat i = 4096 * l + 4 * unat j"
    using unat_slot[OF assms(1,3)] unat_slot[OF assms(2,4)] assms(5) k l by simp
  then have e: "1024 * k + unat i = 1024 * l + unat j" by simp
  have "k = (1024 * k + unat i) div 1024" "l = (1024 * l + unat j) div 1024" using assms(3,4) by simp_all
  then have "k = l" using e by simp
  then show ?thesis using k l e by (simp add: word_unat_eq_iff)
qed

lemma slot_bytes:
  assumes "(d :: uint) mod PGSIZE = 0" "unat i < 1024" "j < 4"
  shows "in_page d (d + 4 * i + j)"
proof -
  have "unat (4 * i) = 4 * unat i" using assms(2) by (simp add: unat_word_ariths)
  moreover have "unat j < 4" using assms(3) by (simp add: word_less_nat_alt)
  ultimately have "unat (4 * i + j) < 4096" using assms(2) by (simp add: unat_word_ariths)
  then show ?thesis by (simp add: in_page_def PGSIZE_def word_less_nat_alt add.assoc)
qed

lemma load_memset_page:
  assumes "(q :: uint) mod PGSIZE = 0" "d mod PGSIZE = 0" "unat i < 1024"
  shows "load32 (d + 4 * i) (memset q 0 PGSIZE m) = (if d = q then 0 else load32 (d + 4 * i) m)"
proof -
  have "memset q 0 PGSIZE m (d + 4 * i + j) = (if d = q then 0 else m (d + 4 * i + j))" if "j < 4" for j
    using slot_bytes[OF assms(2,3) that] in_page_unique[OF assms(1,2), of "d + 4 * i + j"]
    by (cases "d = q") (auto simp: memset_apply in_page_def)
  from this[of 0] this[of 1] this[of 2] this[of 3] show ?thesis by (simp add: load32_def un32_def)
qed

lemma load_store_slot:
  assumes "(d :: uint) mod PGSIZE = 0" "e mod PGSIZE = 0" "unat i < 1024" "unat j < 1024"
  shows "load32 (d + 4 * i) (store32 (e + 4 * j) v m) = (if d = e \<and> i = j then v else load32 (d + 4 * i) m)"
proof (cases "e + 4 * j = d + 4 * i")
  case True
  then show ?thesis using slot_inj[OF assms True[symmetric]] by simp
next
  case False
  then show ?thesis using load32_store32_other[OF slot_mod4[OF assms(2,4)] slot_mod4[OF assms(1,3)] False] by auto
qed

section \<open>Entries\<close>

definition pde :: "memory \<Rightarrow> uint \<Rightarrow> uint \<Rightarrow> uint" where
  "pde m d va = load32 (d + 4 * PDX va) m"

definition pgtab :: "memory \<Rightarrow> uint \<Rightarrow> uint \<Rightarrow> uint" where
  "pgtab m d va = P2V (PTE_ADDR (pde m d va))"

text \<open>The page table entry for an address; 0 when there is no page table.\<close>

definition entry :: "memory \<Rightarrow> uint \<Rightarrow> uint \<Rightarrow> uint" where
  "entry m d va = (if pde m d va AND PTE_P = 0 then 0 else load32 (pgtab m d va + 4 * PTX va) m)"

lemma hw_walk_entry:
  "hw_walk m (V2P d) va = (if entry m d va AND PTE_P = 0 then None else Some (P2V (PTE_ADDR (entry m d va)) + (va AND 0xFFF)))"
  by (simp add: hw_walk_def entry_def pde_def pgtab_def Let_def)

text \<open>
  A page directory: its page tables are pages of their own, one for each directory entry,
  and none of them is free.
\<close>

definition pgdir_ok :: "('x) kmem_scheme \<Rightarrow> uint \<Rightarrow> uint list \<Rightarrow> bool" where
  "pgdir_ok s d ps \<longleftrightarrow> kpool s ps \<and> d mod PGSIZE = 0 \<and> d \<notin> set ps \<and>
     (\<forall>va. pde (mem s) d va AND PTE_P \<noteq> 0 \<longrightarrow> pgtab (mem s) d va \<noteq> 0 \<and> pgtab (mem s) d va \<noteq> d \<and> pgtab (mem s) d va \<notin> set ps) \<and>
     (\<forall>va vb. pde (mem s) d va AND PTE_P \<noteq> 0 \<longrightarrow> pde (mem s) d vb AND PTE_P \<noteq> 0 \<longrightarrow>
        pgtab (mem s) d va = pgtab (mem s) d vb \<longrightarrow> PDX va = PDX vb)"

lemma pgdir_okD:
  assumes "pgdir_ok s d ps"
  shows "kpool s ps" "d mod PGSIZE = 0" "d \<notin> set ps"
    "pde (mem s) d va AND PTE_P \<noteq> 0 \<Longrightarrow> pgtab (mem s) d va \<noteq> 0 \<and> pgtab (mem s) d va \<noteq> d \<and> pgtab (mem s) d va \<notin> set ps"
    "pde (mem s) d va AND PTE_P \<noteq> 0 \<Longrightarrow> pde (mem s) d vb AND PTE_P \<noteq> 0 \<Longrightarrow>
        pgtab (mem s) d va = pgtab (mem s) d vb \<Longrightarrow> PDX va = PDX vb"
  using assms unfolding pgdir_ok_def by blast+

lemma KERNBASE_shift: "(y :: uint) mod PGSIZE = 0 \<Longrightarrow> (y + KERNBASE) mod PGSIZE = 0"
proof -
  assume "y mod PGSIZE = 0"
  then obtain k where k: "unat y = 4096 * k" "k < 1048576" by (rule page_aligned)
  have "unat (y + 0x80000000) = 4096 * (k + 524288) mod (4096 * 1048576)" by (simp add: unat_word_ariths k)
  also have "\<dots> = 4096 * ((k + 524288) mod 1048576)" by (rule mult_mod_right[symmetric])
  finally have "unat ((y + 0x80000000) mod 4096) = 0" by (simp add: unat_mod)
  then show ?thesis by (simp add: KERNBASE_def PGSIZE_def unat_eq_0)
qed

lemma pgtab_aligned: "pgtab m d va mod PGSIZE = 0"
proof -
  have "PTE_ADDR x mod PGSIZE = 0" for x using PGROUNDDOWN_mod[of x] by (simp add: PTE_ADDR_def PGROUNDDOWN_def PGSIZE_def)
  then show ?thesis using KERNBASE_shift by (simp add: pgtab_def P2V_def)
qed

lemma V2P_aligned: "(q :: uint) mod PGSIZE = 0 \<Longrightarrow> V2P q mod 4096 = 0"
proof -
  assume a: "q mod PGSIZE = 0"
  have n: "- KERNBASE = KERNBASE" by (simp add: KERNBASE_def)
  have e: "q - KERNBASE = q + KERNBASE" using diff_conv_add_uminus[of q KERNBASE] unfolding n .
  show ?thesis unfolding V2P_def e using KERNBASE_shift[OF a] by (simp add: PGSIZE_def)
qed

text \<open>Writing the entry of an address that has a page table.\<close>

lemma set_entry:
  fixes e :: uint
  assumes "pgdir_ok s d ps" "pde (mem s) d va AND PTE_P \<noteq> 0"
  defines "t \<equiv> wr32 (pgtab (mem s) d va + 4 * PTX va) e s"
  shows "pgdir_ok t d ps" "entry (mem t) d x = (if PDX x = PDX va \<and> PTX x = PTX va then e else entry (mem s) d x)"
    "pde (mem t) d x = pde (mem s) d x"
proof -
  note D = pgdir_okD[OF assms(1)]
  let ?T = "pgtab (mem s) d va"
  have T: "?T \<noteq> d" "?T \<notin> set ps" using D(4)[OF assms(2)] by simp_all
  have m: "mem t = store32 (?T + 4 * PTX va) e (mem s)" by (simp add: t_def wr32_def)
  show p: "pde (mem t) d x = pde (mem s) d x" for x
    using T(1) load_store_slot[OF D(2) pgtab_aligned PDX_less PTX_less, of x "mem s" d va va e "mem s"] by (simp add: pde_def m)
  have g: "pgtab (mem t) d x = pgtab (mem s) d x" for x by (simp add: pgtab_def p)
  have pr: "(if pde (mem s) d x AND PTE_P = 0 then False else PDX x = PDX va \<and> PTX x = PTX va) = (PDX x = PDX va \<and> PTX x = PTX va)" for x
    using assms(2) by (auto simp: pde_def)
  show "entry (mem t) d x = (if PDX x = PDX va \<and> PTX x = PTX va then e else entry (mem s) d x)" for x
  proof (cases "pde (mem s) d x AND PTE_P = 0")
    case True
    then show ?thesis using pr[of x] by (auto simp: entry_def p)
  next
    case False
    have "pgtab (mem s) d x = ?T \<longleftrightarrow> PDX x = PDX va"
      using D(5)[OF False assms(2)] by (auto simp: pgtab_def pde_def)
    then show ?thesis
      using False load_store_slot[OF pgtab_aligned pgtab_aligned PTX_less PTX_less, of "mem s" d x x "mem s" d va va e "mem s"]
      unfolding entry_def p g by (simp add: m)
  qed
  have "free_pages (s\<lparr>mem := mem t\<rparr>) ps"
  proof (rule free_pages_mem)
    show "free_pages s ps" using D(1) by (simp add: kpool_def)
    fix q a assume q: "q \<in> set ps" "in_page q a"
    have "q mod PGSIZE = 0" using D(1) q(1) by (auto simp: kpool_def free_pages_def page_ok_def)
    then have "a \<noteq> ?T + 4 * PTX va + j" if "j < 4" for j
      using in_page_unique[OF _ pgtab_aligned q(2)] slot_bytes[OF pgtab_aligned PTX_less that, of "mem s" d va va] q(1) T(2) by blast
    from this[of 0] this[of 1] this[of 2] this[of 3] show "mem t a = mem s a" by (simp add: m store32_apply)
  qed
  moreover have "t = s\<lparr>mem := mem t\<rparr>" by (simp add: t_def wr32_def)
  ultimately have "kpool t ps" using D(1) kmem_ready_upd(1)[of "mem t" s] by (simp add: kpool_def)
  then show "pgdir_ok t d ps" using assms(1) unfolding pgdir_ok_def p g by blast
qed

section \<open>Walking\<close>

lemma walk_present:
  assumes "pde (mem s) d va AND PTE_P \<noteq> 0"
  shows "walkpgdir d va al s = Ret (pgtab (mem s) d va + 4 * PTX va) s"
  using assms by (simp add: walkpgdir_def pde_def pgtab_def rd32_def Let_def)

lemma pgtab_slot_nz: "pgdir_ok s d ps \<Longrightarrow> pde (mem s) d va AND PTE_P \<noteq> 0 \<Longrightarrow> pgtab (mem s) d va + 4 * PTX va \<noteq> 0"
proof
  assume a: "pgdir_ok s d ps" "pde (mem s) d va AND PTE_P \<noteq> 0" "pgtab (mem s) d va + 4 * PTX va = 0"
  have "unat (pgtab (mem s) d va) = 0" using unat_slot[OF pgtab_aligned PTX_less, of "mem s" d va va] a(3) by simp
  then show False using pgdir_okD(4)[OF a(1,2)] by (simp add: unat_eq_0)
qed

text \<open>
  A page for a new page table: the table is zero, so no address becomes mapped, and the
  directory is well formed with one free page less.
\<close>

lemma kpool_take:
  assumes "kpool s (q # qs)"
  shows "kalloc s = Ret q (s\<lparr>freelist := load32 q (mem s)\<rparr>)" "kpool (s\<lparr>freelist := load32 q (mem s)\<rparr>) qs"
    "q \<noteq> 0" "q mod PGSIZE = 0" "q \<notin> set qs" "\<forall>x\<in>set qs. x mod PGSIZE = 0"
proof -
  have k: "kmem_ready s" "free_pages s (q # qs)" using assms by (simp_all add: kpool_def)
  have q: "freelist s = q" "page_ok s q" "q \<notin> set qs" using k(2) by (auto simp: free_pages_def)
  show "q \<noteq> 0" using page_ok_nz q(2) by blast
  then show "kalloc s = Ret q (s\<lparr>freelist := load32 q (mem s)\<rparr>)" using kalloc_eq[OF k(1)] q(1) by simp
  show "kpool (s\<lparr>freelist := load32 q (mem s)\<rparr>) qs" using k(1) free_pages_kalloc[OF k(2)] q(1) by (simp add: kpool_def)
  show "q mod PGSIZE = 0" "q \<notin> set qs" using q(2,3) by (simp_all add: page_ok_def)
  show "\<forall>x\<in>set qs. x mod PGSIZE = 0" using k(2) by (simp add: free_pages_def page_ok_def)
qed

lemma table_entry:
  assumes "(q :: uint) mod PGSIZE = 0"
  shows "P2V (PTE_ADDR (V2P q OR PTE_P OR PTE_W OR PTE_U)) = q" "(V2P q OR PTE_P OR PTE_W OR PTE_U) AND PTE_P \<noteq> 0"
proof -
  have "V2P q OR PTE_P OR PTE_W OR PTE_U = V2P q OR 7" by (simp add: PTE_P_def PTE_W_def PTE_U_def or.assoc)
  then show "P2V (PTE_ADDR (V2P q OR PTE_P OR PTE_W OR PTE_U)) = q"
    using PTE_ADDR_or_flags(1)[OF V2P_aligned[OF assms], of 7] by simp
  have "bit ((V2P q OR PTE_P OR PTE_W OR PTE_U) AND PTE_P) 0" by (simp add: bit_simps PTE_P_def)
  then show "(V2P q OR PTE_P OR PTE_W OR PTE_U) AND PTE_P \<noteq> 0" by auto
qed

lemma walk_exhausted:
  assumes "pgdir_ok s d []" "pde (mem s) d va AND PTE_P = 0"
  shows "walkpgdir d va True s = Ret 0 s"
proof -
  have "kmem_ready s" "freelist s = 0" using pgdir_okD(1)[OF assms(1)] by (simp_all add: kpool_def free_pages_def)
  then show ?thesis using assms(2) by (simp add: walkpgdir_def pde_def rd32_def Let_def kalloc_eq)
qed

lemma walk_alloc:
  assumes ok: "pgdir_ok s d (q # qs)" and np: "pde (mem s) d va AND PTE_P = 0"
  defines "t \<equiv> s\<lparr>freelist := load32 q (mem s),
      mem := store32 (d + 4 * PDX va) (V2P q OR PTE_P OR PTE_W OR PTE_U) (memset q 0 PGSIZE (mem s))\<rparr>"
  shows "walkpgdir d va True s = Ret (pgtab (mem t) d va + 4 * PTX va) t" "pgdir_ok t d qs"
    "pde (mem t) d va AND PTE_P \<noteq> 0" "entry (mem t) d x = entry (mem s) d x"
proof -
  note D = pgdir_okD[OF ok] and K = kpool_take[OF pgdir_okD(1)[OF ok]]
  let ?e = "V2P q OR PTE_P OR PTE_W OR PTE_U"
  have dq: "d \<noteq> q" "d \<notin> set qs" using D(3) by auto
  have m: "mem t = store32 (d + 4 * PDX va) ?e (memset q 0 PGSIZE (mem s))" by (simp add: t_def)
  have p: "pde (mem t) d x = (if PDX x = PDX va then ?e else pde (mem s) d x)" for x
    using load_store_slot[OF D(2) D(2) PDX_less PDX_less, of x va ?e] load_memset_page[OF K(4) D(2) PDX_less, of x] dq(1)
    by (simp add: pde_def m)
  have g: "pgtab (mem t) d x = (if PDX x = PDX va then q else pgtab (mem s) d x)" for x
    using table_entry(1)[OF K(4)] by (simp add: pgtab_def p)
  show pr: "pde (mem t) d va AND PTE_P \<noteq> 0" unfolding p using table_entry(2)[OF K(4)] by simp
  show "walkpgdir d va True s = Ret (pgtab (mem t) d va + 4 * PTX va) t"
    unfolding g using np K(1,3) by (simp add: walkpgdir_def pde_def rd32_def Let_def t_def wr32_def)
  show "entry (mem t) d x = entry (mem s) d x"
  proof (cases "PDX x = PDX va")
    case True
    then have "pde (mem s) d x AND PTE_P = 0" using np by (simp add: pde_def)
    moreover have "load32 (q + 4 * PTX x) (mem t) = 0"
      using load_store_slot[OF K(4) D(2) PTX_less PDX_less, of x va ?e] load_memset_page[OF K(4) K(4) PTX_less, of x] dq(1)
      by (simp add: m)
    ultimately show ?thesis unfolding entry_def p g using True table_entry(2)[OF K(4)] by simp
  next
    case False
    have "load32 (pgtab (mem s) d x + 4 * PTX x) (mem t) = load32 (pgtab (mem s) d x + 4 * PTX x) (mem s)"
      if "pde (mem s) d x AND PTE_P \<noteq> 0"
      using load_store_slot[OF pgtab_aligned D(2) PTX_less PDX_less, of "mem s" d x x va ?e]
        load_memset_page[OF K(4) pgtab_aligned PTX_less, of "mem s" d x x] D(4)[OF that]
      by (simp add: m)
    then show ?thesis unfolding entry_def p g using False by simp
  qed
  let ?u = "s\<lparr>freelist := load32 q (mem s)\<rparr>"
  have "free_pages (?u\<lparr>mem := mem t\<rparr>) qs"
  proof (rule free_pages_mem)
    show "free_pages ?u qs" using K(2) by (simp add: kpool_def)
    fix r a assume r: "r \<in> set qs" "in_page r a"
    have al: "r mod PGSIZE = 0" using K(6) r(1) by blast
    have "j < 4 \<Longrightarrow> a \<noteq> d + 4 * PDX va + j" for j
      using in_page_unique[OF al D(2) r(2)] slot_bytes[OF D(2) PDX_less, of j va] r(1) dq(2) by blast
    from this[of 0] this[of 1] this[of 2] this[of 3]
    have "store32 (d + 4 * PDX va) ?e n a = n a" for n by (simp add: store32_apply)
    moreover have "\<not> in_page q a" using in_page_unique[OF al K(4) r(2)] r(1) K(5) by blast
    ultimately show "mem t a = mem ?u a"
      by (simp add: m memset_apply in_page_def)
  qed
  moreover have "?u\<lparr>mem := mem t\<rparr> = t" by (simp add: t_def)
  ultimately have "kpool t qs" using K(2) kmem_ready_upd(1)[of "mem t" ?u] by (simp add: kpool_def)
  moreover have "pgtab (mem t) d x \<noteq> 0 \<and> pgtab (mem t) d x \<noteq> d \<and> pgtab (mem t) d x \<notin> set qs"
    if "pde (mem t) d x AND PTE_P \<noteq> 0" for x
    using that D(4)[of x] K(3,5) dq(1) by (cases "PDX x = PDX va") (simp_all add: p g)
  moreover have "PDX x = PDX y"
    if "pde (mem t) d x AND PTE_P \<noteq> 0" "pde (mem t) d y AND PTE_P \<noteq> 0" "pgtab (mem t) d x = pgtab (mem t) d y" for x y
    using that D(4)[of x] D(4)[of y] D(5)[of x y]
    by (cases "PDX x = PDX va"; cases "PDX y = PDX va") (simp_all add: p g)
  ultimately show "pgdir_ok t d qs" using D(2) dq(2) unfolding pgdir_ok_def by blast
qed

text \<open>What \<open>mappages\<close> asks of one page: its table, or a new one, and its slot.\<close>

lemma walk_slot:
  assumes "pgdir_ok s d ps"
  obtains "walkpgdir d va True s = Ret 0 s" "ps = []"
  | t qs where "walkpgdir d va True s = Ret (pgtab (mem t) d va + 4 * PTX va) t" "pgtab (mem t) d va + 4 * PTX va \<noteq> 0"
      "pgdir_ok t d qs" "pde (mem t) d va AND PTE_P \<noteq> 0" "\<And>x. entry (mem t) d x = entry (mem s) d x"
      "set qs \<subseteq> set ps" "length ps \<le> Suc (length qs)"
proof (cases "pde (mem s) d va AND PTE_P = 0")
  case np: True
  show thesis
  proof (cases ps)
    case Nil
    then show thesis using walk_exhausted[OF _ np] assms that(1) by simp
  next
    case (Cons q qs)
    note W = walk_alloc[OF assms[unfolded Cons] np]
    show thesis by (rule that(2)[OF W(1) pgtab_slot_nz[OF W(2,3)] W(2) W(3) W(4)]) (auto simp: Cons)
  qed
next
  case False
  show thesis by (rule that(2)[OF walk_present[OF False] pgtab_slot_nz[OF assms False] assms False]) auto
qed

lemma PGROUNDDOWN_index [simp]: "PDX (PGROUNDDOWN a) = PDX a" "PTX (PGROUNDDOWN a) = PTX a"
  by (rule bit_word_eqI; auto simp: bit_PDX bit_PTX PGROUNDDOWN_def mask12 bit_simps)+

lemma same_page: "PDX x = PDX a \<and> PTX x = PTX a \<longleftrightarrow> PGROUNDDOWN x = PGROUNDDOWN a"
  using page_index_inj[of "PGROUNDDOWN x" "PGROUNDDOWN a"] by (metis PGROUNDDOWN_index PGROUNDDOWN_mod)

section \<open>Mapping a range\<close>

lemma entry_page: "entry m d x = entry m d (PGROUNDDOWN x)"
  by (simp add: entry_def pgtab_def pde_def)

lemma map_one:
  assumes "pgdir_ok s d ps" "a mod PGSIZE = 0" "entry (mem s) d a AND PTE_P = 0"
  obtains "mappages_loop n d a pa perm s = Ret (- 1) s" "ps = []"
  | u qs where "mappages_loop n d a pa perm s =
        (case n of 0 \<Rightarrow> Ret 0 u | Suc n \<Rightarrow> mappages_loop n d (a + PGSIZE) (pa + PGSIZE) perm u)"
      "pgdir_ok u d qs" "set qs \<subseteq> set ps" "length ps \<le> Suc (length qs)"
      "\<And>x. entry (mem u) d x = (if PGROUNDDOWN x = a then pa OR perm OR PTE_P else entry (mem s) d x)"
  using assms(1)
proof (cases rule: walk_slot[where va = a])
  case 1
  then show thesis using that(1) by (simp add: mappages_loop.simps[of n])
next
  case (2 t qs)
  note S = set_entry[OF 2(3,4), of "pa OR perm OR PTE_P"]
  have a: "PGROUNDDOWN a = a" using assms(2) by (simp add: PGROUNDDOWN_id PGSIZE_def)
  have "rd32 (pgtab (mem t) d a + 4 * PTX a) t AND PTE_P = 0"
    using assms(3) 2(4) 2(5)[of a] by (simp add: rd32_def entry_def)
  then have "mappages_loop n d a pa perm s = (case n of
      0 \<Rightarrow> Ret 0 (wr32 (pgtab (mem t) d a + 4 * PTX a) (pa OR perm OR PTE_P) t)
    | Suc n \<Rightarrow> mappages_loop n d (a + PGSIZE) (pa + PGSIZE) perm (wr32 (pgtab (mem t) d a + 4 * PTX a) (pa OR perm OR PTE_P) t))"
    using 2(1,2) by (simp add: mappages_loop.simps[of n] Let_def)
  then show thesis using that(2)[OF _ S(1) 2(6,7)] S(2) 2(5) same_page[of _ a] a by simp
qed

lemma page_step:
  assumes "unat (a :: uint) + 4096 * Suc n + 4096 \<le> 2 ^ 32" "a mod PGSIZE = 0"
  shows "unat (a + PGSIZE) = unat a + 4096" "(a + PGSIZE) mod PGSIZE = 0"
proof -
  show u: "unat (a + PGSIZE) = unat a + 4096" using assms(1) by (simp add: unat_word_ariths PGSIZE_def)
  obtain k where "unat a = 4096 * k" using page_aligned[OF assms(2)] .
  then have "unat ((a + PGSIZE) mod 4096) = 0" by (simp add: unat_mod u)
  then show "(a + PGSIZE) mod PGSIZE = 0" by (simp add: PGSIZE_def unat_eq_0)
qed

lemma page_room: "(u :: nat) + 4096 * n + 4096 \<le> 2 ^ 32 \<Longrightarrow> i \<le> n \<Longrightarrow> u + i * 4096 < 2 ^ 32 \<and> i * 4096 < 2 ^ 32"
  by simp

lemma unat_pages:
  assumes "i * 4096 < 2 ^ 32"
  shows "unat (of_nat i * PGSIZE) = i * 4096"
proof -
  have "of_nat i * PGSIZE = (of_nat (i * 4096) :: uint)" by (simp add: PGSIZE_def)
  also have "unat \<dots> = i * 4096 mod 2 ^ 32" by (simp add: unat_of_nat del: of_nat_mult)
  finally show ?thesis using assms by simp
qed

lemma pages_distinct:
  assumes "unat (a :: uint) + 4096 * n + 4096 \<le> 2 ^ 32" "i \<le> n" "j \<le> n" "a + of_nat i * PGSIZE = a + of_nat j * PGSIZE"
  shows "i = j"
proof -
  have "unat (of_nat i * PGSIZE) = i * 4096" by (rule unat_pages) (use page_room[OF assms(1,2)] in blast)
  moreover have "unat (of_nat j * PGSIZE) = j * 4096" by (rule unat_pages) (use page_room[OF assms(1,3)] in blast)
  moreover have "of_nat i * PGSIZE = of_nat j * PGSIZE" using assms(4) by (rule add_left_imp_eq)
  ultimately have "i * 4096 = j * 4096" by metis
  then show ?thesis by simp
qed

lemma page_nth:
  assumes "unat (a :: uint) + 4096 * n + 4096 \<le> 2 ^ 32" "a mod PGSIZE = 0" "i \<le> n"
  shows "PGROUNDDOWN (a + of_nat i * PGSIZE) = a + of_nat i * PGSIZE" "unat (a + of_nat i * PGSIZE) = unat a + i * 4096"
proof -
  have "unat (of_nat i * PGSIZE) = i * 4096" by (rule unat_pages) (use page_room[OF assms(1,3)] in blast)
  then show u: "unat (a + of_nat i * PGSIZE) = unat a + i * 4096" 
    using page_room[OF assms(1,3)] by (subst unat_plus_if') simp
  obtain k where "unat a = 4096 * k" using page_aligned[OF assms(2)] .
  then show "PGROUNDDOWN (a + of_nat i * PGSIZE) = a + of_nat i * PGSIZE"
    by (simp add: word_unat_eq_iff unat_PGROUNDDOWN u)
qed

lemma mappages_loop_ok:
  assumes "pgdir_ok s d ps" "unat a + 4096 * n + 4096 \<le> 2 ^ 32" "a mod PGSIZE = 0"
    "\<And>i. i \<le> n \<Longrightarrow> entry (mem s) d (a + of_nat i * PGSIZE) AND PTE_P = 0"
  shows "\<exists>r t qs. mappages_loop n d a pa perm s = Ret r t \<and> pgdir_ok t d qs \<and> set qs \<subseteq> set ps \<and>
     (\<forall>x. (\<forall>i\<le>n. PGROUNDDOWN x \<noteq> a + of_nat i * PGSIZE) \<longrightarrow> entry (mem t) d x = entry (mem s) d x) \<and>
     (r = 0 \<and> (\<forall>i\<le>n. entry (mem t) d (a + of_nat i * PGSIZE) = pa + of_nat i * PGSIZE OR perm OR PTE_P) \<or>
      r = - 1 \<and> qs = [] \<and> length ps \<le> n)"
  using assms
proof (induction n arbitrary: a pa s ps)
  case (0 a pa s ps)
  from 0(1,3) 0(4)[of 0, simplified] show ?case
  proof (cases rule: map_one[where n = 0 and pa = pa and perm = perm])
    case 1
    then show ?thesis using 0(1) by simp
  next
    case (2 u qs)
    then show ?thesis using page_nth(1)[OF 0(2,3)] by (intro exI[of _ 0] exI[of _ u] exI[of _ qs]) simp
  qed
next
  case (Suc n a pa s ps)
  let ?a = "a + PGSIZE"
  note st = page_step[OF Suc.prems(2,3)] and pg = page_nth(1)[OF Suc.prems(2,3)]
  have sh: "x + of_nat (Suc i) * PGSIZE = x + PGSIZE + of_nat i * PGSIZE" for i and x :: uint by (simp add: algebra_simps)
  from Suc.prems(1,3) Suc.prems(4)[of 0, simplified] show ?case
  proof (cases rule: map_one[where n = "Suc n" and pa = pa and perm = perm])
    case 1
    then show ?thesis using Suc.prems(1) by simp
  next
    case (2 u qs)
    have "entry (mem u) d (?a + of_nat i * PGSIZE) AND PTE_P = 0" if "i \<le> n" for i
      using Suc.prems(4)[of "Suc i"] pg[of "Suc i"] pages_distinct[OF Suc.prems(2), of "Suc i" 0] that 2(5) unfolding sh by auto
    from Suc.IH[OF 2(2) _ st(2) this, of "pa + PGSIZE"] st(1) Suc.prems(2)
    obtain r t rs where R: "mappages_loop n d ?a (pa + PGSIZE) perm u = Ret r t" "pgdir_ok t d rs" "set rs \<subseteq> set qs"
      "\<And>x. (\<forall>i\<le>n. PGROUNDDOWN x \<noteq> ?a + of_nat i * PGSIZE) \<Longrightarrow> entry (mem t) d x = entry (mem u) d x"
      "r = 0 \<and> (\<forall>i\<le>n. entry (mem t) d (?a + of_nat i * PGSIZE) = pa + PGSIZE + of_nat i * PGSIZE OR perm OR PTE_P) \<or>
       r = - 1 \<and> rs = [] \<and> length qs \<le> n" by auto
    have fr: "entry (mem t) d x = entry (mem s) d x" if x: "\<forall>i\<le>Suc n. PGROUNDDOWN x \<noteq> a + of_nat i * PGSIZE" for x
    proof -
      have "PGROUNDDOWN x \<noteq> ?a + of_nat i * PGSIZE" if "i \<le> n" for i using x[rule_format, of "Suc i"] that unfolding sh by simp
      then show ?thesis using R(4)[of x] 2(5)[of x] x[rule_format, of 0] by simp
    qed
    have e0: "entry (mem t) d a = pa OR perm OR PTE_P"
    proof -
      have "a \<noteq> ?a + of_nat i * PGSIZE" if "i \<le> n" for i
        using pages_distinct[OF Suc.prems(2), of "Suc i" 0] that unfolding sh by auto
      then show ?thesis using R(4)[of a] 2(5)[of a] pg[of 0] by simp
    qed
    have "entry (mem t) d (a + of_nat i * PGSIZE) = pa + of_nat i * PGSIZE OR perm OR PTE_P"
      if all: "\<forall>i\<le>n. entry (mem t) d (?a + of_nat i * PGSIZE) = pa + PGSIZE + of_nat i * PGSIZE OR perm OR PTE_P"
        and i: "i \<le> Suc n" for i
    proof (cases i)
      case 0
      then show ?thesis using e0 by simp
    next
      case (Suc j)
      then show ?thesis using all[rule_format, of j] i unfolding Suc sh by simp
    qed
    then have "r = 0 \<and> (\<forall>i\<le>Suc n. entry (mem t) d (a + of_nat i * PGSIZE) = pa + of_nat i * PGSIZE OR perm OR PTE_P) \<or>
       r = - 1 \<and> rs = [] \<and> length ps \<le> Suc n" 
      using R(5) le_trans[OF 2(4), of "Suc n"] Suc_le_mono[of "length qs" n] by blast
    moreover have "mappages_loop (Suc n) d a pa perm s = Ret r t" using 2(1) R(1) by simp
    ultimately show ?thesis using R(2,3) 2(3) fr by blast
  qed
qed

section \<open>The range of a call\<close>

lemma page_multiple:
  assumes "(y :: uint) mod PGSIZE = 0"
  shows "(y + of_nat i * PGSIZE) mod 4096 = 0"
proof -
  obtain k where k: "unat y = 4096 * k" "k < 1048576" using page_aligned[OF assms] .
  have "4096 * k < 2 ^ 32" using k(2) by simp
  then have y: "y = of_nat (4096 * k)" using k(1) by (simp add: word_unat_eq_iff unat_of_nat del: of_nat_mult)
  have "y + of_nat i * PGSIZE = of_nat (4096 * (k + i))" by (subst y) (simp add: PGSIZE_def algebra_simps)
  then have "unat (y + of_nat i * PGSIZE) = 4096 * (k + i) mod (4096 * 1048576)" by (simp add: unat_of_nat del: of_nat_mult of_nat_add)
  also have "\<dots> = 4096 * ((k + i) mod 1048576)" by (rule mult_mod_right[symmetric])
  finally have "unat ((y + of_nat i * PGSIZE) mod 4096) = 0" by (simp add: unat_mod)
  then show ?thesis by (simp add: unat_eq_0)
qed

lemma leaf_entry:
  assumes "(y :: uint) mod 4096 = 0" "unat perm < 4096"
  shows "PTE_ADDR (y OR perm OR PTE_P) = y" "(y OR perm OR PTE_P) AND PTE_P \<noteq> 0"
proof -
  have t: "take_bit 12 (perm OR PTE_P) = perm OR PTE_P"
  proof -
    have "take_bit 12 perm = perm" using assms(2) by (simp add: take_bit_eq_mod word_unat_eq_iff unat_mod)
    then show ?thesis by (simp add: PTE_P_def)
  qed
  have "unat (take_bit 12 (perm OR PTE_P)) < 4096" by (simp add: take_bit_eq_mod unat_mod)
  then have "unat (perm OR PTE_P) < 4096" unfolding t .
  then show "PTE_ADDR (y OR perm OR PTE_P) = y" using PTE_ADDR_or_flags(1)[OF assms(1)] by (simp add: or.assoc)
  have "bit ((y OR perm OR PTE_P) AND PTE_P) 0" by (simp add: bit_simps PTE_P_def)
  then show "(y OR perm OR PTE_P) AND PTE_P \<noteq> 0" by auto
qed

lemma offset_split: "PGROUNDDOWN x + (x AND 0xFFF) = x"
proof -
  have "unat (PGROUNDDOWN x) + unat (x AND 0xFFF) = unat x"
    unfolding mask12 by (simp add: unat_PGROUNDDOWN and_mask12 unat_mod)
  then have "unat (PGROUNDDOWN x + (x AND 0xFFF)) = unat x" using unat_lt32[of x] by (subst unat_plus_if') simp
  then show ?thesis by (simp add: word_unat_eq_iff)
qed

lemma range_page:
  assumes "va mod PGSIZE = 0" "unat va + unat sz \<le> 2 ^ 32" "x - va < sz"
  shows "PGROUNDDOWN x = va + of_nat (unat (x - va) div 4096) * PGSIZE"
    "x - va = of_nat (unat (x - va) div 4096) * PGSIZE + (x AND 0xFFF)"
    "unat (x - va) div 4096 \<le> (unat sz - 1) div 4096"
proof -
  let ?i = "unat (x - va) div 4096"
  obtain k where k: "unat va = 4096 * k" using page_aligned[OF assms(1)] .
  have lt: "unat (x - va) < unat sz" using assms(3) by (simp add: word_less_nat_alt)
  then show "?i \<le> (unat sz - 1) div 4096" by (intro div_le_mono) simp
  have "unat (va + (x - va)) = unat va + unat (x - va)" using lt assms(2) by (subst unat_plus_if') simp
  then have u: "unat x = 4096 * k + unat (x - va)" using k by simp
  have i: "unat (of_nat ?i * PGSIZE) = ?i * 4096"
    by (rule unat_pages) (use lt unat_lt32[of sz] div_times_less_eq_dividend[of "unat (x - va)" 4096] in linarith)
  have "?i * 4096 \<le> unat (x - va)" by (rule div_times_less_eq_dividend)
  then have "unat va + ?i * 4096 < 2 ^ 32" using lt assms(2) by linarith
  then have "unat (va + of_nat ?i * PGSIZE) = unat va + ?i * 4096" using i by (subst unat_plus_if') simp
  then show p: "PGROUNDDOWN x = va + of_nat ?i * PGSIZE"
    by (simp add: word_unat_eq_iff unat_PGROUNDDOWN u k)
  show "x - va = of_nat ?i * PGSIZE + (x AND 0xFFF)" using offset_split[of x] unfolding p by (simp add: algebra_simps)
qed

lemma mappages_pages:
  assumes "va mod PGSIZE = 0" "sz \<noteq> 0" "unat va + unat sz \<le> 2 ^ 32"
  shows "mappages d va sz pa perm s = mappages_loop ((unat sz - 1) div 4096) d va pa perm s"
    "unat va + 4096 * ((unat sz - 1) div 4096) + 4096 \<le> 2 ^ 32"
proof -
  obtain k where k: "unat va = 4096 * k" "k < 1048576" using page_aligned[OF assms(1)] .
  have z: "0 < unat sz" using assms(2) by (simp add: unat_gt_0)
  have "unat (sz - 1) = unat sz - 1" using assms(2) by (rule unat_minus_one)
  then have "unat (va + (sz - 1)) = 4096 * k + (unat sz - 1)" using z assms(3) k by (subst unat_plus_if') simp
  then have l: "unat (PGROUNDDOWN (va + sz - 1)) = 4096 * k + (unat sz - 1) div 4096 * 4096"
    by (simp add: unat_PGROUNDDOWN algebra_simps)
  moreover have "PGROUNDDOWN va = va" using assms(1) by (simp add: PGROUNDDOWN_id PGSIZE_def)
  ultimately show "mappages d va sz pa perm s = mappages_loop ((unat sz - 1) div 4096) d va pa perm s"
    using k by (simp add: mappages_def Let_def unat_sub word_le_nat_alt)
  have "(4096 * k + (unat sz - 1)) div 4096 < 1048576" using z assms(3) k by (intro less_mult_imp_div_less) simp
  then show "unat va + 4096 * ((unat sz - 1) div 4096) + 4096 \<le> 2 ^ 32" using k by simp
qed


lemma pgdir_one_page: "pgdir_ok one_page 0x80200000 [0x80400000]"
  using kpool_one_page by (simp add: pgdir_ok_def pde_def one_page_def load32_def un32_def PGSIZE_def)


end
