(* ===== verification/Proc.thy ===== *)
theory Proc
  imports Vm
begin

text \<open>
  The process table and the scheduler: \<open>kernel/proc.c\<close> without the system
  calls that need the file system, and \<open>switchuvm\<close> of \<open>kernel/vm.c\<close>.

  A process is named by its index in \<open>ptable.proc\<close>; the null pointer is
  \<open>None\<close>.  Pointers into kernel memory (\<open>kstack\<close>, \<open>tf\<close>,
  \<open>pcontext\<close>, \<open>pgdir\<close>, \<open>mmt_start\<close>, \<open>mme\<close>) are
  addresses.  Open files and the current directory are indices into the file table
  and the inode cache.

  A kernel thread gives up the processor in \<open>sched\<close>, by \<open>swtch\<close>.  The
  outcome is then \<open>Switch\<close> with the state that the next thread sees.  What a
  thread does after it is switched to again is a definition of its own, named
  \<open>..._resume\<close>, whose arguments are the local variables that were on its
  kernel stack.

  Not modelled: the registers \<open>swtch\<close> saves.  \<open>procdump\<close> is in theory
  Console.
\<close>

section \<open>State\<close>

datatype procstate = UNUSED | EMBRYO | SLEEPING | RUNNABLE | RUNNING | ZOMBIE

record proc =
  psz :: uint
  cpu_ticks :: int
  cpu_util :: int
  cpu_runnable_ticks :: int
  cpu_wait :: int
  pgdir :: uint
  mmt_start :: uint
  mme :: uint
  pspace :: uint
  kstack :: uint
  pstate :: procstate
  pid :: uint
  parent :: "nat option"
  tf :: uint
  pcontext :: uint
  pchan :: chan
  killed :: bool
  ofile :: "nat option list"
  cwd :: "nat option"
  pname :: "byte list"

record ptab = vmst +
  procs :: "proc list"
  initproc :: "nat option"
  nextpid :: uint
  rrindex :: nat
  ticks :: uint
  sym_trapret :: uint
  sym_forkret :: uint

definition NPROC :: nat where "NPROC = 64"
definition HW3_cpu_util :: bool where "HW3_cpu_util = False"
definition KSTACKSIZE :: uint where "KSTACKSIZE = 4096"

definition upd_proc :: "nat \<Rightarrow> (proc \<Rightarrow> proc) \<Rightarrow> ('x) ptab_scheme \<Rightarrow> ('x) ptab_scheme" where
  "upd_proc p f s = s\<lparr>procs := (procs s)[p := f (procs s ! p)]\<rparr>"

text \<open>The first index in the process table that satisfies a test.\<close>

definition find_proc :: "(proc \<Rightarrow> bool) \<Rightarrow> ('x) ptab_scheme \<Rightarrow> nat option" where
  "find_proc P s = List.find (\<lambda>i. P (procs s ! i)) [0..<NPROC]"

section \<open>The current process\<close>

definition pinit :: "('x) mach_scheme \<Rightarrow> ('x) mach_scheme" where
  "pinit s = initlock L_ptable ''ptable'' s"

definition cpuid :: "('x) mach_scheme \<Rightarrow> (('x) mach_scheme, nat) outcome" where
  "cpuid s = mycpu s"

definition myproc :: "('x) mach_scheme \<Rightarrow> (('x) mach_scheme, nat option) outcome" where
  "myproc s =
     bnd (pushcli s) (\<lambda>_ s.
     bnd (mycpu s) (\<lambda>c s.
     let p = cproc (cpus s ! c) in
     bnd (popcli s) (\<lambda>_ s. Ret p s)))"

section \<open>Creating a process\<close>

text \<open>
  \<open>sizeof\<close> the trap frame is 76, of the context 20, and \<open>eip\<close> is the
  last word of the context.
\<close>

definition allocproc_stack :: "nat \<Rightarrow> ('x) ptab_scheme \<Rightarrow> (('x) ptab_scheme, nat option) outcome" where
  "allocproc_stack p s =
     bnd (kalloc s) (\<lambda>k s.
     let s = upd_proc p (\<lambda>q. q\<lparr>kstack := k\<rparr>) s in
     if k = 0 then Ret None (upd_proc p (\<lambda>q. q\<lparr>pstate := UNUSED\<rparr>) s)
     else
       let sp = k + KSTACKSIZE; sp = sp - 76;
           s = upd_proc p (\<lambda>q. q\<lparr>tf := sp\<rparr>) s;
           sp = sp - 4;
           s = wr32 sp (sym_trapret s) s;
           sp = sp - 20;
           s = upd_proc p (\<lambda>q. q\<lparr>pcontext := sp\<rparr>) s;
           s = s\<lparr>mem := memset sp 0 20 (mem s)\<rparr>;
           s = wr32 (sp + 16) (sym_forkret s) s;
           s = (if HW3_cpu_util
                then upd_proc p (\<lambda>q. q\<lparr>cpu_util := 0, cpu_ticks := 0, cpu_runnable_ticks := 0, cpu_wait := 0\<rparr>) s
                else s);
           s = upd_proc p (\<lambda>q. q\<lparr>mme := - 1\<rparr>) s in
       bnd (kalloc s) (\<lambda>m s.
       let s = upd_proc p (\<lambda>q. q\<lparr>mmt_start := m\<rparr>) s;
           s = upd_proc p (\<lambda>q. q\<lparr>pspace := 1\<rparr>) s in
       Ret (Some p) s))"

definition allocproc :: "('x) ptab_scheme \<Rightarrow> (('x) ptab_scheme, nat option) outcome" where
  "allocproc s =
     bnd (acquire L_ptable s) (\<lambda>_ s.
     case find_proc (\<lambda>p. pstate p = UNUSED) s of
       None \<Rightarrow> bnd (release L_ptable s) (\<lambda>_ s. Ret None s)
     | Some p \<Rightarrow>
       let s = upd_proc p (\<lambda>q. q\<lparr>pstate := EMBRYO\<rparr>) s;
           s = upd_proc p (\<lambda>q. q\<lparr>pid := nextpid s\<rparr>) s;
           s = s\<lparr>nextpid := nextpid s + 1\<rparr> in
       bnd (release L_ptable s) (\<lambda>_ s. allocproc_stack p s))"

section \<open>Scheduling\<close>

definition switchuvm :: "nat option \<Rightarrow> ('x) ptab_scheme \<Rightarrow> (('x) ptab_scheme, unit) outcome" where
  "switchuvm p s =
     (case p of None \<Rightarrow> Panic ''switchuvm: no process''
      | Some p \<Rightarrow>
        if kstack (procs s ! p) = 0 then Panic ''switchuvm: no kstack''
        else if pgdir (procs s ! p) = 0 then Panic ''switchuvm: no pgdir''
        else bnd (pushcli s) (\<lambda>_ s.
          bnd (mycpu s) (\<lambda>c s.
          let s = s\<lparr>hw_esp0 := (hw_esp0 s)(apicid (cpus s ! c) := kstack (procs s ! p) + KSTACKSIZE)\<rparr>;
              s = lcr3 (V2P (pgdir (procs s ! p))) s in
          popcli s)))"

definition roundrobin :: "('x) ptab_scheme \<Rightarrow> nat option \<times> ('x) ptab_scheme" where
  "roundrobin s =
     (case List.find (\<lambda>p. pstate (procs s ! p) = RUNNABLE)
             (map (\<lambda>i. (i + rrindex s + 1) mod NPROC) [0..<NPROC]) of
        Some p \<Rightarrow> (Some p, s\<lparr>rrindex := p\<rparr>)
      | None \<Rightarrow> (None, s))"

definition sched :: "('x) ptab_scheme \<Rightarrow> (('x) ptab_scheme, unit) outcome" where
  "sched s =
     bnd (mycpu s) (\<lambda>c s.
     bnd (holding L_ptable s) (\<lambda>h s.
     if \<not> h then Panic ''sched ptable.lock''
     else if ncli (cpus s ! c) \<noteq> 1 then Panic ''sched locks''
     else if readeflags_IF s then Panic ''sched interruptible''
     else if (case cproc (cpus s ! c) of Some p \<Rightarrow> pstate (procs s ! p) = RUNNING | None \<Rightarrow> False)
     then Panic ''sched running''
     else case roundrobin s of
         (Some p, s) \<Rightarrow>
           let s = upd_proc p (\<lambda>q. q\<lparr>pstate := RUNNING\<rparr>) s in
           bnd (switchuvm (Some p) s) (\<lambda>_ s.
           if cproc (cpus s ! c) \<noteq> Some p
           then Switch (upd_cpu c (\<lambda>k. k\<lparr>cproc := Some p\<rparr>) s)
           else Ret () s)
       | (None, s) \<Rightarrow>
           let s = switchkvm s in
           if cproc (cpus s ! c) \<noteq> None
           then Switch (upd_cpu c (\<lambda>k. k\<lparr>cproc := None\<rparr>) s)
           else Ret () s))"

definition sched_resume :: "bool \<Rightarrow> ('x) ptab_scheme \<Rightarrow> (('x) ptab_scheme, unit) outcome" where
  "sched_resume ie s =
     bnd (mycpu s) (\<lambda>c s. Ret () (upd_cpu c (\<lambda>k. k\<lparr>intena := ie\<rparr>) s))"

definition reschedule :: "('x) ptab_scheme \<Rightarrow> (('x) ptab_scheme, unit) outcome" where
  "reschedule s =
     bnd (mycpu s) (\<lambda>c s.
     bnd (acquire L_ptable s) (\<lambda>_ s.
     bnd (case cproc (cpus s ! c) of
            None \<Rightarrow> Ret () s
          | Some p \<Rightarrow>
              if pstate (procs s ! p) \<noteq> RUNNING then Panic ''current process not in running state''
              else Ret () (upd_proc p (\<lambda>q. q\<lparr>pstate := RUNNABLE\<rparr>) s)) (\<lambda>_ s.
     bnd (sched s) (\<lambda>_ s.
     release L_ptable s))))"

text \<open>40 is the offset of \<open>state\<close> in \<open>struct proc\<close>.\<close>

definition yield :: "('x) ptab_scheme \<Rightarrow> (('x) ptab_scheme, unit) outcome" where
  "yield s =
     bnd (acquire L_ptable s) (\<lambda>_ s.
     bnd (myproc s) (\<lambda>p s.
     case p of None \<Rightarrow> Fault 40
     | Some p \<Rightarrow>
       let s = upd_proc p (\<lambda>q. q\<lparr>pstate := RUNNABLE\<rparr>) s in
       bnd (sched s) (\<lambda>_ s.
       release L_ptable s)))"

text \<open>\<open>yield\<close> and \<open>reschedule\<close> after the switch back.\<close>

definition yield_resume :: "bool \<Rightarrow> ('x) ptab_scheme \<Rightarrow> (('x) ptab_scheme, unit) outcome" where
  "yield_resume ie s = bnd (sched_resume ie s) (\<lambda>_ s. release L_ptable s)"

section \<open>Sleeping and waking up\<close>

definition sleep_tail :: "nat \<Rightarrow> lockid \<Rightarrow> ('x) ptab_scheme \<Rightarrow> (('x) ptab_scheme, unit) outcome" where
  "sleep_tail p lk s =
     (let s = upd_proc p (\<lambda>q. q\<lparr>pchan := Ch_none\<rparr>) s in
      if lk \<noteq> L_ptable
      then bnd (release L_ptable s) (\<lambda>_ s. acquire lk s)
      else Ret () s)"

definition sleep :: "chan \<Rightarrow> lockid \<Rightarrow> ('x) ptab_scheme \<Rightarrow> (('x) ptab_scheme, unit) outcome" where
  "sleep ch lk s =
     bnd (myproc s) (\<lambda>p s.
     case p of None \<Rightarrow> Panic ''sleep''
     | Some p \<Rightarrow>
       bnd (if lk \<noteq> L_ptable
            then bnd (acquire L_ptable s) (\<lambda>_ s. release lk s)
            else Ret () s) (\<lambda>_ s.
       let s = upd_proc p (\<lambda>q. q\<lparr>pchan := ch\<rparr>) s;
           s = upd_proc p (\<lambda>q. q\<lparr>pstate := SLEEPING\<rparr>) s in
       bnd (sched s) (\<lambda>_ s. sleep_tail p lk s)))"

definition sleep_resume :: "nat \<Rightarrow> bool \<Rightarrow> lockid \<Rightarrow> ('x) ptab_scheme \<Rightarrow> (('x) ptab_scheme, unit) outcome" where
  "sleep_resume p ie lk s = bnd (sched_resume ie s) (\<lambda>_ s. sleep_tail p lk s)"

definition wakeup1 :: "chan \<Rightarrow> ('x) ptab_scheme \<Rightarrow> ('x) ptab_scheme" where
  "wakeup1 ch s =
     s\<lparr>procs := map (\<lambda>p. if pstate p = SLEEPING \<and> pchan p = ch then p\<lparr>pstate := RUNNABLE\<rparr> else p) (procs s)\<rparr>"

definition wakeup :: "chan \<Rightarrow> ('x) ptab_scheme \<Rightarrow> (('x) ptab_scheme, unit) outcome" where
  "wakeup ch s =
     bnd (acquire L_ptable s) (\<lambda>_ s.
     let s = wakeup1 ch s in
     release L_ptable s)"

definition kill :: "uint \<Rightarrow> ('x) ptab_scheme \<Rightarrow> (('x) ptab_scheme, int) outcome" where
  "kill n s =
     bnd (acquire L_ptable s) (\<lambda>_ s.
     case find_proc (\<lambda>p. pid p = n) s of
       Some p \<Rightarrow>
         let s = upd_proc p (\<lambda>q. q\<lparr>killed := True\<rparr>) s;
             s = (if pstate (procs s ! p) = SLEEPING then upd_proc p (\<lambda>q. q\<lparr>pstate := RUNNABLE\<rparr>) s else s) in
         bnd (release L_ptable s) (\<lambda>_ s. Ret 0 s)
     | None \<Rightarrow> bnd (release L_ptable s) (\<lambda>_ s. Ret (- 1) s))"

section \<open>Critical sections of \<open>fork\<close>, \<open>exit\<close> and \<open>wait\<close>\<close>

text \<open>The end of \<open>fork\<close> and of \<open>userinit\<close>.\<close>

definition make_runnable :: "nat \<Rightarrow> ('x) ptab_scheme \<Rightarrow> (('x) ptab_scheme, unit) outcome" where
  "make_runnable np s =
     bnd (acquire L_ptable s) (\<lambda>_ s.
     let s = upd_proc np (\<lambda>q. q\<lparr>pstate := RUNNABLE\<rparr>) s in
     release L_ptable s)"

text \<open>
  \<open>exit\<close> from taking the process table lock to the end.  The channel of a
  null parent pointer is no channel of a sleeper.
\<close>

definition proc_chan :: "nat option \<Rightarrow> chan" where
  "proc_chan p = (case p of None \<Rightarrow> Ch_none | Some p \<Rightarrow> Ch_proc p)"

fun reparent :: "nat list \<Rightarrow> nat \<Rightarrow> ('x) ptab_scheme \<Rightarrow> ('x) ptab_scheme" where
  "reparent [] curproc s = s"
| "reparent (p # ps) curproc s =
     reparent ps curproc
       (if parent (procs s ! p) = Some curproc
        then let s = upd_proc p (\<lambda>q. q\<lparr>parent := initproc s\<rparr>) s in
             if pstate (procs s ! p) = ZOMBIE then wakeup1 (proc_chan (initproc s)) s else s
        else s)"

definition exit_sched :: "nat \<Rightarrow> ('x) ptab_scheme \<Rightarrow> (('x) ptab_scheme, unit) outcome" where
  "exit_sched curproc s =
     bnd (acquire L_ptable s) (\<lambda>_ s.
     let s = wakeup1 (proc_chan (parent (procs s ! curproc))) s;
         s = reparent [0..<NPROC] curproc s;
         s = upd_proc curproc (\<lambda>q. q\<lparr>pstate := ZOMBIE\<rparr>) s in
     bnd (sched s) (\<lambda>_ s. Panic ''zombie exit''))"

text \<open>\<open>wait\<close>: one pass over the table, up to returning or going to sleep.\<close>

fun wait_scan ::
  "nat list \<Rightarrow> nat option \<Rightarrow> bool \<Rightarrow> ('x) ptab_scheme \<Rightarrow> (('x) ptab_scheme, uint option \<times> bool) outcome" where
  "wait_scan [] curproc havekids s = Ret (None, havekids) s"
| "wait_scan (p # ps) curproc havekids s =
     (if parent (procs s ! p) \<noteq> curproc then wait_scan ps curproc havekids s
      else if pstate (procs s ! p) = ZOMBIE
      then let n = pid (procs s ! p) in
        bnd (kfree (kstack (procs s ! p)) s) (\<lambda>_ s.
        let s = upd_proc p (\<lambda>q. q\<lparr>kstack := 0\<rparr>) s in
        bnd (freevm (pgdir (procs s ! p)) s) (\<lambda>_ s.
        let s = upd_proc p (\<lambda>q. q\<lparr>pid := 0, parent := None, pname := (pname q)[0 := 0],
                                     killed := False, pstate := UNUSED\<rparr>) s in
        Ret (Some n, True) s))
      else wait_scan ps curproc True s)"

text \<open>
  \<open>sleep\<close> does not return in the same run: the caller is \<open>SLEEPING\<close>
  and the scheduler chooses a \<open>RUNNABLE\<close> process.  64 is the offset of
  \<open>killed\<close> in \<open>struct proc\<close>.
\<close>

definition wait_pass :: "nat option \<Rightarrow> ('x) ptab_scheme \<Rightarrow> (('x) ptab_scheme, uint) outcome" where
  "wait_pass curproc s =
     bnd (wait_scan [0..<NPROC] curproc False s) (\<lambda>(r, havekids) s.
     case r of
       Some n \<Rightarrow> bnd (release L_ptable s) (\<lambda>_ s. Ret n s)
     | None \<Rightarrow>
       if \<not> havekids then bnd (release L_ptable s) (\<lambda>_ s. Ret (- 1) s)
       else case curproc of
         None \<Rightarrow> Fault 64
       | Some c \<Rightarrow>
         if killed (procs s ! c)
         then bnd (release L_ptable s) (\<lambda>_ s. Ret (- 1) s)
         else bnd (sleep (Ch_proc c) L_ptable s) (\<lambda>_ s. OutOfFuel))"

definition wait :: "('x) ptab_scheme \<Rightarrow> (('x) ptab_scheme, uint) outcome" where
  "wait s =
     bnd (myproc s) (\<lambda>curproc s.
     bnd (acquire L_ptable s) (\<lambda>_ s.
     wait_pass curproc s))"

definition wait_resume :: "nat \<Rightarrow> bool \<Rightarrow> ('x) ptab_scheme \<Rightarrow> (('x) ptab_scheme, uint) outcome" where
  "wait_resume curproc ie s =
     bnd (sleep_resume curproc ie L_ptable s) (\<lambda>_ s. wait_pass (Some curproc) s)"

section \<open>Accounting\<close>

definition proc_update_ticks :: "('x) ptab_scheme \<Rightarrow> (('x) ptab_scheme, unit) outcome" where
  "proc_update_ticks s =
     bnd (acquire L_ptable s) (\<lambda>_ s.
     let s = s\<lparr>procs := map (\<lambda>p.
           if pstate p = RUNNING then p\<lparr>cpu_ticks := cpu_ticks p + 1\<rparr>
           else if pstate p = RUNNABLE then p\<lparr>cpu_runnable_ticks := cpu_runnable_ticks p + 1\<rparr>
           else p) (procs s)\<rparr> in
     release L_ptable s)"

text \<open>
  \<open>cpu_util *= .5\<close> converts the product back to \<open>int\<close>, towards 0; so
  does \<open>cpu_wait /= 2\<close>.
\<close>

definition half :: "int \<Rightarrow> int" where
  "half x = (if 0 \<le> x then x div 2 else - ((- x) div 2))"

definition decay :: "proc \<Rightarrow> proc" where
  "decay p =
     (let p = p\<lparr>cpu_util := half (cpu_util p)\<rparr>;
          p = p\<lparr>cpu_util := cpu_util p + cpu_ticks p\<rparr>;
          p = (if cpu_util p > 100 then p\<lparr>cpu_util := 100\<rparr> else p);
          p = p\<lparr>cpu_ticks := 0\<rparr>;
          p = (if cpu_wait p = 0 then p\<lparr>cpu_wait := cpu_runnable_ticks p\<rparr>
               else let p = p\<lparr>cpu_wait := cpu_wait p + cpu_runnable_ticks p\<rparr> in
                    p\<lparr>cpu_wait := half (cpu_wait p)\<rparr>) in
      p\<lparr>cpu_runnable_ticks := 0\<rparr>)"

definition proc_cpu_util :: "('x) ptab_scheme \<Rightarrow> (('x) ptab_scheme, unit) outcome" where
  "proc_cpu_util s =
     bnd (acquire L_ptable s) (\<lambda>_ s.
     let s = s\<lparr>procs := map decay (procs s)\<rparr> in
     release L_ptable s)"


section \<open>Framing\<close>

lemma mach_upd_kpgdir [simp]:
  "this_cpu (s\<lparr>kpgdir := a\<rparr>) = this_cpu s" "cli_ok (s\<lparr>kpgdir := a\<rparr>) = cli_ok s"
  "lk_free l (s\<lparr>kpgdir := a\<rparr>) = lk_free l s" "kmem_ready (s\<lparr>kpgdir := a\<rparr>) = kmem_ready s"
  "readeflags_IF (s\<lparr>kpgdir := a\<rparr>) = readeflags_IF s"
  by (simp_all add: this_cpu_def cli_ok_def readeflags_IF_def lk_free_def kmem_ready_def)

lemma mach_upd_hw_cr3 [simp]:
  "this_cpu (s\<lparr>hw_cr3 := a\<rparr>) = this_cpu s" "cli_ok (s\<lparr>hw_cr3 := a\<rparr>) = cli_ok s"
  "lk_free l (s\<lparr>hw_cr3 := a\<rparr>) = lk_free l s" "kmem_ready (s\<lparr>hw_cr3 := a\<rparr>) = kmem_ready s"
  "readeflags_IF (s\<lparr>hw_cr3 := a\<rparr>) = readeflags_IF s"
  by (simp_all add: this_cpu_def cli_ok_def readeflags_IF_def lk_free_def kmem_ready_def)

lemma mach_upd_hw_esp0 [simp]:
  "this_cpu (s\<lparr>hw_esp0 := a\<rparr>) = this_cpu s" "cli_ok (s\<lparr>hw_esp0 := a\<rparr>) = cli_ok s"
  "lk_free l (s\<lparr>hw_esp0 := a\<rparr>) = lk_free l s" "kmem_ready (s\<lparr>hw_esp0 := a\<rparr>) = kmem_ready s"
  "readeflags_IF (s\<lparr>hw_esp0 := a\<rparr>) = readeflags_IF s"
  by (simp_all add: this_cpu_def cli_ok_def readeflags_IF_def lk_free_def kmem_ready_def)

lemma mach_upd_procs [simp]:
  "this_cpu (s\<lparr>procs := a\<rparr>) = this_cpu s" "cli_ok (s\<lparr>procs := a\<rparr>) = cli_ok s"
  "lk_free l (s\<lparr>procs := a\<rparr>) = lk_free l s" "kmem_ready (s\<lparr>procs := a\<rparr>) = kmem_ready s"
  "readeflags_IF (s\<lparr>procs := a\<rparr>) = readeflags_IF s"
  by (simp_all add: this_cpu_def cli_ok_def readeflags_IF_def lk_free_def kmem_ready_def)

lemma mach_upd_initproc [simp]:
  "this_cpu (s\<lparr>initproc := a\<rparr>) = this_cpu s" "cli_ok (s\<lparr>initproc := a\<rparr>) = cli_ok s"
  "lk_free l (s\<lparr>initproc := a\<rparr>) = lk_free l s" "kmem_ready (s\<lparr>initproc := a\<rparr>) = kmem_ready s"
  "readeflags_IF (s\<lparr>initproc := a\<rparr>) = readeflags_IF s"
  by (simp_all add: this_cpu_def cli_ok_def readeflags_IF_def lk_free_def kmem_ready_def)

lemma mach_upd_nextpid [simp]:
  "this_cpu (s\<lparr>nextpid := a\<rparr>) = this_cpu s" "cli_ok (s\<lparr>nextpid := a\<rparr>) = cli_ok s"
  "lk_free l (s\<lparr>nextpid := a\<rparr>) = lk_free l s" "kmem_ready (s\<lparr>nextpid := a\<rparr>) = kmem_ready s"
  "readeflags_IF (s\<lparr>nextpid := a\<rparr>) = readeflags_IF s"
  by (simp_all add: this_cpu_def cli_ok_def readeflags_IF_def lk_free_def kmem_ready_def)

lemma mach_upd_rrindex [simp]:
  "this_cpu (s\<lparr>rrindex := a\<rparr>) = this_cpu s" "cli_ok (s\<lparr>rrindex := a\<rparr>) = cli_ok s"
  "lk_free l (s\<lparr>rrindex := a\<rparr>) = lk_free l s" "kmem_ready (s\<lparr>rrindex := a\<rparr>) = kmem_ready s"
  "readeflags_IF (s\<lparr>rrindex := a\<rparr>) = readeflags_IF s"
  by (simp_all add: this_cpu_def cli_ok_def readeflags_IF_def lk_free_def kmem_ready_def)

lemma mach_upd_ticks [simp]:
  "this_cpu (s\<lparr>ticks := a\<rparr>) = this_cpu s" "cli_ok (s\<lparr>ticks := a\<rparr>) = cli_ok s"
  "lk_free l (s\<lparr>ticks := a\<rparr>) = lk_free l s" "kmem_ready (s\<lparr>ticks := a\<rparr>) = kmem_ready s"
  "readeflags_IF (s\<lparr>ticks := a\<rparr>) = readeflags_IF s"
  by (simp_all add: this_cpu_def cli_ok_def readeflags_IF_def lk_free_def kmem_ready_def)

lemma frame_sel:
  assumes "frame s t"
  shows "procs t = procs s" "rrindex t = rrindex s" "nextpid t = nextpid s" "initproc t = initproc s"
  using assms by (cases s; cases t; simp add: frame_def)+

lemma frame_myproc:
  assumes "myproc s = Ret p t" and "ncpu s \<le> length (cpus s)"
  shows "frame s t \<and> (\<exists>c. this_cpu s = Some c \<and> p = cproc (cpus t ! c))"
proof -
  from assms(1) obtain s1 c s2 where 1: "pushcli s = Ret () s1" and 2: "mycpu s1 = Ret c s2"
    and 3: "p = cproc (cpus s2 ! c)" and 4: "popcli s2 = Ret () t"
    by (auto simp: myproc_def Let_def)
  have s12: "s2 = s1" "this_cpu s1 = Some c" using mycpu_RetD[OF 2] by auto
  have f: "frame s s1" "frame s1 t" using frame_pushcli[OF 1] frame_popcli[OF 4] s12 by auto
  then have "this_cpu s = Some c" using frame_this_cpu[OF f(1) assms(2)] s12 by simp
  moreover have "c < length (cpus s)"
    using calculation assms(2) by (auto simp: this_cpu_def find_Some_iff)
  then have "cproc (cpus t ! c) = cproc (cpus s1 ! c)"
    using f unfolding frame_def by (metis nth_map)
  ultimately show ?thesis using 3 s12 frame_trans[OF f] by auto
qed

end
