(* ===== verification/Sched.thy ===== *)
theory Sched
  imports Proc
begin

text \<open>
  The scheduler of \<open>kernel/proc.c\<close>: the round-robin choice is fair, and in
  every interleaving of the routines that schedule, put to sleep, wake up, kill,
  create and collect processes, no process runs on two processors.
\<close>

section \<open>The round-robin choice\<close>

lemma roundrobin_procs [simp]: "procs (snd (roundrobin s)) = procs s"
  by (simp add: roundrobin_def split: option.splits)

text \<open>How many slots after the one chosen last the search reaches slot \<open>i\<close>.\<close>

definition rr_dist :: "nat \<Rightarrow> nat \<Rightarrow> nat" where
  "rr_dist r i = (if r < i then i - r - 1 else i + 63 - r)"

lemma rr_next: "(r :: nat) < 64 \<Longrightarrow> k < 64 \<Longrightarrow> (k + r + 1) mod 64 = (if k + r + 1 < 64 then k + r + 1 else k + r - 63)"
  by (simp add: mod_if)

lemma rr_dist_less: "r < 64 \<Longrightarrow> i < 64 \<Longrightarrow> rr_dist r i < 64"
  by (auto simp: rr_dist_def)

lemma rr_dist_inv: "r < 64 \<Longrightarrow> i < 64 \<Longrightarrow> (rr_dist r i + r + 1) mod 64 = i"
  unfolding rr_next[OF _ rr_dist_less] by (auto simp: rr_dist_def)

lemma rr_dist_step:
  assumes "r < 64" "k < 64" "i < 64" "k < rr_dist r i"
  shows "rr_dist ((k + r + 1) mod 64) i < rr_dist r i"
  using assms(3,4) assms(1) unfolding rr_next[OF assms(1,2)] rr_dist_def
  by (cases "r < i"; cases "k + r + 1 < 64") auto

lemma roundrobin_find:
  assumes "i < NPROC" "pstate (procs s ! i) = RUNNABLE" "rrindex s < NPROC"
  obtains k where "k \<le> rr_dist (rrindex s) i" "k < 64" "fst (roundrobin s) = Some ((k + rrindex s + 1) mod 64)"
    "rrindex (snd (roundrobin s)) = (k + rrindex s + 1) mod 64"
    "pstate (procs s ! ((k + rrindex s + 1) mod 64)) = RUNNABLE"
    "k = rr_dist (rrindex s) i \<Longrightarrow> (k + rrindex s + 1) mod 64 = i"
proof -
  let ?f = "\<lambda>k. (k + rrindex s + 1) mod 64" and ?P = "\<lambda>p. pstate (procs s ! p) = RUNNABLE"
  let ?d = "rr_dist (rrindex s) i"
  have d: "?d < 64" "?f ?d = i"
    using rr_dist_inv[of "rrindex s" i] rr_dist_less[of "rrindex s" i] assms by (auto simp: NPROC_def)
  define k where "k = (LEAST k. ?P (?f k))"
  have P: "?P (?f ?d)" using assms d by simp
  have k: "?P (?f k)" "k \<le> ?d" "\<And>j. j < k \<Longrightarrow> \<not> ?P (?f j)"
    unfolding k_def using LeastI[of "\<lambda>k. ?P (?f k)", OF P] Least_le[of "\<lambda>k. ?P (?f k)", OF P]
      not_less_Least[of _ "\<lambda>k. ?P (?f k)"] by blast+
  have "List.find ?P (map ?f [0..<64]) = Some (?f k)"
    unfolding find_Some_iff using k d by (intro exI[of _ k]) auto
  then have "fst (roundrobin s) = Some (?f k)" "rrindex (snd (roundrobin s)) = ?f k"
    by (simp_all add: roundrobin_def NPROC_def)
  then show ?thesis using that k d by auto
qed

lemma roundrobin_SomeD:
  assumes "roundrobin s = (Some p, t)"
  shows "p < NPROC \<and> pstate (procs s ! p) = RUNNABLE \<and> t = s\<lparr>rrindex := p\<rparr>"
proof -
  have "List.find (\<lambda>p. pstate (procs s ! p) = RUNNABLE) (map (\<lambda>i. (i + rrindex s + 1) mod NPROC) [0..<NPROC]) = Some p"
    using assms by (auto simp: roundrobin_def split: option.splits)
  then have "p \<in> set (map (\<lambda>i. (i + rrindex s + 1) mod NPROC) [0..<NPROC])" "pstate (procs s ! p) = RUNNABLE"
    unfolding find_Some_iff by (metis nth_mem)+
  then show ?thesis using assms by (auto simp: roundrobin_def NPROC_def split: option.splits)
qed

lemma roundrobin_NoneD: "roundrobin s = (None, t) \<Longrightarrow> t = s"
  by (auto simp: roundrobin_def split: option.splits)

text \<open>
  C16.  No process starves in the round-robin scheduler: a process that stays
  runnable is chosen at the latest by the 64th call of \<open>roundrobin\<close>,
  whatever the other processes do between the calls.
\<close>

theorem roundrobin_no_starvation:
  fixes run :: "nat \<Rightarrow> ptab"
  assumes "\<And>k. rrindex (run (Suc k)) = rrindex (snd (roundrobin (run k)))" and "rrindex (run 0) < NPROC"
    and "i < NPROC" and "\<And>k. k < NPROC \<Longrightarrow> pstate (procs (run k) ! i) = RUNNABLE"
  shows "\<exists>k<NPROC. fst (roundrobin (run k)) = Some i"
proof (rule ccontr)
  assume "\<not> ?thesis"
  then have none: "fst (roundrobin (run k)) \<noteq> Some i" if "k < NPROC" for k using that by auto
  have "rrindex (run k) < NPROC \<and> rr_dist (rrindex (run k)) i + k < 64" if "k \<le> 63" for k
    using that
  proof (induction k)
    case 0
    then show ?case using assms(2,3) rr_dist_less[of "rrindex (run 0)" i] by (simp add: NPROC_def)
  next
    case (Suc k)
    let ?r = "rrindex (run k)"
    from Suc have IH: "?r < NPROC" "rr_dist ?r i + k < 64" "k < NPROC" by (auto simp: NPROC_def)
    obtain j where j: "j \<le> rr_dist ?r i" "j < 64" "fst (roundrobin (run k)) = Some ((j + ?r + 1) mod 64)"
      "rrindex (run (Suc k)) = (j + ?r + 1) mod 64" "j = rr_dist ?r i \<Longrightarrow> (j + ?r + 1) mod 64 = i"
      using roundrobin_find[OF assms(3) assms(4)[OF IH(3)] IH(1)] assms(1) by metis
    then have "j < rr_dist ?r i" using none[OF IH(3)] by (cases "j = rr_dist ?r i") auto
    then show ?case using rr_dist_step[of ?r j i] j IH assms(3) by (auto simp: NPROC_def)
  qed
  from this[of 63] have d: "rrindex (run 63) < NPROC" "rr_dist (rrindex (run 63)) i = 0" by auto
  have r: "pstate (procs (run 63) ! i) = RUNNABLE" by (rule assms(4)) (simp add: NPROC_def)
  obtain j where "j \<le> rr_dist (rrindex (run 63)) i" "fst (roundrobin (run 63)) = Some ((j + rrindex (run 63) + 1) mod 64)"
    "j = rr_dist (rrindex (run 63)) i \<Longrightarrow> (j + rrindex (run 63) + 1) mod 64 = i"
    using roundrobin_find[OF assms(3) r d(1)] by metis
  then show False using none[of 63] d by (auto simp: NPROC_def)
qed

section \<open>Who runs what\<close>

text \<open>The part of the state that says which processor runs which process.\<close>

definition pview :: "('x) ptab_scheme \<Rightarrow> byte \<times> nat \<times> nat option list \<times> byte list \<times> proc list" where
  "pview s = (hw_id s, ncpu s, map cproc (cpus s), map apicid (cpus s), procs s)"

lemma pview_kframe: "kframe s t \<Longrightarrow> pview t = pview s"
  by (cases s; cases t) (simp add: pview_def kframe_def)

lemmas pview_frame = pview_kframe[OF frame_kframe]
lemmas pview_acquire = pview_frame[OF frame_acquire]
lemmas pview_release = pview_frame[OF frame_release]

lemma pview_upd [simp]:
  "pview (s\<lparr>rrindex := r\<rparr>) = pview s" "pview (s\<lparr>nextpid := n\<rparr>) = pview s"
  "pview (s\<lparr>mem := m\<rparr>) = pview s" "pview (wr32 a v s) = pview s"
  by (simp_all add: pview_def wr32_def)

lemma pview_switchuvm:
  assumes "switchuvm p s = Ret u t"
  shows "pview t = pview s"
proof -
  obtain q s1 c s2 where 1: "pushcli s = Ret () s1" and 2: "mycpu s1 = Ret c s1"
    and 3: "popcli (lcr3 (V2P (pgdir (procs s1 ! q))) (s1\<lparr>hw_esp0 := (hw_esp0 s1)(apicid (cpus s1 ! c) := kstack (procs s1 ! q) + KSTACKSIZE)\<rparr>)) = Ret u t"
    using assms by (auto simp: switchuvm_def Let_def split: option.splits if_splits dest: mycpu_RetD)
  show ?thesis
    using pview_frame[OF frame_pushcli[OF 1]] pview_frame[OF frame_popcli[OF 3]]
    by (simp add: pview_def lcr3_def)
qed

lemma switchuvm_no_switch [simp]: "switchuvm p s \<noteq> Switch t"
  by (auto simp: switchuvm_def Let_def split: option.splits)

lemma pview_this_cpu:
  assumes "pview t = pview s" "ncpu s \<le> length (cpus s)"
  shows "this_cpu t = this_cpu s"
proof -
  have e: "hw_id t = hw_id s" "ncpu t = ncpu s" and m: "map apicid (cpus s) = map apicid (cpus t)"
    using assms(1) by (auto simp: pview_def)
  have "apicid (cpus t ! i) = apicid (cpus s ! i)" if "i < ncpu s" for i
    using map_eq_nth[OF m, of i] assms(2) that by simp
  then show ?thesis unfolding this_cpu_def e by (auto intro!: find_cong)
qed

text \<open>
  \<open>runs_ok X n cs as rs\<close>: processors with distinct identifiers run distinct
  processes, and the processes they run are exactly the \<open>RUNNING\<close> ones;
  except that the process of a processor in \<open>X\<close> has left that state.
\<close>

definition runs_ok :: "nat set \<Rightarrow> nat \<Rightarrow> nat option list \<Rightarrow> byte list \<Rightarrow> bool list \<Rightarrow> bool" where
  "runs_ok X n cs as rs \<longleftrightarrow>
     n \<le> length cs \<and> length as = length cs \<and> length rs = NPROC \<and>
     (\<forall>c d. c < n \<longrightarrow> d < n \<longrightarrow> as ! c = as ! d \<longrightarrow> c = d) \<and>
     (\<forall>c p. c < n \<longrightarrow> cs ! c = Some p \<longrightarrow> p < NPROC \<and> (rs ! p \<longleftrightarrow> c \<notin> X)) \<and>
     (\<forall>c d p. c < n \<longrightarrow> d < n \<longrightarrow> cs ! c = Some p \<longrightarrow> cs ! d = Some p \<longrightarrow> c = d) \<and>
     (\<forall>p<NPROC. rs ! p \<longrightarrow> (\<exists>c<n. cs ! c = Some p))"

lemma runs_ok_leave:
  assumes "runs_ok {} n cs as rs" "i < n" "cs ! i = Some p"
  shows "runs_ok {i} n cs as (rs[p := False])"
  using assms unfolding runs_ok_def by (auto simp: nth_list_update)

lemma runs_ok_leave_idle: "runs_ok {} n cs as rs \<Longrightarrow> cs ! i = None \<Longrightarrow> runs_ok {i} n cs as rs"
  unfolding runs_ok_def by auto

lemma runs_ok_enter:
  assumes "runs_ok {i} n cs as rs" "i < n" "p < NPROC" "\<not> rs ! p"
  shows "runs_ok {} n (cs[i := Some p]) as (rs[p := True])"
proof -
  have i: "i < length cs" using assms by (auto simp: runs_ok_def)
  have nr: "cs ! c \<noteq> Some p" if "c < n" "c \<noteq> i" for c
    using assms that by (auto simp: runs_ok_def)
  have "\<exists>c<n. cs[i := Some p] ! c = Some q" if q: "q < NPROC" "rs[p := True] ! q" for q
  proof (cases "q = p")
    case False
    then have "rs ! q" using q by simp
    then obtain c where "c < n" "cs ! c = Some q" using assms(1) q(1) by (auto simp: runs_ok_def)
    moreover have "c \<noteq> i" using calculation assms(1) \<open>rs ! q\<close> by (auto simp: runs_ok_def)
    ultimately show ?thesis by (intro exI[of _ c]) simp
  qed (use i assms in \<open>auto intro!: exI[of _ i]\<close>)
  then show ?thesis
    using assms i nr unfolding runs_ok_def by (simp add: nth_list_update) metis
qed

lemma runs_ok_idle:
  assumes "runs_ok {i} n cs as rs" "i < n"
  shows "runs_ok {} n (cs[i := None]) as rs"
proof -
  have "\<exists>c<n. cs[i := None] ! c = Some q" if q: "q < NPROC" "rs ! q" for q
  proof -
    obtain c where "c < n" "cs ! c = Some q" using assms(1) q by (auto simp: runs_ok_def)
    moreover have "c \<noteq> i" using calculation assms(1) q by (auto simp: runs_ok_def)
    ultimately show ?thesis by (intro exI[of _ c]) simp
  qed
  then show ?thesis using assms unfolding runs_ok_def by (simp add: nth_list_update)
qed

definition rinv_but :: "nat set \<Rightarrow> ('x) ptab_scheme \<Rightarrow> bool" where
  "rinv_but X s \<longleftrightarrow> runs_ok X (ncpu s) (map cproc (cpus s)) (map apicid (cpus s))
     (map (\<lambda>p. pstate p = RUNNING) (procs s))"

abbreviation rinv :: "('x) ptab_scheme \<Rightarrow> bool" where
  "rinv s \<equiv> rinv_but {} s"

lemma rinv_but_pview: "rinv_but X s \<Longrightarrow> pview t = pview s \<Longrightarrow> rinv_but X t"
  by (simp add: rinv_but_def pview_def)

lemma rinv_butD:
  assumes "rinv_but X s"
  shows "ncpu s \<le> length (cpus s)" "length (procs s) = NPROC"
  using assms by (auto simp: rinv_but_def runs_ok_def)

lemma upd_proc_sel [simp]:
  "procs (upd_proc p f s) = (procs s)[p := f (procs s ! p)]" "ncpu (upd_proc p f s) = ncpu s"
  "cpus (upd_proc p f s) = cpus s" "hw_id (upd_proc p f s) = hw_id s"
  "this_cpu (upd_proc p f s) = this_cpu s" "locks (upd_proc p f s) = locks s"
  "nextpid (upd_proc p f s) = nextpid s" "initproc (upd_proc p f s) = initproc s"
  by (simp_all add: upd_proc_def)

lemma upd_cpu_sel [simp]:
  "procs (upd_cpu c f s) = procs s" "ncpu (upd_cpu c f s) = ncpu s"
  "cpus (upd_cpu c f s) = (cpus s)[c := f (cpus s ! c)]" "hw_id (upd_cpu c f s) = hw_id s"
  by (simp_all add: upd_cpu_def)

text \<open>The scheduler, called by processor \<open>i\<close> whose process has left \<open>RUNNING\<close>.\<close>

lemma sched_rinv:
  assumes inv: "rinv_but {i} s" and cpu: "this_cpu s = Some i" and i: "i < ncpu s"
    and out: "sched s = Ret u t \<or> sched s = Switch t"
  shows "rinv t"
proof -
  let ?cs = "map cproc (cpus s)" and ?as = "map apicid (cpus s)"
  let ?rs = "map (\<lambda>p. pstate p = RUNNING) (procs s)"
  note len = rinv_butD[OF inv]
  have ok: "runs_ok {i} (ncpu s) ?cs ?as ?rs" using inv by (simp add: rinv_but_def)
  have my: "mycpu s = Ret i s" "holding L_ptable s = Ret True s"
    using out cpu by (auto simp: sched_def mycpu_def holding_def split: if_splits)
  obtain r s1 where rr: "roundrobin s = (r, s1)" by fastforce
  show ?thesis
  proof (cases r)
    case None
    then have s1: "s1 = s" using rr roundrobin_NoneD by auto
    have "t = upd_cpu i (\<lambda>k. k\<lparr>cproc := None\<rparr>) (switchkvm s) \<or>
        t = switchkvm s \<and> cproc (cpus s ! i) = None"
      using out my rr None s1
      by (auto simp: sched_def Let_def switchkvm_def lcr3_def split: if_splits)
    then have "map cproc (cpus t) = ?cs[i := None]" "map apicid (cpus t) = ?as" "ncpu t = ncpu s" "procs t = procs s"
      using i len list_update_id[of ?cs i] map_list_update_same[of apicid "\<lambda>k. k\<lparr>cproc := None\<rparr>"]
      by (auto simp: switchkvm_def lcr3_def map_update upd_cpu_def)
    then show ?thesis using runs_ok_idle[OF ok i] by (simp add: rinv_but_def)
  next
    case (Some p)
    then have p: "p < NPROC" "pstate (procs s ! p) = RUNNABLE" "s1 = s\<lparr>rrindex := p\<rparr>"
      using rr roundrobin_SomeD by auto
    define s2 where "s2 = upd_proc p (\<lambda>q. q\<lparr>pstate := RUNNING\<rparr>) s1"
    obtain s3 where sw: "switchuvm (Some p) s2 = Ret () s3"
      and t: "t = upd_cpu i (\<lambda>k. k\<lparr>cproc := Some p\<rparr>) s3 \<or> t = s3 \<and> cproc (cpus s3 ! i) = Some p"
      using out my rr Some
      by (cases "switchuvm (Some p) s2") (auto simp: sched_def Let_def s2_def split: if_splits)
    have v: "map cproc (cpus s3) = ?cs" "map apicid (cpus s3) = ?as" "ncpu s3 = ncpu s"
      "procs s3 = (procs s)[p := (procs s ! p)\<lparr>pstate := RUNNING\<rparr>]"
      using pview_switchuvm[OF sw] by (simp_all add: pview_def s2_def p)
    have l3: "length (cpus s3) = length (cpus s)" using v(1) by (metis length_map)
    have "map cproc (cpus t) = ?cs[i := Some p]" "map apicid (cpus t) = ?as" "ncpu t = ncpu s" "procs t = procs s3"
      using t v i len l3 list_update_id[of ?cs i] map_list_update_same[of apicid "\<lambda>k. k\<lparr>cproc := Some p\<rparr>" "cpus s3" i]
      by (auto simp: map_update upd_cpu_def) (metis list_update_id nth_map less_le_trans)
    moreover have "map (\<lambda>p. pstate p = RUNNING) (procs s3) = ?rs[p := True]"
      by (simp add: v map_update)
    moreover have "\<not> ?rs ! p" using p len by simp
    ultimately show ?thesis using runs_ok_enter[OF ok i p(1)] by (simp add: rinv_but_def)
  qed
qed

lemma rinv_upd:
  assumes "rinv_but X s" "(pstate (f (procs s ! p)) = RUNNING) = (pstate (procs s ! p) = RUNNING)"
  shows "rinv_but X (upd_proc p f s)"
proof -
  have "map (\<lambda>p. pstate p = RUNNING) ((procs s)[p := f (procs s ! p)]) = map (\<lambda>p. pstate p = RUNNING) (procs s)"
    using assms(2) by (cases "p < length (procs s)")
      (auto intro!: nth_equalityI simp: nth_list_update list_update_beyond split: if_splits)
  then show ?thesis using assms(1) by (simp add: rinv_but_def)
qed

lemma rinv_leave:
  assumes "rinv s" "i < ncpu s" "cproc (cpus s ! i) = Some p" "pstate (f (procs s ! p)) \<noteq> RUNNING"
  shows "rinv_but {i} (upd_proc p f s)"
  using runs_ok_leave[of "ncpu s" "map cproc (cpus s)" "map apicid (cpus s)" _ i p] assms rinv_butD[OF assms(1)]
  by (simp add: rinv_but_def map_update)

lemma rinv_leave_idle: "rinv s \<Longrightarrow> i < ncpu s \<Longrightarrow> cproc (cpus s ! i) = None \<Longrightarrow> rinv_but {i} s"
  using runs_ok_leave_idle[of "ncpu s" "map cproc (cpus s)" "map apicid (cpus s)" _ i] rinv_butD(1)[of "{}" s]
  by (simp add: rinv_but_def)

lemma wakeup1_sel [simp]:
  "ncpu (wakeup1 ch s) = ncpu s" "cpus (wakeup1 ch s) = cpus s" "hw_id (wakeup1 ch s) = hw_id s"
  "this_cpu (wakeup1 ch s) = this_cpu s" "locks (wakeup1 ch s) = locks s" "initproc (wakeup1 ch s) = initproc s"
  by (simp_all add: wakeup1_def)

lemma rinv_wakeup1:
  assumes "rinv_but X s"
  shows "rinv_but X (wakeup1 ch s)"
proof -
  have "map (\<lambda>p. pstate p = RUNNING) (procs (wakeup1 ch s)) = map (\<lambda>p. pstate p = RUNNING) (procs s)"
    by (simp add: wakeup1_def)
  then show ?thesis using assms by (simp add: rinv_but_def)
qed

lemma rinv_reparent: "rinv_but X s \<Longrightarrow> rinv_but X (reparent ps c s)"
proof (induction ps arbitrary: s)
  case (Cons p ps)
  have "rinv_but X (upd_proc p (\<lambda>q. q\<lparr>parent := initproc s\<rparr>) s)"
    using Cons.prems by (rule rinv_upd) simp
  then show ?case using Cons.prems by (auto simp: Let_def intro: Cons.IH rinv_wakeup1)
qed simp

definition ends :: "('s, 'a) outcome \<Rightarrow> 's \<Rightarrow> bool" where
  "ends m t \<longleftrightarrow> (\<exists>a. m = Ret a t) \<or> m = Switch t"

lemma ends_bnd: "ends (bnd m f) t \<longleftrightarrow> m = Switch t \<or> (\<exists>a s. m = Ret a s \<and> ends (f a s) t)"
  by (cases m) (auto simp: ends_def)

lemma ends_simps [simp]:
  "ends (Ret a s) t \<longleftrightarrow> t = s" "ends (Switch s) t \<longleftrightarrow> t = s" "\<not> ends (Panic m) t" "\<not> ends (Fault x) t"
  "\<not> ends OutOfFuel t" "\<not> ends Wild t" "\<not> ends (Spins l) t"
  by (auto simp: ends_def)

lemma ends_lock [simp]:
  "ends (acquire l s) t \<longleftrightarrow> acquire l s = Ret () t" "ends (release l s) t \<longleftrightarrow> release l s = Ret () t"
  by (auto simp: ends_def)

lemmas rinv_acquire = rinv_but_pview[OF _ pview_acquire]
lemmas rinv_release = rinv_but_pview[OF _ pview_release]

text \<open>What a routine of processor \<open>i\<close> may rely on.\<close>

definition on :: "nat \<Rightarrow> ('x) ptab_scheme \<Rightarrow> bool" where
  "on i s \<longleftrightarrow> rinv s \<and> this_cpu s = Some i \<and> i < ncpu s"

lemma on_pview:
  assumes "on i s" "pview t = pview s"
  shows "on i t \<and> cproc (cpus t ! i) = cproc (cpus s ! i) \<and> procs t = procs s"
proof -
  have n: "ncpu s \<le> length (cpus s)" using assms(1) rinv_butD(1) by (auto simp: on_def)
  have "map cproc (cpus s) = map cproc (cpus t)" using assms(2) by (simp add: pview_def)
  from map_eq_nth[OF this, of i] have "cproc (cpus t ! i) = cproc (cpus s ! i)"
    using assms(1) n by (simp add: on_def)
  then show ?thesis
    using assms pview_this_cpu[OF assms(2) n] rinv_but_pview[of "{}" s t] by (simp add: on_def pview_def)
qed

lemma on_myproc:
  assumes "on i s" "myproc s = Ret p t"
  shows "on i t \<and> p = cproc (cpus t ! i) \<and> cproc (cpus t ! i) = cproc (cpus s ! i) \<and> procs t = procs s"
proof -
  have "ncpu s \<le> length (cpus s)" using assms(1) rinv_butD(1) by (auto simp: on_def)
  from frame_myproc[OF assms(2) this] have f: "frame s t" and p: "p = cproc (cpus t ! i)"
    using assms(1) by (auto simp: on_def)
  show ?thesis using on_pview[OF assms(1) pview_frame[OF f]] p by simp
qed

lemma myproc_no_switch [simp]: "myproc s \<noteq> Switch t"
  by (auto simp: myproc_def Let_def)

lemma on_acquire: "on i s \<Longrightarrow> acquire l s = Ret u t \<Longrightarrow> on i t \<and> cproc (cpus t ! i) = cproc (cpus s ! i) \<and> procs t = procs s"
  using on_pview[OF _ pview_acquire] by blast

lemma on_release: "on i s \<Longrightarrow> release l s = Ret u t \<Longrightarrow> on i t \<and> cproc (cpus t ! i) = cproc (cpus s ! i) \<and> procs t = procs s"
  using on_pview[OF _ pview_release] by blast

lemma sched_leave:
  assumes "on i s" "cproc (cpus s ! i) = Some p" "pstate (f (procs s ! p)) \<noteq> RUNNING" "ends (sched (upd_proc p f s)) t"
  shows "rinv t"
  using sched_rinv[of i "upd_proc p f s" _ t] rinv_leave[of s i p f] assms by (auto simp: on_def ends_def)

lemma sched_idle:
  assumes "on i s" "cproc (cpus s ! i) = None" "ends (sched s) t"
  shows "rinv t"
  using sched_rinv[of i s _ t] rinv_leave_idle[of s i] assms by (auto simp: on_def ends_def)

lemma rinv_sleep_tail:
  assumes "rinv s" "ends (sleep_tail p lk s) t"
  shows "rinv t"
proof -
  define s1 where "s1 = upd_proc p (\<lambda>q. q\<lparr>pchan := Ch_none\<rparr>) s"
  have s1: "rinv s1" unfolding s1_def using assms(1) by (rule rinv_upd) simp
  show ?thesis
  proof (cases "lk = L_ptable")
    case True
    then show ?thesis using assms(2) s1 by (simp add: sleep_tail_def s1_def)
  next
    case False
    then obtain s2 where "release L_ptable s1 = Ret () s2" "acquire lk s2 = Ret () t"
      using assms(2) by (auto simp: sleep_tail_def s1_def Let_def ends_bnd)
    then show ?thesis using rinv_release[OF s1] rinv_acquire by blast
  qed
qed

text \<open>Every routine that may reschedule, and every one that touches process states.\<close>

lemma rinv_sleep:
  assumes "on i s" "ends (sleep ch lk s) t"
  shows "rinv t"
proof -
  obtain p s1 where 1: "myproc s = Ret (Some p) s1"
    using assms(2) by (auto simp: sleep_def ends_bnd split: option.splits)
  note s1 = on_myproc[OF assms(1) 1]
  obtain s2 where 2: "(if lk \<noteq> L_ptable then bnd (acquire L_ptable s1) (\<lambda>_ s. release lk s) else Ret () s1) = Ret () s2"
    and 3: "ends (bnd (sched (upd_proc p (\<lambda>q. q\<lparr>pstate := SLEEPING\<rparr>) (upd_proc p (\<lambda>q. q\<lparr>pchan := ch\<rparr>) s2)))
             (\<lambda>_ s. sleep_tail p lk s)) t"
    using assms(2) 1 by (auto simp: sleep_def ends_bnd Let_def split: if_splits)
  have s2: "on i s2 \<and> cproc (cpus s2 ! i) = Some p"
  proof (cases "lk = L_ptable")
    case True
    then show ?thesis using 2 s1 by simp
  next
    case False
    then obtain sa where a: "acquire L_ptable s1 = Ret () sa" and b: "release lk sa = Ret () s2" using 2 by auto
    show ?thesis using on_release[OF conjunct1[OF on_acquire[OF _ a]] b, of i] on_acquire[OF _ a, of i] s1 by simp
  qed
  define s3 where "s3 = upd_proc p (\<lambda>q. q\<lparr>pchan := ch\<rparr>) s2"
  have s3: "on i s3" "cproc (cpus s3 ! i) = Some p"
    using s2 rinv_upd[of "{}" s2 "\<lambda>q. q\<lparr>pchan := ch\<rparr>" p] by (auto simp: on_def s3_def)
  have r: "rinv u" if "ends (sched (upd_proc p (\<lambda>q. q\<lparr>pstate := SLEEPING\<rparr>) s3)) u" for u
    using sched_leave[OF s3, of "\<lambda>q. q\<lparr>pstate := SLEEPING\<rparr>" u] that s3 by simp
  have "ends (sched (upd_proc p (\<lambda>q. q\<lparr>pstate := SLEEPING\<rparr>) s3)) t \<or>
      (\<exists>u. ends (sched (upd_proc p (\<lambda>q. q\<lparr>pstate := SLEEPING\<rparr>) s3)) u \<and> ends (sleep_tail p lk u) t)"
    using 3 unfolding s3_def[symmetric] ends_bnd by (auto simp: ends_def)
  then show ?thesis using r rinv_sleep_tail by blast
qed

lemma rinv_yield:
  assumes "on i s" "ends (yield s) t"
  shows "rinv t"
proof -
  obtain s1 p s2 where 1: "acquire L_ptable s = Ret () s1" and 2: "myproc s1 = Ret (Some p) s2"
    and 3: "ends (bnd (sched (upd_proc p (\<lambda>q. q\<lparr>pstate := RUNNABLE\<rparr>) s2)) (\<lambda>_ s. release L_ptable s)) t"
    using assms(2) by (auto simp: yield_def ends_bnd Let_def split: option.splits)
  note s2 = on_myproc[OF conjunct1[OF on_acquire[OF assms(1) 1]] 2]
  have "rinv u" if "ends (sched (upd_proc p (\<lambda>q. q\<lparr>pstate := RUNNABLE\<rparr>) s2)) u" for u
    using sched_leave[of i s2 p "\<lambda>q. q\<lparr>pstate := RUNNABLE\<rparr>" u] that s2 by simp
  then show ?thesis using 3 rinv_release by (auto simp: ends_bnd ends_def)
qed

lemma rinv_reschedule:
  assumes "on i s" "ends (reschedule s) t"
  shows "rinv t"
proof -
  have 0: "mycpu s = Ret i s"
    using assms by (cases "readeflags_IF s") (auto simp: reschedule_def mycpu_def on_def)
  obtain s1 where 1: "acquire L_ptable s = Ret () s1"
    using assms(2) 0 by (auto simp: reschedule_def ends_bnd)
  note s1 = on_acquire[OF assms(1) 1]
  have s1': "on i s1" "cproc (cpus s1 ! i) = cproc (cpus s ! i)" using s1 by auto
  obtain s2 where 2: "s2 = s1 \<and> cproc (cpus s1 ! i) = None \<or>
      (\<exists>p. cproc (cpus s1 ! i) = Some p \<and> s2 = upd_proc p (\<lambda>q. q\<lparr>pstate := RUNNABLE\<rparr>) s1)"
    and 3: "ends (bnd (sched s2) (\<lambda>_ s. release L_ptable s)) t"
    using assms(2) 0 1 by (auto simp: reschedule_def ends_bnd split: option.splits if_splits)
  have "rinv u" if "ends (sched s2) u" for u
    using 2 that sched_idle[OF s1'(1)] sched_leave[OF s1'(1), of _ "\<lambda>q. q\<lparr>pstate := RUNNABLE\<rparr>" u] by auto
  then show ?thesis using 3 rinv_release by (auto simp: ends_bnd ends_def)
qed

lemma rinv_exit:
  assumes "on i s" "cproc (cpus s ! i) = Some p" "ends (exit_sched p s) t"
  shows "rinv t"
proof -
  obtain s1 where 1: "acquire L_ptable s = Ret () s1" using assms(3) by (auto simp: exit_sched_def ends_bnd)
  note s1 = on_acquire[OF assms(1) 1]
  have reparent_sel: "cpus (reparent ps c u) = cpus u" "ncpu (reparent ps c u) = ncpu u" "this_cpu (reparent ps c u) = this_cpu u"
    for ps c and u :: "('b) ptab_scheme"
    by (induction ps arbitrary: u) (auto simp: Let_def)
  define s2 where "s2 = reparent [0..<NPROC] p (wakeup1 (proc_chan (parent (procs s1 ! p))) s1)"
  have s2: "on i s2" "cproc (cpus s2 ! i) = Some p"
    using s1 assms(2) by (auto simp: on_def s2_def reparent_sel intro!: rinv_reparent rinv_wakeup1)
  have "ends (sched (upd_proc p (\<lambda>q. q\<lparr>pstate := ZOMBIE\<rparr>) s2)) t"
    using assms(3) 1 by (auto simp: exit_sched_def ends_bnd Let_def s2_def ends_def)
  then show ?thesis using sched_leave[OF s2, of "\<lambda>q. q\<lparr>pstate := ZOMBIE\<rparr>" t] by simp
qed

lemma on_wait_scan:
  "on i s \<Longrightarrow> wait_scan ps c h s = Ret r t \<Longrightarrow> on i t \<and> cproc (cpus t ! i) = cproc (cpus s ! i)"
proof (induction ps arbitrary: h s)
  case (Cons p ps)
  show ?case
  proof (cases "parent (procs s ! p) = c \<and> pstate (procs s ! p) = ZOMBIE")
    case True
    let ?f = "\<lambda>q. q\<lparr>pid := 0, parent := None, pname := (pname q)[0 := 0], killed := False, pstate := UNUSED\<rparr>"
    obtain s1 s2 where 1: "kfree (kstack (procs s ! p)) s = Ret () s1"
      and 2: "freevm (pgdir (procs (upd_proc p (\<lambda>q. q\<lparr>kstack := 0\<rparr>) s1) ! p)) (upd_proc p (\<lambda>q. q\<lparr>kstack := 0\<rparr>) s1) = Ret () s2"
      and t: "t = upd_proc p ?f s2"
      using Cons.prems True by (auto simp: Let_def)
    note s1 = on_pview[OF Cons.prems(1) pview_kframe[OF kframe_kfree[OF 1]]]
    have "on i (upd_proc p (\<lambda>q. q\<lparr>kstack := 0\<rparr>) s1)"
      using s1 rinv_upd[of "{}" s1 "\<lambda>q. q\<lparr>kstack := 0\<rparr>" p] by (auto simp: on_def)
    note s2 = on_pview[OF this pview_kframe[OF kframe_freevm[OF 2]]]
    have "length (procs s1) = NPROC" using s1 rinv_butD(2)[of "{}" s1] by (simp add: on_def)
    then have "pstate (procs s2 ! p) \<noteq> RUNNING"
      using s1 s2 True by (cases "p < length (procs s1)") (auto simp: list_update_beyond)
    then have "on i t" using s2 rinv_upd[of "{}" s2 ?f p] by (auto simp: on_def t)
    then show ?thesis using s1 s2 by (simp add: t)
  next
    case False
    then show ?thesis using Cons by (auto split: if_splits)
  qed
qed simp

lemma wait_scan_no_switch [simp]: "wait_scan ps c h s \<noteq> Switch t"
  by (induction ps arbitrary: h s) (auto simp: Let_def)

lemma rinv_wait_pass:
  assumes "on i s" "ends (wait_pass c s) t"
  shows "rinv t"
proof -
  obtain r h s1 where 1: "wait_scan [0..<NPROC] c False s = Ret (r, h) s1"
    using assms(2) by (auto simp: wait_pass_def ends_bnd)
  note s1 = on_wait_scan[OF assms(1) 1]
  have "release L_ptable s1 = Ret () t \<or> (\<exists>q. ends (sleep (Ch_proc q) L_ptable s1) t)"
    using assms(2) 1 by (auto simp: wait_pass_def ends_bnd ends_def split: option.splits if_splits)
  then show ?thesis
  proof
    assume "release L_ptable s1 = Ret () t"
    then show ?thesis using rinv_release[of "{}" s1] s1 by (simp add: on_def)
  qed (use rinv_sleep[OF conjunct1[OF s1]] in blast)
qed

lemma rinv_wait:
  assumes "on i s" "ends (wait s) t"
  shows "rinv t"
proof -
  obtain c s1 s2 where 1: "myproc s = Ret c s1" and 2: "acquire L_ptable s1 = Ret () s2"
    and 3: "ends (wait_pass c s2) t"
    using assms(2) by (auto simp: wait_def ends_bnd)
  note s1 = on_myproc[OF assms(1) 1]
  note s2 = on_acquire[OF conjunct1[OF s1] 2]
  show ?thesis by (rule rinv_wait_pass[OF conjunct1[OF s2] 3])
qed

lemma on_sched_resume:
  assumes "on i s" "sched_resume ie s = Ret u t"
  shows "on i t \<and> cproc (cpus t ! i) = cproc (cpus s ! i) \<and> procs t = procs s"
proof -
  obtain c where t: "t = upd_cpu c (\<lambda>k. k\<lparr>intena := ie\<rparr>) s"
    using assms(2) by (auto simp: sched_resume_def dest!: mycpu_RetD)
  have "frame s t" unfolding t by (rule frame_upd_cpu) simp_all
  then show ?thesis by (intro on_pview[OF assms(1)] pview_frame)
qed

lemma sched_resume_no_switch [simp]: "sched_resume ie s \<noteq> Switch t"
  by (auto simp: sched_resume_def)

lemma rinv_sleep_resume:
  assumes "on i s" "ends (sleep_resume p ie lk s) t"
  shows "rinv t"
proof -
  obtain s1 where 1: "sched_resume ie s = Ret () s1" and 2: "ends (sleep_tail p lk s1) t"
    using assms(2) by (auto simp: sleep_resume_def ends_bnd)
  show ?thesis using on_sched_resume[OF assms(1) 1] by (intro rinv_sleep_tail[OF _ 2]) (simp add: on_def)
qed

lemma rinv_yield_resume:
  assumes "on i s" "ends (yield_resume ie s) t"
  shows "rinv t"
proof -
  obtain s1 where 1: "sched_resume ie s = Ret () s1" and 2: "release L_ptable s1 = Ret () t"
    using assms(2) by (auto simp: yield_resume_def ends_bnd)
  show ?thesis using on_sched_resume[OF assms(1) 1] by (intro rinv_release[OF _ 2]) (simp add: on_def)
qed

lemma rinv_wait_resume:
  assumes "on i s" "ends (wait_resume c ie s) t"
  shows "rinv t"
proof -
  obtain s1 s2 where 1: "sched_resume ie s = Ret () s1" and 2: "s2 = upd_proc c (\<lambda>q. q\<lparr>pchan := Ch_none\<rparr>) s1"
    and 3: "ends (wait_pass (Some c) s2) t"
    using assms(2) by (auto simp: wait_resume_def sleep_resume_def sleep_tail_def ends_bnd Let_def)
  note s1 = on_sched_resume[OF assms(1) 1]
  then have "on i s2"
    using rinv_upd[of "{}" s1 "\<lambda>q. q\<lparr>pchan := Ch_none\<rparr>" c] by (auto simp: on_def 2)
  then show ?thesis using 3 by (rule rinv_wait_pass)
qed

lemma rinv_wakeup: "rinv s \<Longrightarrow> wakeup ch s = Ret u t \<Longrightarrow> rinv t"
  by (auto simp: wakeup_def Let_def intro: rinv_release[OF rinv_wakeup1[OF rinv_acquire]])

lemma rinv_kill:
  assumes "rinv s" "kill n s = Ret r t"
  shows "rinv t"
proof -
  obtain s1 where 1: "acquire L_ptable s = Ret () s1" using assms(2) by (auto simp: kill_def)
  have s1: "rinv s1" by (rule rinv_acquire[OF assms(1) 1])
  show ?thesis
  proof (cases "find_proc (\<lambda>p. pid p = n) s1")
    case None
    then show ?thesis using assms(2) 1 rinv_release[OF s1] by (auto simp: kill_def)
  next
    case (Some p)
    define s2 where "s2 = upd_proc p (\<lambda>q. q\<lparr>killed := True\<rparr>) s1"
    have s2: "rinv s2" unfolding s2_def using s1 by (rule rinv_upd) simp
    define s3 where "s3 = (if pstate (procs s2 ! p) = SLEEPING then upd_proc p (\<lambda>q. q\<lparr>pstate := RUNNABLE\<rparr>) s2 else s2)"
    have s3: "rinv s3" using s2 by (auto simp: s3_def intro: rinv_upd)
    have "release L_ptable s3 = Ret () t"
      using assms(2) 1 Some by (auto simp: kill_def Let_def s2_def s3_def split: if_splits)
    then show ?thesis by (rule rinv_release[OF s3])
  qed
qed

lemma rinv_make_runnable:
  assumes "rinv s" "pstate (procs s ! p) \<noteq> RUNNING" "make_runnable p s = Ret u t"
  shows "rinv t"
proof -
  obtain s1 where 1: "acquire L_ptable s = Ret () s1"
    and 2: "release L_ptable (upd_proc p (\<lambda>q. q\<lparr>pstate := RUNNABLE\<rparr>) s1) = Ret () t"
    using assms(3) by (auto simp: make_runnable_def)
  have "procs s1 = procs s" using pview_acquire[OF 1] by (simp add: pview_def)
  then show ?thesis
    using rinv_acquire[OF assms(1) 1] assms(2) by (intro rinv_release[OF _ 2] rinv_upd) auto
qed

lemma find_proc_SomeD: "find_proc P s = Some p \<Longrightarrow> p < NPROC \<and> P (procs s ! p)"
  by (auto simp: find_proc_def find_Some_iff)

lemma rinv_kalloc: "rinv_but X s \<Longrightarrow> kalloc s = Ret p t \<Longrightarrow> rinv_but X t"
  by (rule rinv_but_pview[OF _ pview_kframe[OF kframe_kalloc]])

lemma rinv_mem: "rinv_but X s \<Longrightarrow> rinv_but X (s\<lparr>mem := m\<rparr>)" "rinv_but X s \<Longrightarrow> rinv_but X (wr32 a v s)"
  "rinv_but X s \<Longrightarrow> rinv_but X (s\<lparr>nextpid := n\<rparr>)"
  by (erule rinv_but_pview, simp)+

lemma rinv_allocproc_stack:
  assumes "rinv s" "pstate (procs s ! p) \<noteq> RUNNING" "allocproc_stack p s = Ret r t"
  shows "rinv t"
proof -
  obtain k s1 where 1: "kalloc s = Ret k s1" using assms(3) by (auto simp: allocproc_stack_def)
  have p: "procs s1 = procs s" using pview_kframe[OF kframe_kalloc[OF 1]] by (simp add: pview_def)
  have s1: "rinv s1" by (rule rinv_kalloc[OF assms(1) 1])
  show ?thesis
  proof (cases "k = 0")
    case True
    have "t = upd_proc p (\<lambda>q. q\<lparr>pstate := UNUSED\<rparr>) (upd_proc p (\<lambda>q. q\<lparr>kstack := k\<rparr>) s1)"
      using assms(3) 1 True by (simp add: allocproc_stack_def Let_def)
    moreover have "pstate ((procs s1)[p := (procs s1 ! p)\<lparr>kstack := k\<rparr>] ! p) \<noteq> RUNNING"
      using assms(2) p by (cases "p < length (procs s1)") (simp_all add: list_update_beyond)
    ultimately show ?thesis using s1 by (auto intro!: rinv_upd)
  next
    case False
    define s2 where "s2 = upd_proc p (\<lambda>q. q\<lparr>mme := - 1\<rparr>)
      (wr32 (k + KSTACKSIZE - 76 - 4 - 20 + 16) (sym_forkret s1)
        ((upd_proc p (\<lambda>q. q\<lparr>pcontext := k + KSTACKSIZE - 76 - 4 - 20\<rparr>)
          (wr32 (k + KSTACKSIZE - 76 - 4) (sym_trapret s1)
            (upd_proc p (\<lambda>q. q\<lparr>tf := k + KSTACKSIZE - 76\<rparr>) (upd_proc p (\<lambda>q. q\<lparr>kstack := k\<rparr>) s1))))
         \<lparr>mem := memset (k + KSTACKSIZE - 76 - 4 - 20) 0 20
            (mem (upd_proc p (\<lambda>q. q\<lparr>pcontext := k + KSTACKSIZE - 76 - 4 - 20\<rparr>)
          (wr32 (k + KSTACKSIZE - 76 - 4) (sym_trapret s1)
            (upd_proc p (\<lambda>q. q\<lparr>tf := k + KSTACKSIZE - 76\<rparr>) (upd_proc p (\<lambda>q. q\<lparr>kstack := k\<rparr>) s1)))))\<rparr>))"
    have s2: "rinv s2" unfolding s2_def by (intro rinv_upd rinv_mem s1) simp_all
    obtain m s3 where 3: "kalloc s2 = Ret m s3"
      and t: "t = upd_proc p (\<lambda>q. q\<lparr>pspace := 1\<rparr>) (upd_proc p (\<lambda>q. q\<lparr>mmt_start := m\<rparr>) s3)"
      using assms(3) 1 False unfolding s2_def
      by (simp add: allocproc_stack_def Let_def HW3_cpu_util_def upd_proc_def wr32_def) blast
    have "rinv s3" by (rule rinv_kalloc[OF s2 3])
    then show ?thesis unfolding t by (intro rinv_upd) simp_all
  qed
qed

lemma rinv_allocproc:
  assumes "rinv s" "allocproc s = Ret r t"
  shows "rinv t"
proof -
  obtain s1 where 1: "acquire L_ptable s = Ret () s1" using assms(2) by (auto simp: allocproc_def)
  have s1: "rinv s1" by (rule rinv_acquire[OF assms(1) 1])
  show ?thesis
  proof (cases "find_proc (\<lambda>p. pstate p = UNUSED) s1")
    case None
    then show ?thesis using assms(2) 1 rinv_release[OF s1] by (auto simp: allocproc_def)
  next
    case (Some p)
    define s2 where "s2 = upd_proc p (\<lambda>q. q\<lparr>pid := nextpid s1\<rparr>) (upd_proc p (\<lambda>q. q\<lparr>pstate := EMBRYO\<rparr>) s1)"
    have n: "pstate (procs s1 ! p) = UNUSED" "p < length (procs s1)"
      using find_proc_SomeD[OF Some] rinv_butD(2)[OF s1] by auto
    have s2: "rinv s2" "pstate (procs s2 ! p) = EMBRYO"
      using s1 n by (auto simp: s2_def intro!: rinv_upd)
    obtain s3 where 3: "release L_ptable (s2\<lparr>nextpid := nextpid s2 + 1\<rparr>) = Ret () s3"
      and 4: "allocproc_stack p s3 = Ret r t"
      using assms(2) 1 Some by (auto simp: allocproc_def Let_def s2_def)
    have "pstate (procs s3 ! p) \<noteq> RUNNING"
      using s2(2) pview_release[OF 3] by (simp add: pview_def)
    then show ?thesis
      using rinv_release[OF rinv_mem(3)[OF s2(1)] 3] rinv_allocproc_stack[OF _ _ 4] by blast
  qed
qed

section \<open>Reachable states\<close>

text \<open>
  Processors interleave at the granularity of the routines of the process table.
  \<open>sr_resume\<close> and its variants are threads that were switched to and go on
  after \<open>swtch\<close>; \<open>sr_lock\<close> and \<open>sr_unlock\<close> stand for
  everything a thread does outside the process table between two routines.
\<close>

definition sched_boot :: "('x) ptab_scheme \<Rightarrow> bool" where
  "sched_boot s \<longleftrightarrow>
     ncpu s \<le> length (cpus s) \<and> distinct (map apicid (take (ncpu s) (cpus s))) \<and>
     length (procs s) = NPROC \<and> (\<forall>c<ncpu s. cproc (cpus s ! c) = None) \<and>
     (\<forall>p<NPROC. pstate (procs s ! p) \<noteq> RUNNING)"

inductive sreach :: "('x) ptab_scheme \<Rightarrow> bool" where
  sr_boot: "sched_boot s \<Longrightarrow> sreach s"
| sr_reschedule: "sreach s \<Longrightarrow> i < ncpu s \<Longrightarrow> ends (reschedule (on_cpu i s)) t \<Longrightarrow> sreach t"
| sr_yield: "sreach s \<Longrightarrow> i < ncpu s \<Longrightarrow> ends (yield (on_cpu i s)) t \<Longrightarrow> sreach t"
| sr_sleep: "sreach s \<Longrightarrow> i < ncpu s \<Longrightarrow> ends (sleep ch lk (on_cpu i s)) t \<Longrightarrow> sreach t"
| sr_exit: "sreach s \<Longrightarrow> i < ncpu s \<Longrightarrow> cproc (cpus s ! i) = Some p \<Longrightarrow>
    ends (exit_sched p (on_cpu i s)) t \<Longrightarrow> sreach t"
| sr_wait: "sreach s \<Longrightarrow> i < ncpu s \<Longrightarrow> ends (wait (on_cpu i s)) t \<Longrightarrow> sreach t"
| sr_resume: "sreach s \<Longrightarrow> i < ncpu s \<Longrightarrow> ends (yield_resume ie (on_cpu i s)) t \<Longrightarrow> sreach t"
| sr_sleep_resume: "sreach s \<Longrightarrow> i < ncpu s \<Longrightarrow> ends (sleep_resume p ie lk (on_cpu i s)) t \<Longrightarrow> sreach t"
| sr_wait_resume: "sreach s \<Longrightarrow> i < ncpu s \<Longrightarrow> ends (wait_resume p ie (on_cpu i s)) t \<Longrightarrow> sreach t"
| sr_wakeup: "sreach s \<Longrightarrow> i < ncpu s \<Longrightarrow> wakeup ch (on_cpu i s) = Ret u t \<Longrightarrow> sreach t"
| sr_kill: "sreach s \<Longrightarrow> i < ncpu s \<Longrightarrow> kill n (on_cpu i s) = Ret r t \<Longrightarrow> sreach t"
| sr_allocproc: "sreach s \<Longrightarrow> i < ncpu s \<Longrightarrow> allocproc (on_cpu i s) = Ret q t \<Longrightarrow> sreach t"
| sr_make_runnable: "sreach s \<Longrightarrow> i < ncpu s \<Longrightarrow> pstate (procs s ! p) = EMBRYO \<Longrightarrow>
    make_runnable p (on_cpu i s) = Ret u t \<Longrightarrow> sreach t"
| sr_lock: "sreach s \<Longrightarrow> i < ncpu s \<Longrightarrow> acquire l (on_cpu i s) = Ret u t \<Longrightarrow> sreach t"
| sr_unlock: "sreach s \<Longrightarrow> i < ncpu s \<Longrightarrow> release l (on_cpu i s) = Ret u t \<Longrightarrow> sreach t"

lemma rinv_boot:
  assumes "sched_boot s"
  shows "rinv s"
proof -
  have "apicid (cpus s ! c) = apicid (cpus s ! d) \<Longrightarrow> c = d" if "c < ncpu s" "d < ncpu s" for c d
    using assms that nth_eq_iff_index_eq[of "map apicid (take (ncpu s) (cpus s))" c d]
    by (simp add: sched_boot_def)
  then show ?thesis using assms by (auto simp: sched_boot_def rinv_but_def runs_ok_def)
qed

lemma on_cpu_psel [simp]: "procs (on_cpu i s) = procs s"
  by (simp add: on_cpu_def)

lemma on_on_cpu:
  assumes "rinv s" "i < ncpu s"
  shows "on i (on_cpu i s)"
proof -
  have len: "ncpu s \<le> length (cpus s)" by (rule rinv_butD(1)[OF assms(1)])
  have ne: "apicid (cpus s ! j) \<noteq> apicid (cpus s ! i)" if "j < i" for j
  proof
    assume "apicid (cpus s ! j) = apicid (cpus s ! i)"
    then have "map apicid (cpus s) ! j = map apicid (cpus s) ! i" using that assms(2) len by simp
    then have "j = i" using assms that unfolding rinv_but_def runs_ok_def by (meson less_trans)
    then show False using that by simp
  qed
  have "this_cpu (on_cpu i s) = Some i"
    unfolding this_cpu_def find_Some_iff
    using assms(2) ne by (intro exI[of _ i]) simp
  then show ?thesis using assms by (simp add: on_def rinv_but_def)
qed

lemma sreach_rinv: "sreach s \<Longrightarrow> rinv s"
proof (induction rule: sreach.induct)
  case (sr_boot s)
  then show ?case by (rule rinv_boot)
next
  case (sr_reschedule s i t)
  then show ?case using rinv_reschedule[OF on_on_cpu] by blast
next
  case (sr_yield s i t)
  then show ?case using rinv_yield[OF on_on_cpu] by blast
next
  case (sr_sleep s i ch lk t)
  then show ?case using rinv_sleep[OF on_on_cpu] by blast
next
  case (sr_exit s i p t)
  then show ?case using rinv_exit[OF on_on_cpu, of s i p t] by simp
next
  case (sr_wait s i t)
  then show ?case using rinv_wait[OF on_on_cpu] by blast
next
  case (sr_resume s i ie t)
  then show ?case using rinv_yield_resume[OF on_on_cpu] by blast
next
  case (sr_sleep_resume s i p ie lk t)
  then show ?case using rinv_sleep_resume[OF on_on_cpu] by blast
next
  case (sr_wait_resume s i p ie t)
  then show ?case using rinv_wait_resume[OF on_on_cpu] by blast
next
  case (sr_wakeup s i ch u t)
  then show ?case using rinv_wakeup[of "on_cpu i s"] on_on_cpu[of s i] by (auto simp: on_def)
next
  case (sr_kill s i n r t)
  then show ?case using rinv_kill[of "on_cpu i s"] on_on_cpu[of s i] by (auto simp: on_def)
next
  case (sr_allocproc s i q t)
  then show ?case using rinv_allocproc[of "on_cpu i s"] on_on_cpu[of s i] by (auto simp: on_def)
next
  case (sr_make_runnable s i p u t)
  then show ?case using rinv_make_runnable[of "on_cpu i s" p] on_on_cpu[of s i] by (auto simp: on_def)
next
  case (sr_lock s i l u t)
  then show ?case using rinv_acquire[of "{}" "on_cpu i s"] on_on_cpu[of s i] by (auto simp: on_def)
next
  case (sr_unlock s i l u t)
  then show ?case using rinv_release[of "{}" "on_cpu i s"] on_on_cpu[of s i] by (auto simp: on_def)
qed

text \<open>
  C11.  In every reachable state the processes in state \<open>RUNNING\<close> are exactly
  the ones some processor executes, and no two processors execute the same one.
\<close>

theorem sched_exclusive:
  assumes "sreach s"
  shows "(\<forall>c<ncpu s. \<forall>d<ncpu s. cproc (cpus s ! c) = cproc (cpus s ! d) \<longrightarrow> c = d \<or> cproc (cpus s ! c) = None) \<and>
    (\<forall>p<NPROC. pstate (procs s ! p) = RUNNING \<longleftrightarrow> (\<exists>c<ncpu s. cproc (cpus s ! c) = Some p))"
proof -
  have inv: "rinv s" by (rule sreach_rinv[OF assms])
  note len = rinv_butD[OF inv]
  have nc: "map cproc (cpus s) ! c = cproc (cpus s ! c)" if "c < ncpu s" for c using that len by simp
  have ns: "map (\<lambda>p. pstate p = RUNNING) (procs s) ! p \<longleftrightarrow> pstate (procs s ! p) = RUNNING" if "p < NPROC" for p
    using that len by simp
  have D: "c = d" if "c < ncpu s" "d < ncpu s" "cproc (cpus s ! c) = Some p" "cproc (cpus s ! d) = Some p" for c d p
    using inv that nc[of c] nc[of d] unfolding rinv_but_def runs_ok_def by metis
  have R: "p < NPROC \<Longrightarrow> pstate (procs s ! p) = RUNNING" if "c < ncpu s" "cproc (cpus s ! c) = Some p" for c p
    using inv that nc[of c] ns[of p] unfolding rinv_but_def runs_ok_def by (metis empty_iff)
  have C: "\<exists>c<ncpu s. cproc (cpus s ! c) = Some p" if "p < NPROC" "pstate (procs s ! p) = RUNNING" for p
    using inv that nc ns[of p] unfolding rinv_but_def runs_ok_def by metis
  show ?thesis
  proof (intro conjI allI impI)
    fix c d assume "c < ncpu s" "d < ncpu s" "cproc (cpus s ! c) = cproc (cpus s ! d)"
    then show "c = d \<or> cproc (cpus s ! c) = None" using D[of c d] by (cases "cproc (cpus s ! c)") auto
  qed (use R C in blast)
qed

text \<open>Two processors, no process yet.\<close>

definition blank_proc :: proc where
  "blank_proc =
     \<lparr>psz = 0, cpu_ticks = 0, cpu_util = 0, cpu_runnable_ticks = 0, cpu_wait = 0, pgdir = 0, mmt_start = 0,
      mme = 0, pspace = 0, kstack = 0, pstate = UNUSED, pid = 0, parent = None, tf = 0, pcontext = 0,
      pchan = Ch_none, killed = False, ofile = replicate 16 None, cwd = None, pname = replicate 16 0\<rparr>"

definition boot_ptab :: ptab where
  "boot_ptab =
     \<lparr>hw_id = 0, hw_if = (\<lambda>_. False), ncpu = 2,
      cpus = [\<lparr>apicid = 0, ncli = 0, intena = False, cproc = None\<rparr>,
              \<lparr>apicid = 1, ncli = 0, intena = False, cproc = None\<rparr>],
      locks = (\<lambda>_. \<lparr>locked = False, lk_name = [], lk_cpu = None\<rparr>),
      mem = (\<lambda>_. 0), kend = 0x80110000, use_lock = True, freelist = 0,
      kpgdir = 0x80400000, kdata = 0x80108000, hw_cr3 = (\<lambda>_. 0), hw_esp0 = (\<lambda>_. 0),
      procs = replicate 64 blank_proc, initproc = None, nextpid = 1, rrindex = 0, ticks = 0,
      sym_trapret = 0x80101000, sym_forkret = 0x80102000\<rparr>"

theorem sched_exclusive_witness:
  "\<not> (\<exists>c<ncpu boot_ptab. cproc (cpus boot_ptab ! c) = Some 5) \<and> pstate (procs boot_ptab ! 5) = UNUSED"
proof -
  have "sched_boot boot_ptab"
    by (auto simp: sched_boot_def boot_ptab_def NPROC_def blank_proc_def nth_Cons split: nat.splits)
  from conjunct2[OF sched_exclusive[OF sr_boot[OF this]]]
  have "pstate (procs boot_ptab ! 5) = RUNNING \<longleftrightarrow> (\<exists>c<ncpu boot_ptab. cproc (cpus boot_ptab ! c) = Some 5)"
    by (simp add: NPROC_def)
  moreover have "pstate (procs boot_ptab ! 5) = UNUSED" by (simp add: boot_ptab_def blank_proc_def)
  ultimately show ?thesis by simp
qed

theorem roundrobin_no_starvation_witness:
  "\<exists>k<NPROC. fst (roundrobin (((\<lambda>s. snd (roundrobin s)) ^^ k)
     (boot_ptab\<lparr>procs := replicate 64 (blank_proc\<lparr>pstate := RUNNABLE\<rparr>)\<rparr>))) = Some 7"
proof (rule roundrobin_no_starvation)
  let ?s = "boot_ptab\<lparr>procs := replicate 64 (blank_proc\<lparr>pstate := RUNNABLE\<rparr>)\<rparr>"
  have "procs (((\<lambda>s. snd (roundrobin s)) ^^ k) ?s) = procs ?s" for k
    by (induction k) simp_all
  then show "pstate (procs (((\<lambda>s. snd (roundrobin s)) ^^ k) ?s) ! 7) = RUNNABLE" for k by simp
qed (simp_all add: boot_ptab_def NPROC_def)

end
