(* ===== verification/Sleeplock.thy ===== *)
theory Sleeplock
  imports Sched
begin

text \<open>
  Sleep locks: \<open>kernel/sleeplock.c\<close>.

  A sleep lock is named by the buffer or inode that contains it.  The wait in
  \<open>acquiresleep\<close> is entered once per run: \<open>sleep\<close> switches away, and
  \<open>acquiresleep_resume\<close> is the thread coming back into the loop.
\<close>

section \<open>State and operations\<close>

record sleeplock =
  sl_locked :: bool
  sl_name :: string
  sl_pid :: uint

record sleepst = ptab +
  sleeps :: "sleepid \<Rightarrow> sleeplock"

definition upd_sleep :: "sleepid \<Rightarrow> (sleeplock \<Rightarrow> sleeplock) \<Rightarrow> ('x) sleepst_scheme \<Rightarrow> ('x) sleepst_scheme" where
  "upd_sleep l f s = s\<lparr>sleeps := (sleeps s)(l := f (sleeps s l))\<rparr>"

definition initsleeplock :: "sleepid \<Rightarrow> string \<Rightarrow> ('x) sleepst_scheme \<Rightarrow> ('x) sleepst_scheme" where
  "initsleeplock l name s =
     upd_sleep l (\<lambda>k. k\<lparr>sl_name := name, sl_locked := False, sl_pid := 0\<rparr>)
       (initlock (L_sleep l) ''sleep lock'' s)"

text \<open>44 is the offset of \<open>pid\<close> in \<open>struct proc\<close>.\<close>

definition acquiresleep_loop :: "sleepid \<Rightarrow> ('x) sleepst_scheme \<Rightarrow> (('x) sleepst_scheme, unit) outcome" where
  "acquiresleep_loop l s =
     (if sl_locked (sleeps s l)
      then bnd (sleep (Ch_sleep l) (L_sleep l) s) (\<lambda>_ s. OutOfFuel)
      else
        let s = upd_sleep l (\<lambda>k. k\<lparr>sl_locked := True\<rparr>) s in
        bnd (myproc s) (\<lambda>p s.
        case p of None \<Rightarrow> Fault 44
        | Some p \<Rightarrow>
          let s = upd_sleep l (\<lambda>k. k\<lparr>sl_pid := pid (procs s ! p)\<rparr>) s in
          release (L_sleep l) s))"

definition acquiresleep :: "sleepid \<Rightarrow> ('x) sleepst_scheme \<Rightarrow> (('x) sleepst_scheme, unit) outcome" where
  "acquiresleep l s = bnd (acquire (L_sleep l) s) (\<lambda>_ s. acquiresleep_loop l s)"

definition acquiresleep_resume :: "sleepid \<Rightarrow> nat \<Rightarrow> bool \<Rightarrow> ('x) sleepst_scheme \<Rightarrow> (('x) sleepst_scheme, unit) outcome" where
  "acquiresleep_resume l p ie s =
     bnd (sleep_resume p ie (L_sleep l) s) (\<lambda>_ s. acquiresleep_loop l s)"

definition releasesleep :: "sleepid \<Rightarrow> ('x) sleepst_scheme \<Rightarrow> (('x) sleepst_scheme, unit) outcome" where
  "releasesleep l s =
     bnd (acquire (L_sleep l) s) (\<lambda>_ s.
     let s = upd_sleep l (\<lambda>k. k\<lparr>sl_locked := False\<rparr>) s;
         s = upd_sleep l (\<lambda>k. k\<lparr>sl_pid := 0\<rparr>) s in
     bnd (wakeup (Ch_sleep l) s) (\<lambda>_ s.
     release (L_sleep l) s))"

definition holdingsleep :: "sleepid \<Rightarrow> ('x) sleepst_scheme \<Rightarrow> (('x) sleepst_scheme, bool) outcome" where
  "holdingsleep l s =
     bnd (acquire (L_sleep l) s) (\<lambda>_ s.
     let r = sl_locked (sleeps s l) in
     bnd (release (L_sleep l) s) (\<lambda>_ s. Ret r s))"

end
