(* ===== verification/Calm.thy ===== *)
theory Calm
  imports Sleeplock
begin

text \<open>
  What locking code does when no other processor interferes: in a calm state (no
  spin lock is held, a process is running) every critical section of the layers
  above runs through, and leaves the locks as they were.  The equations here let a
  proof about a higher layer step over its locking.
\<close>

section \<open>Calm states\<close>

definition cur :: "('x) mach_scheme \<Rightarrow> nat option" where
  "cur s = cproc (cpus s ! the (this_cpu s))"

definition calm :: "('x) ptab_scheme \<Rightarrow> bool" where
  "calm s \<longleftrightarrow> cli_ok s \<and> (\<forall>l. lk_free l s) \<and> (\<exists>p<length (procs s). cur s = Some p)"

lemma calmD:
  assumes "calm s"
  shows "cli_ok s" "lk_free l s"
  using assms by (simp_all add: calm_def)

lemma calm_cur: "calm s \<Longrightarrow> \<exists>p<length (procs s). cur s = Some p"
  by (simp add: calm_def)

section \<open>The current process\<close>

lemma cur_acq [simp]: "cli_ok s \<Longrightarrow> cur (acq l s) = cur s"
  by (auto simp: cur_def cli_ok_def cpus_acq)

lemma myproc_eq:
  assumes "cli_ok s"
  shows "myproc s = Ret (cur s) s"
proof -
  from assms obtain c where c: "this_cpu s = Some c" "c < length (cpus s)" "0 \<le> ncli (cpus s ! c)"
    "if ncli (cpus s ! c) = 0 then readeflags_IF s = intena (cpus s ! c) else \<not> readeflags_IF s"
    by (auto simp: cli_ok_def)
  let ?k = "(cpus s ! c)\<lparr>intena := (if ncli (cpus s ! c) = 0 then readeflags_IF s else intena (cpus s ! c)),
     ncli := ncli (cpus s ! c) + 1\<rparr>"
  let ?t = "s\<lparr>hw_if := (hw_if s)(hw_id s := False), cpus := (cpus s)[c := ?k]\<rparr>"
  have t: "this_cpu ?t = Some c" "\<not> readeflags_IF ?t"
  proof -
    have "this_cpu ?t = this_cpu s"
      using c(2) by (intro this_cpu_cong) (auto simp: nth_list_update)
    then show "this_cpu ?t = Some c" using c by simp
  qed (simp add: readeflags_IF_def)
  have "myproc s = bnd (popcli ?t) (\<lambda>_ u. Ret (cproc (cpus s ! c)) u)"
    using c t by (simp add: myproc_def pushcli_eq mycpu_def)
  also have "\<dots> = Ret (cproc (cpus s ! c)) s"
  proof (cases "ncli (cpus s ! c) = 0")
    case True
    have "(cpus s ! c)\<lparr>intena := readeflags_IF s, ncli := 0\<rparr> = cpus s ! c"
      using True c(4) by simp
    then have k: "(cpus s)[c := (cpus s ! c)\<lparr>intena := b, ncli := 0\<rparr>] = cpus s" if "readeflags_IF s = b" for b
      using that by (simp only: list_update_id)
    have i: "(hw_if s)(hw_id s := True) = hw_if s" if "readeflags_IF s"
      using that by (intro fun_upd_idem) (simp add: readeflags_IF_def)
    have j: "(hw_if s)(hw_id s := False) = hw_if s" if "\<not> readeflags_IF s"
      using that by (intro fun_upd_idem) (simp add: readeflags_IF_def)
    show ?thesis
      using True c(2) t by (subst popcli_eq[of _ c]) (auto simp: k i j)
  next
    case False
    have j: "(hw_if s)(hw_id s := False) = hw_if s"
      using False c(4) by (intro fun_upd_idem) (simp add: readeflags_IF_def)
    have k: "(cpus s)[c := (cpus s ! c)\<lparr>ncli := ncli (cpus s ! c)\<rparr>] = cpus s" by simp
    show ?thesis
      using False c(2,3) t by (subst popcli_eq[of _ c]) (auto simp: k j)
  qed
  finally show ?thesis using c by (simp add: cur_def)
qed

section \<open>Updates that keep a state calm\<close>

lemma cur_upd [simp]:
  "cur (s\<lparr>procs := a\<rparr>) = cur s" "cur (t\<lparr>sleeps := b\<rparr>) = cur t"
  by (simp_all add: cur_def this_cpu_def)

lemma calm_procs [simp]: "calm (s\<lparr>procs := map f (procs s)\<rparr>) = calm s"
  by (simp add: calm_def)

lemma mach_upd_sleeps [simp]:
  "this_cpu (s\<lparr>sleeps := a\<rparr>) = this_cpu s" "cli_ok (s\<lparr>sleeps := a\<rparr>) = cli_ok s"
  "lk_free l (s\<lparr>sleeps := a\<rparr>) = lk_free l s" "calm (s\<lparr>sleeps := a\<rparr>) = calm s"
  by (simp_all add: this_cpu_def cli_ok_def readeflags_IF_def lk_free_def calm_def)

section \<open>Waking up and sleep locks\<close>

definition wk :: "chan \<Rightarrow> proc \<Rightarrow> proc" where
  "wk ch p = (if pstate p = SLEEPING \<and> pchan p = ch then p\<lparr>pstate := RUNNABLE\<rparr> else p)"

lemma wakeup1_eq: "wakeup1 ch s = s\<lparr>procs := map (wk ch) (procs s)\<rparr>"
  by (simp add: wakeup1_def wk_def cong: map_cong)

lemma wakeup_eq:
  assumes "cli_ok s" "lk_free L_ptable s"
  shows "wakeup ch s = Ret () (s\<lparr>procs := map (wk ch) (procs s)\<rparr>)"
  by (simp add: wakeup_def acquire_acq[OF assms] Let_def wakeup1_eq release_acq[OF assms] acq_def)

lemma holdingsleep_eq:
  assumes "calm s"
  shows "holdingsleep l s = Ret (sl_locked (sleeps s l)) s"
  by (simp add: holdingsleep_def acquire_acq[OF calmD[OF assms]] Let_def release_acq[OF calmD[OF assms]] acq_def)

lemma acquiresleep_eq:
  assumes "calm s" "\<not> sl_locked (sleeps s l)"
  shows "acquiresleep l s = Ret () (s\<lparr>sleeps := (sleeps s)(l :=
    (sleeps s l)\<lparr>sl_locked := True, sl_pid := pid (procs s ! the (cur s))\<rparr>)\<rparr>)"
proof -
  obtain p where p: "cur s = Some p" using calm_cur[OF assms(1)] by auto
  let ?a = "acq (L_sleep l) s"
  let ?t = "?a\<lparr>sleeps := (sleeps s)(l := (sleeps s l)\<lparr>sl_locked := True\<rparr>)\<rparr>"
  have sl: "sleeps ?a = sleeps s" "procs ?a = procs s" by (simp_all add: acq_def)
  have "myproc ?t = Ret (Some p) ?t"
    using p calmD(1)[OF assms(1)] by (simp add: myproc_eq)
  then have "acquiresleep_loop l ?a = release (L_sleep l) (?a\<lparr>sleeps := (sleeps s)(l :=
    (sleeps s l)\<lparr>sl_locked := True, sl_pid := pid (procs s ! p)\<rparr>)\<rparr>)"
    using assms(2) by (simp add: acquiresleep_loop_def sl upd_sleep_def)
  then show ?thesis
    using p by (simp add: acquiresleep_def acquire_acq[OF calmD[OF assms(1)]] release_acq[OF calmD[OF assms(1)]])
      (simp add: acq_def)
qed

lemma releasesleep_eq:
  assumes "calm s"
  shows "releasesleep l s = Ret () (s\<lparr>procs := map (wk (Ch_sleep l)) (procs s),
    sleeps := (sleeps s)(l := (sleeps s l)\<lparr>sl_locked := False, sl_pid := 0\<rparr>)\<rparr>)"
proof -
  let ?a = "acq (L_sleep l) s"
  let ?t = "?a\<lparr>sleeps := (sleeps s)(l := (sleeps s l)\<lparr>sl_locked := False, sl_pid := 0\<rparr>)\<rparr>"
  have sl: "sleeps ?a = sleeps s" "procs ?a = procs s" by (simp_all add: acq_def)
  have "wakeup (Ch_sleep l) ?t = Ret () (?t\<lparr>procs := map (wk (Ch_sleep l)) (procs s)\<rparr>)"
    using calmD[OF assms] by (subst wakeup_eq) (simp_all add: sl)
  then show ?thesis
    by (simp add: releasesleep_def acquire_acq[OF calmD[OF assms]] sl upd_sleep_def
        release_acq[OF calmD[OF assms]]) (simp add: acq_def)
qed

end
