(* ===== verification/Bio.thy ===== *)
theory Bio
  imports Calm
begin

text \<open>
  The buffer cache, \<open>kernel/bio.c\<close>, on the memory disk of
  \<open>kernel/memide.c\<close>.

  A buffer is named by its index in \<open>bcache.buf\<close>; index \<open>NBUF\<close> is
  \<open>bcache.head\<close>, and the list pointers are such indices.  \<open>flags\<close> is
  its two bits \<open>B_VALID\<close> and \<open>B_DIRTY\<close>.  \<open>disk\<close> maps a block
  number to the \<open>BSIZE\<close> bytes at that place of \<open>memdisk\<close>;
  \<open>dtrace\<close> is a history variable, the writes the disk has performed, oldest
  first.
\<close>

section \<open>State\<close>

type_synonym block = "byte list"

record buf =
  bvalid :: bool
  bdirty :: bool
  bdev :: uint
  blockno :: uint
  refcnt :: uint
  bprev :: nat
  bnext :: nat
  bdata :: block

record bufst = sleepst +
  bufs :: "buf list"
  disksize :: uint
  disk :: "nat \<Rightarrow> block"
  dtrace :: "(nat \<times> block) list"

definition BSIZE :: nat where "BSIZE = 512"
definition NBUF :: nat where "NBUF = 30"

definition upd_buf :: "nat \<Rightarrow> (buf \<Rightarrow> buf) \<Rightarrow> ('x) bufst_scheme \<Rightarrow> ('x) bufst_scheme" where
  "upd_buf b f s = s\<lparr>bufs := (bufs s)[b := f (bufs s ! b)]\<rparr>"

section \<open>The memory disk\<close>

definition ideinit :: "block list \<Rightarrow> ('x) bufst_scheme \<Rightarrow> ('x) bufst_scheme" where
  "ideinit fs_img s = s\<lparr>disk := (\<lambda>i. fs_img ! i), disksize := of_nat (length fs_img)\<rparr>"

definition iderw :: "nat \<Rightarrow> ('x) bufst_scheme \<Rightarrow> (('x) bufst_scheme, unit) outcome" where
  "iderw b s =
     bnd (holdingsleep (SL_buf b) s) (\<lambda>h s.
     if \<not> h then Panic ''iderw: buf not locked''
     else if bvalid (bufs s ! b) \<and> \<not> bdirty (bufs s ! b) then Panic ''iderw: nothing to do''
     else if bdev (bufs s ! b) \<noteq> 1 then Panic ''iderw: request not for disk 1''
     else if blockno (bufs s ! b) \<ge> disksize s then Panic ''iderw: block out of range''
     else
       let n = unat (blockno (bufs s ! b));
           s = (if bdirty (bufs s ! b)
                then let s = upd_buf b (\<lambda>k. k\<lparr>bdirty := False\<rparr>) s in
                     s\<lparr>disk := (disk s)(n := bdata (bufs s ! b)), dtrace := dtrace s @ [(n, bdata (bufs s ! b))]\<rparr>
                else upd_buf b (\<lambda>k. k\<lparr>bdata := disk s n\<rparr>) s) in
       Ret () (upd_buf b (\<lambda>k. k\<lparr>bvalid := True\<rparr>) s))"

section \<open>The cache\<close>

fun binit_loop :: "nat list \<Rightarrow> ('x) bufst_scheme \<Rightarrow> ('x) bufst_scheme" where
  "binit_loop [] s = s"
| "binit_loop (b # bs) s =
     (let s = upd_buf b (\<lambda>k. k\<lparr>bnext := bnext (bufs s ! NBUF)\<rparr>) s;
          s = upd_buf b (\<lambda>k. k\<lparr>bprev := NBUF\<rparr>) s;
          s = initsleeplock (SL_buf b) ''buffer'' s;
          s = upd_buf (bnext (bufs s ! NBUF)) (\<lambda>k. k\<lparr>bprev := b\<rparr>) s;
          s = upd_buf NBUF (\<lambda>k. k\<lparr>bnext := b\<rparr>) s in
      binit_loop bs s)"

definition binit :: "('x) bufst_scheme \<Rightarrow> ('x) bufst_scheme" where
  "binit s =
     (let s = initlock L_bcache ''bcache'' s;
          s = upd_buf NBUF (\<lambda>k. k\<lparr>bprev := NBUF\<rparr>) s;
          s = upd_buf NBUF (\<lambda>k. k\<lparr>bnext := NBUF\<rparr>) s in
      binit_loop [0..<NBUF] s)"

text \<open>
  A loop \<open>for(b = ...; b != &bcache.head; b = b->nx)\<close> that stops at the first
  buffer with \<open>P\<close>.  On a well-formed list it takes at most \<open>NBUF + 1\<close>
  steps; \<open>None\<close> when the fuel runs out.
\<close>

fun walk :: "nat \<Rightarrow> (buf \<Rightarrow> nat) \<Rightarrow> (buf \<Rightarrow> bool) \<Rightarrow> nat \<Rightarrow> buf list \<Rightarrow> nat option option" where
  "walk 0 nx P b bs = None"
| "walk (Suc n) nx P b bs =
     (if b = NBUF then Some None
      else if P (bs ! b) then Some (Some b)
      else walk n nx P (nx (bs ! b)) bs)"

definition bget :: "uint \<Rightarrow> uint \<Rightarrow> ('x) bufst_scheme \<Rightarrow> (('x) bufst_scheme, nat) outcome" where
  "bget dev bno s =
     bnd (acquire L_bcache s) (\<lambda>_ s.
     case walk (Suc NBUF) bnext (\<lambda>b. bdev b = dev \<and> blockno b = bno) (bnext (bufs s ! NBUF)) (bufs s) of
       None \<Rightarrow> OutOfFuel
     | Some (Some b) \<Rightarrow>
         let s = upd_buf b (\<lambda>k. k\<lparr>refcnt := refcnt k + 1\<rparr>) s in
         bnd (release L_bcache s) (\<lambda>_ s.
         bnd (acquiresleep (SL_buf b) s) (\<lambda>_ s. Ret b s))
     | Some None \<Rightarrow>
         (case walk (Suc NBUF) bprev (\<lambda>b. refcnt b = 0 \<and> \<not> bdirty b) (bprev (bufs s ! NBUF)) (bufs s) of
            None \<Rightarrow> OutOfFuel
          | Some (Some b) \<Rightarrow>
              let s = upd_buf b (\<lambda>k. k\<lparr>bdev := dev\<rparr>) s;
                  s = upd_buf b (\<lambda>k. k\<lparr>blockno := bno\<rparr>) s;
                  s = upd_buf b (\<lambda>k. k\<lparr>bvalid := False, bdirty := False\<rparr>) s;
                  s = upd_buf b (\<lambda>k. k\<lparr>refcnt := 1\<rparr>) s in
              bnd (release L_bcache s) (\<lambda>_ s.
              bnd (acquiresleep (SL_buf b) s) (\<lambda>_ s. Ret b s))
          | Some None \<Rightarrow> Panic ''bget: no buffers''))"

definition bread :: "uint \<Rightarrow> uint \<Rightarrow> ('x) bufst_scheme \<Rightarrow> (('x) bufst_scheme, nat) outcome" where
  "bread dev bno s =
     bnd (bget dev bno s) (\<lambda>b s.
     bnd (if \<not> bvalid (bufs s ! b) then iderw b s else Ret () s) (\<lambda>_ s.
     Ret b s))"

definition bwrite :: "nat \<Rightarrow> ('x) bufst_scheme \<Rightarrow> (('x) bufst_scheme, unit) outcome" where
  "bwrite b s =
     bnd (holdingsleep (SL_buf b) s) (\<lambda>h s.
     if \<not> h then Panic ''bwrite''
     else let s = upd_buf b (\<lambda>k. k\<lparr>bdirty := True\<rparr>) s in iderw b s)"

definition brelse :: "nat \<Rightarrow> ('x) bufst_scheme \<Rightarrow> (('x) bufst_scheme, unit) outcome" where
  "brelse b s =
     bnd (holdingsleep (SL_buf b) s) (\<lambda>h s.
     if \<not> h then Panic ''brelse''
     else
       bnd (releasesleep (SL_buf b) s) (\<lambda>_ s.
       bnd (acquire L_bcache s) (\<lambda>_ s.
       let s = upd_buf b (\<lambda>k. k\<lparr>refcnt := refcnt k - 1\<rparr>) s;
           s = (if refcnt (bufs s ! b) = 0
                then
                  let s = upd_buf (bnext (bufs s ! b)) (\<lambda>k. k\<lparr>bprev := bprev (bufs s ! b)\<rparr>) s;
                      s = upd_buf (bprev (bufs s ! b)) (\<lambda>k. k\<lparr>bnext := bnext (bufs s ! b)\<rparr>) s;
                      s = upd_buf b (\<lambda>k. k\<lparr>bnext := bnext (bufs s ! NBUF)\<rparr>) s;
                      s = upd_buf b (\<lambda>k. k\<lparr>bprev := NBUF\<rparr>) s;
                      s = upd_buf (bnext (bufs s ! NBUF)) (\<lambda>k. k\<lparr>bprev := b\<rparr>) s in
                  upd_buf NBUF (\<lambda>k. k\<lparr>bnext := b\<rparr>) s
                else s) in
       release L_bcache s)))"

section \<open>The list of buffers\<close>

text \<open>
  \<open>nxt\<close> and \<open>prv\<close> are the link fields as functions.  \<open>dll N P a xs z\<close>
  says that the doubly linked list goes from \<open>a\<close> over \<open>xs\<close> to \<open>z\<close>; the
  list of the cache is a dll from the head back to itself.
\<close>

definition nxt :: "('x) bufst_scheme \<Rightarrow> nat \<Rightarrow> nat" where
  "nxt s i = bnext (bufs s ! i)"

definition prv :: "('x) bufst_scheme \<Rightarrow> nat \<Rightarrow> nat" where
  "prv s i = bprev (bufs s ! i)"

fun dll :: "(nat \<Rightarrow> nat) \<Rightarrow> (nat \<Rightarrow> nat) \<Rightarrow> nat \<Rightarrow> nat list \<Rightarrow> nat \<Rightarrow> bool" where
  "dll N P a [] z \<longleftrightarrow> N a = z \<and> P z = a"
| "dll N P a (x # xs) z \<longleftrightarrow> N a = x \<and> P x = a \<and> dll N P x xs z"

lemma dll_append: "dll N P a (xs @ y # ys) z \<longleftrightarrow> dll N P a xs y \<and> dll N P y ys z"
  by (induction xs arbitrary: a) auto

lemma dll_hd: "dll N P a xs z \<Longrightarrow> N a = hd (xs @ [z])"
  by (cases xs) auto

lemma dll_last: "dll N P a xs z \<Longrightarrow> P z = last (a # xs)"
  by (induction xs arbitrary: a) auto

lemma dll_cong:
  assumes "\<And>x. x \<in> set (a # xs) \<Longrightarrow> N x = N' x" "\<And>x. x \<in> set (xs @ [z]) \<Longrightarrow> P x = P' x"
  shows "dll N P a xs z \<longleftrightarrow> dll N' P' a xs z"
  using assms by (induction xs arbitrary: a) auto

lemma dll_redirect:
  assumes "dll N P a xs b" "distinct (a # xs)" "n \<notin> set xs"
  shows "dll (N(last (a # xs) := n)) (P(n := last (a # xs))) a xs n"
  using assms
proof (induction xs arbitrary: a)
  case (Cons x xs)
  define l where "l = last (x # xs)"
  have 1: "dll (N(l := n)) (P(n := l)) x xs n" unfolding l_def by (rule Cons.IH) (use Cons.prems in auto)
  have "l \<in> set (x # xs)" unfolding l_def by (rule last_in_set) simp
  then have "a \<noteq> l" using Cons.prems(2) by auto
  then have "dll (N(l := n)) (P(n := l)) a (x # xs) n" using 1 Cons.prems by simp
  moreover have "last (a # x # xs) = l" by (simp add: l_def)
  ultimately show ?case by (simp only:)
qed simp

lemma dll_remove:
  assumes "dll N P a xs b" "dll N P b ys z" "distinct (xs @ b # ys)" "a \<notin> set (xs @ b # ys)" "z \<notin> set (xs @ b # ys)"
  shows "dll (N(P b := N b)) (P(N b := P b)) a (xs @ ys) z"
proof -
  define n where "n = hd (ys @ [z])"
  define p where "p = last (a # xs)"
  have n: "N b = n" and p: "P b = p"
    using dll_hd[OF assms(2)] dll_last[OF assms(1)] by (simp_all add: n_def p_def)
  have first: "dll (N(p := n)) (P(n := p)) a xs n"
    unfolding p_def by (rule dll_redirect[OF assms(1)]) (use assms in \<open>cases ys; auto simp: n_def\<close>)+
  show ?thesis
  proof (cases ys)
    case Nil
    then show ?thesis using first n p by (simp add: n_def)
  next
    case (Cons y ys')
    have "dll (N(p := n)) (P(n := p)) n ys' z \<longleftrightarrow> dll N P n ys' z"
    proof (rule dll_cong)
      fix x
      have pin: "p \<in> set (a # xs)" unfolding p_def by (rule last_in_set) simp
      show "(N(p := n)) x = N x" if "x \<in> set (n # ys')"
        using that pin assms(3,4) Cons by (auto simp: n_def)
      show "(P(n := p)) x = P x" if "x \<in> set (ys' @ [z])"
        using that assms(3,5) Cons by (auto simp: n_def)
    qed
    moreover have "dll N P n ys' z" using assms(2) Cons n by (simp add: n_def)
    ultimately show ?thesis
      using first Cons n p by (simp add: dll_append n_def)
  qed
qed

lemma dll_insert:
  assumes "dll N P a ys z" "b \<notin> set ys" "b \<noteq> a" "b \<noteq> z" "a \<notin> set ys" "z \<notin> set ys" "distinct ys"
  shows "dll (N(b := N a, a := b)) (P(b := a, N a := b)) a (b # ys) z"
proof (cases ys)
  case Nil
  then show ?thesis using assms by auto
next
  case (Cons y ys')
  have "dll (N(b := N a, a := b)) (P(b := a, N a := b)) y ys' z \<longleftrightarrow> dll N P y ys' z"
    using assms Cons by (intro dll_cong) auto
  then show ?thesis using assms Cons by auto
qed

lemma walk_next:
  assumes "dll N P a xs NBUF" "NBUF \<notin> set xs" "length xs < n" "\<And>i. N i = nx (bs ! i)"
  shows "walk n nx Q (nx (bs ! a)) bs = Some (List.find (\<lambda>b. Q (bs ! b)) xs)"
  using assms
proof (induction xs arbitrary: a n)
  case Nil
  then show ?case by (cases n) auto
next
  case (Cons x xs)
  then show ?case by (cases n) auto
qed

lemma dll_rev: "dll N P a xs z \<Longrightarrow> dll P N z (rev xs) a"
proof (induction xs arbitrary: a)
  case (Cons x xs)
  then show ?case by (simp add: dll_append)
qed simp

lemma nxt_upd_buf:
  assumes "b < length (bufs s)"
  shows "nxt (upd_buf b f s) = (nxt s)(b := bnext (f (bufs s ! b)))"
    and "prv (upd_buf b f s) = (prv s)(b := bprev (f (bufs s ! b)))"
  using assms by (auto simp: nxt_def prv_def upd_buf_def fun_eq_iff)

end
