(* ===== verification/Bcache.thy ===== *)
theory Bcache
  imports Bio
begin

text \<open>
  What the buffer cache promises its callers: the list of buffers stays a list in
  order of last use, a block is cached at most once, and what a caller sees of a
  block is what was last written to it.
\<close>

section \<open>The invariant\<close>

definition blk_locked :: "('x) bufst_scheme \<Rightarrow> nat \<Rightarrow> bool" where
  "blk_locked s i \<longleftrightarrow> sl_locked (sleeps s (SL_buf i))"

text \<open>The buffers in order of last use, most recent first.\<close>

definition lru :: "('x) bufst_scheme \<Rightarrow> nat list \<Rightarrow> bool" where
  "lru s xs \<longleftrightarrow> length (bufs s) = Suc NBUF \<and> dll (nxt s) (prv s) NBUF xs NBUF \<and> distinct xs \<and> set xs = {..<NBUF}"

text \<open>Buffer \<open>k\<close> holds block \<open>n\<close> of the disk.\<close>

definition holds :: "buf \<Rightarrow> uint \<Rightarrow> bool" where
  "holds k n \<longleftrightarrow> bdev k = 1 \<and> blockno k = n"

definition cache_ok :: "('x) bufst_scheme \<Rightarrow> bool" where
  "cache_ok s \<longleftrightarrow>
     (\<forall>i<NBUF. \<forall>j<NBUF. \<forall>n. holds (bufs s ! i) n \<longrightarrow> holds (bufs s ! j) n \<longrightarrow> i = j) \<and>
     (\<forall>i<NBUF. let k = bufs s ! i in
        refcnt k = (if blk_locked s i then 1 else 0) \<and>
        (bdirty k \<longrightarrow> bvalid k \<and> bdev k = 1) \<and>
        (blk_locked s i \<longrightarrow> bvalid k \<and> bdev k = 1 \<and> blockno k < disksize s) \<and>
        (bvalid k \<longrightarrow> length (bdata k) = BSIZE) \<and>
        (bvalid k \<longrightarrow> bdev k = 1 \<longrightarrow> \<not> blk_locked s i \<longrightarrow> \<not> bdirty k \<longrightarrow> bdata k = disk s (unat (blockno k)))) \<and>
     (\<forall>n<unat (disksize s). length (disk s n) = BSIZE)"

text \<open>What a reader sees of block \<open>n\<close>: the cached copy if there is one.\<close>

definition content :: "('x) bufst_scheme \<Rightarrow> uint \<Rightarrow> block" where
  "content s n =
     (case List.find (\<lambda>i. holds (bufs s ! i) n \<and> bvalid (bufs s ! i)) [0..<NBUF] of
        Some i \<Rightarrow> bdata (bufs s ! i) | None \<Rightarrow> disk s (unat n))"

text \<open>The dirty blocks, and a buffer that may be reused.\<close>

definition dirty_blocks :: "('x) bufst_scheme \<Rightarrow> uint set" where
  "dirty_blocks s = {blockno (bufs s ! i) | i. i < NBUF \<and> bdirty (bufs s ! i)}"

definition reusable :: "('x) bufst_scheme \<Rightarrow> nat \<Rightarrow> bool" where
  "reusable s i \<longleftrightarrow> i < NBUF \<and> refcnt (bufs s ! i) = 0 \<and> \<not> bdirty (bufs s ! i)"

text \<open>The state but for what the cache changes.\<close>

definition bframe :: "('x) bufst_scheme \<Rightarrow> ('x) bufst_scheme \<Rightarrow> bool" where
  "bframe s t \<longleftrightarrow> t = s\<lparr>procs := procs t, sleeps := sleeps t, bufs := bufs t, disk := disk t, dtrace := dtrace t\<rparr>"

section \<open>Basic facts\<close>

declare walk.simps [simp del]

lemma NBUF_pos: "NBUF = 30" by (simp add: NBUF_def)

lemma mach_upd_bufs [simp]:
  "this_cpu (s\<lparr>bufs := a\<rparr>) = this_cpu s" "cli_ok (s\<lparr>bufs := a\<rparr>) = cli_ok s"
  "lk_free l (s\<lparr>bufs := a\<rparr>) = lk_free l s" "calm (s\<lparr>bufs := a\<rparr>) = calm s"
  "this_cpu (s\<lparr>disk := b\<rparr>) = this_cpu s" "cli_ok (s\<lparr>disk := b\<rparr>) = cli_ok s"
  "lk_free l (s\<lparr>disk := b\<rparr>) = lk_free l s" "calm (s\<lparr>disk := b\<rparr>) = calm s"
  "this_cpu (s\<lparr>dtrace := c\<rparr>) = this_cpu s" "cli_ok (s\<lparr>dtrace := c\<rparr>) = cli_ok s"
  "lk_free l (s\<lparr>dtrace := c\<rparr>) = lk_free l s" "calm (s\<lparr>dtrace := c\<rparr>) = calm s"
  by (simp_all add: this_cpu_def cli_ok_def readeflags_IF_def lk_free_def calm_def cur_def)

lemma cur_upd_bufs [simp]: "cur (s\<lparr>bufs := a\<rparr>) = cur s"
  by (simp add: cur_def)

lemma lruD:
  assumes "lru s xs"
  shows "length (bufs s) = Suc NBUF" "distinct xs" "set xs = {..<NBUF}" "NBUF \<notin> set xs" "length xs < Suc NBUF"
  using assms distinct_card[of xs] by (auto simp: lru_def)

lemma walk_lru:
  assumes "lru s xs"
  shows "walk (Suc NBUF) bnext Q (bnext (bufs s ! NBUF)) (bufs s) = Some (List.find (\<lambda>b. Q (bufs s ! b)) xs)"
    and "walk (Suc NBUF) bprev Q (bprev (bufs s ! NBUF)) (bufs s) = Some (List.find (\<lambda>b. Q (bufs s ! b)) (rev xs))"
proof -
  have p: "dll (nxt s) (prv s) NBUF xs NBUF" using assms by (simp add: lru_def)
  show "walk (Suc NBUF) bnext Q (bnext (bufs s ! NBUF)) (bufs s) = Some (List.find (\<lambda>b. Q (bufs s ! b)) xs)"
    by (rule walk_next[OF p]) (use lruD[OF assms] in \<open>auto simp: nxt_def\<close>)
  show "walk (Suc NBUF) bprev Q (bprev (bufs s ! NBUF)) (bufs s) = Some (List.find (\<lambda>b. Q (bufs s ! b)) (rev xs))"
    by (rule walk_next[OF dll_rev[OF p]]) (use lruD[OF assms] in \<open>auto simp: prv_def\<close>)
qed

section \<open>Looking up a buffer\<close>

text \<open>\<open>lock_buf\<close>: the sleep lock of buffer \<open>b\<close> taken by the current process.\<close>

definition lock_buf :: "nat \<Rightarrow> ('x) bufst_scheme \<Rightarrow> ('x) bufst_scheme" where
  "lock_buf b s = s\<lparr>sleeps := (sleeps s)(SL_buf b :=
     (sleeps s (SL_buf b))\<lparr>sl_locked := True, sl_pid := pid (procs s ! the (cur s))\<rparr>)\<rparr>"

lemma bget_cases:
  assumes "calm s" "lru s xs"
  shows "bget dev n s =
    (case List.find (\<lambda>b. bdev (bufs s ! b) = dev \<and> blockno (bufs s ! b) = n) xs of
       Some b \<Rightarrow> bnd (acquiresleep (SL_buf b) (upd_buf b (\<lambda>k. k\<lparr>refcnt := refcnt k + 1\<rparr>) s)) (\<lambda>_ s. Ret b s)
     | None \<Rightarrow>
         (case List.find (\<lambda>b. refcnt (bufs s ! b) = 0 \<and> \<not> bdirty (bufs s ! b)) (rev xs) of
            Some b \<Rightarrow> bnd (acquiresleep (SL_buf b) (upd_buf b (\<lambda>k. k\<lparr>bdev := dev, blockno := n,
                          bvalid := False, bdirty := False, refcnt := 1\<rparr>) s)) (\<lambda>_ s. Ret b s)
          | None \<Rightarrow> Panic ''bget: no buffers''))"
proof -
  let ?a = "acq L_bcache s"
  have b: "bufs ?a = bufs s" by (simp add: acq_def)
  have len: "b < length (bufs s)" if "List.find Q ys = Some b" "set ys \<subseteq> {..<NBUF}" for Q ys b
    using that lruD(1)[OF assms(2)] find_SomeD[of Q ys b] by auto
  have rel: "release L_bcache (upd_buf b f ?a) = Ret () (upd_buf b f s)" for b f
    unfolding upd_buf_def b
    by (subst release_acq[OF calmD[OF assms(1)]]) (simp_all add: acq_def)
  have cmp: "upd_buf b g (upd_buf b f ?a) = upd_buf b (\<lambda>k. g (f k)) ?a" if "b < length (bufs s)" for b f g
    using that by (simp add: upd_buf_def b)
  show ?thesis
  proof (cases "List.find (\<lambda>b. bdev (bufs s ! b) = dev \<and> blockno (bufs s ! b) = n) xs")
    case (Some b)
    then show ?thesis
      unfolding bget_def acquire_acq[OF calmD[OF assms(1)]] bnd.simps b walk_lru[OF assms(2)]
      by (simp add: rel)
  next
    case None
    show ?thesis
    proof (cases "List.find (\<lambda>b. refcnt (bufs s ! b) = 0 \<and> \<not> bdirty (bufs s ! b)) (rev xs)")
      case None': None
      show ?thesis
        unfolding bget_def acquire_acq[OF calmD[OF assms(1)]] bnd.simps b walk_lru[OF assms(2)] None None'
        by simp
    next
      case (Some b)
      have "b < length (bufs s)" by (rule len[OF Some]) (use lruD(3)[OF assms(2)] in simp)
      then show ?thesis
        unfolding bget_def acquire_acq[OF calmD[OF assms(1)]] bnd.simps b walk_lru[OF assms(2)] None Some
        by (simp add: Let_def cmp rel)
    qed
  qed
qed

lemma iderw_read:
  assumes "calm s" "blk_locked s b" "b < length (bufs s)" "\<not> bvalid (bufs s ! b)" "\<not> bdirty (bufs s ! b)"
    "bdev (bufs s ! b) = 1" "blockno (bufs s ! b) < disksize s"
  shows "iderw b s = Ret () (upd_buf b (\<lambda>k. k\<lparr>bdata := disk s (unat (blockno k)), bvalid := True\<rparr>) s)"
  using assms by (simp add: iderw_def holdingsleep_eq blk_locked_def upd_buf_def Let_def not_le)

lemma iderw_write:
  assumes "calm s" "blk_locked s b" "b < length (bufs s)" "bdirty (bufs s ! b)"
    "bdev (bufs s ! b) = 1" "blockno (bufs s ! b) < disksize s"
  shows "iderw b s = Ret () (s\<lparr>bufs := (bufs s)[b := (bufs s ! b)\<lparr>bdirty := False, bvalid := True\<rparr>],
     disk := (disk s)(unat (blockno (bufs s ! b)) := bdata (bufs s ! b)),
     dtrace := dtrace s @ [(unat (blockno (bufs s ! b)), bdata (bufs s ! b))]\<rparr>)"
  using assms by (simp add: iderw_def holdingsleep_eq blk_locked_def upd_buf_def Let_def not_le)

lemma bwrite_eq:
  assumes "calm s" "blk_locked s b" "b < length (bufs s)" "bdev (bufs s ! b) = 1" "blockno (bufs s ! b) < disksize s"
  shows "bwrite b s = Ret () (s\<lparr>bufs := (bufs s)[b := (bufs s ! b)\<lparr>bdirty := False, bvalid := True\<rparr>],
     disk := (disk s)(unat (blockno (bufs s ! b)) := bdata (bufs s ! b)),
     dtrace := dtrace s @ [(unat (blockno (bufs s ! b)), bdata (bufs s ! b))]\<rparr>)"
proof -
  let ?t = "upd_buf b (\<lambda>k. k\<lparr>bdirty := True\<rparr>) s"
  have "bwrite b s = iderw b ?t"
    using assms by (simp add: bwrite_def holdingsleep_eq blk_locked_def)
  also have "\<dots> = Ret () (?t\<lparr>bufs := (bufs ?t)[b := (bufs ?t ! b)\<lparr>bdirty := False, bvalid := True\<rparr>],
     disk := (disk ?t)(unat (blockno (bufs ?t ! b)) := bdata (bufs ?t ! b)),
     dtrace := dtrace ?t @ [(unat (blockno (bufs ?t ! b)), bdata (bufs ?t ! b))]\<rparr>)"
    by (rule iderw_write) (use assms in \<open>auto simp: upd_buf_def blk_locked_def\<close>)
  finally show ?thesis using assms(3) by (simp add: upd_buf_def)
qed

lemma cache_okD:
  assumes "cache_ok s" "i < NBUF"
  shows "refcnt (bufs s ! i) = (if blk_locked s i then 1 else 0)"
    and "bdirty (bufs s ! i) \<Longrightarrow> bvalid (bufs s ! i) \<and> bdev (bufs s ! i) = 1"
    and "blk_locked s i \<Longrightarrow> bvalid (bufs s ! i) \<and> bdev (bufs s ! i) = 1 \<and> blockno (bufs s ! i) < disksize s"
    and "bvalid (bufs s ! i) \<Longrightarrow> length (bdata (bufs s ! i)) = BSIZE"
    and "bvalid (bufs s ! i) \<Longrightarrow> bdev (bufs s ! i) = 1 \<Longrightarrow> \<not> blk_locked s i \<Longrightarrow> \<not> bdirty (bufs s ! i) \<Longrightarrow>
      bdata (bufs s ! i) = disk s (unat (blockno (bufs s ! i)))"
    and "j < NBUF \<Longrightarrow> holds (bufs s ! i) n \<Longrightarrow> holds (bufs s ! j) n \<Longrightarrow> i = j"
    and "m < unat (disksize s) \<Longrightarrow> length (disk s m) = BSIZE"
  using assms unfolding cache_ok_def Let_def by (metis, metis, metis, metis, metis, metis, metis)

lemma content_hit:
  assumes "cache_ok s" "i < NBUF" "holds (bufs s ! i) n" "bvalid (bufs s ! i)"
  shows "content s n = bdata (bufs s ! i)"
proof -
  let ?f = "List.find (\<lambda>i. holds (bufs s ! i) n \<and> bvalid (bufs s ! i)) [0..<NBUF]"
  have "?f \<noteq> None" using assms by (auto simp: find_None_iff)
  then obtain j where j: "?f = Some j" by auto
  then have "j < NBUF" "holds (bufs s ! j) n" using find_SomeD[OF j] by auto
  then have "j = i" using cache_okD(6)[OF assms(1), of j i n] assms by simp
  then show ?thesis using j by (simp add: content_def)
qed

lemma content_miss:
  assumes "\<And>i. i < NBUF \<Longrightarrow> holds (bufs s ! i) n \<Longrightarrow> \<not> bvalid (bufs s ! i)"
  shows "content s n = disk s (unat n)"
proof -
  have "List.find (\<lambda>i. holds (bufs s ! i) n \<and> bvalid (bufs s ! i)) [0..<NBUF] = None"
    using assms by (auto simp: find_None_iff)
  then show ?thesis by (simp add: content_def)
qed

lemma length_content:
  assumes "cache_ok s" "n < disksize s"
  shows "length (content s n) = BSIZE"
proof (cases "\<exists>i<NBUF. holds (bufs s ! i) n \<and> bvalid (bufs s ! i)")
  case True
  then show ?thesis using content_hit[OF assms(1)] cache_okD(4)[OF assms(1)] by auto
next
  case False
  then have "content s n = disk s (unat n)" by (intro content_miss) blast
  then show ?thesis using cache_okD(7)[OF assms(1), of 0] assms(2) by (simp add: NBUF_def word_less_nat_alt)
qed

lemma content_clean:
  assumes "cache_ok s" "n \<notin> dirty_blocks s" "\<And>i. i < NBUF \<Longrightarrow> holds (bufs s ! i) n \<Longrightarrow> \<not> blk_locked s i"
  shows "content s n = disk s (unat n)"
proof (cases "\<exists>i<NBUF. holds (bufs s ! i) n \<and> bvalid (bufs s ! i)")
  case True
  then obtain i where i: "i < NBUF" "holds (bufs s ! i) n" "bvalid (bufs s ! i)" by auto
  then have "\<not> bdirty (bufs s ! i)" using assms(2) by (auto simp: dirty_blocks_def holds_def)
  then show ?thesis
    using content_hit[OF assms(1) i] cache_okD(5)[OF assms(1) i(1)] i assms(3) by (simp add: holds_def)
next
  case False
  then show ?thesis by (intro content_miss) blast
qed

section \<open>Reading a block\<close>

text \<open>
  \<open>take_buf b k s\<close> is the state after buffer \<open>b\<close> has been locked and
  filled as \<open>k\<close>.
\<close>

definition take_buf :: "nat \<Rightarrow> buf \<Rightarrow> ('x) bufst_scheme \<Rightarrow> ('x) bufst_scheme" where
  "take_buf b k s = (lock_buf b s)\<lparr>bufs := (bufs s)[b := k]\<rparr>"

definition fills :: "('x) bufst_scheme \<Rightarrow> uint \<Rightarrow> nat \<Rightarrow> buf \<Rightarrow> bool" where
  "fills s n b k \<longleftrightarrow> b < NBUF \<and> \<not> blk_locked s b \<and> holds k n \<and> bvalid k \<and> refcnt k = 1 \<and>
     bnext k = bnext (bufs s ! b) \<and> bprev k = bprev (bufs s ! b) \<and> bdata k = content s n \<and>
     bdirty k = bdirty (bufs s ! b) \<and>
     (holds (bufs s ! b) n \<or> (reusable s b \<and> (\<forall>i<NBUF. \<not> holds (bufs s ! i) n)))"

lemma acquiresleep_buf:
  assumes "calm s" "\<not> blk_locked s b"
  shows "acquiresleep (SL_buf b) s = Ret () (lock_buf b s)"
  using assms by (simp add: acquiresleep_eq lock_buf_def blk_locked_def)

lemma find_holds: "(\<lambda>b. bdev (bufs s ! b) = 1 \<and> blockno (bufs s ! b) = n) = (\<lambda>b. holds (bufs s ! b) n)"
  by (simp add: holds_def)

lemma bread_hit:
  assumes ok: "calm s" "lru s xs" "cache_ok s" and n: "n < disksize s"
    and b: "b < NBUF" "holds (bufs s ! b) n" "\<not> blk_locked s b"
  shows "\<exists>k. bread 1 n s = Ret b (take_buf b k s) \<and> fills s n b k"
proof -
  note len = lruD(1)[OF ok(2)]
  have "List.find (\<lambda>b. holds (bufs s ! b) n) xs \<noteq> None"
    using lruD(3)[OF ok(2)] b by (auto simp: find_None_iff)
  then obtain c where c: "List.find (\<lambda>b. holds (bufs s ! b) n) xs = Some c" by auto
  then have "c = b" using find_SomeD[OF c] lruD(3)[OF ok(2)] cache_okD(6)[OF ok(3), of c b n] b by auto
  then have f: "List.find (\<lambda>b. holds (bufs s ! b) n) xs = Some b" using c by simp
  have r0: "refcnt (bufs s ! b) = 0" using cache_okD(1)[OF ok(3) b(1)] b by simp
  define s1 where "s1 = upd_buf b (\<lambda>k. k\<lparr>refcnt := refcnt k + 1\<rparr>) s"
  have s1: "calm s1" "\<not> blk_locked s1 b" "bufs s1 = (bufs s)[b := (bufs s ! b)\<lparr>refcnt := 1\<rparr>]" "disksize s1 = disksize s"
    using ok(1) b r0 by (simp_all add: s1_def upd_buf_def blk_locked_def)
  have g: "bget 1 n s = Ret b (lock_buf b s1)"
    unfolding bget_cases[OF ok(1,2)] find_holds f using acquiresleep_buf[OF s1(1,2)] by (simp add: s1_def)
  have lb: "bufs (lock_buf b s1) = bufs s1" by (simp add: lock_buf_def)
  show ?thesis
  proof (cases "bvalid (bufs s ! b)")
    case True
    have "bread 1 n s = Ret b (lock_buf b s1)"
      using True b len by (simp add: bread_def g lb s1)
    moreover have "lock_buf b s1 = take_buf b ((bufs s ! b)\<lparr>refcnt := 1\<rparr>) s"
      using s1 by (simp add: take_buf_def lock_buf_def s1_def upd_buf_def r0)
    moreover have "fills s n b ((bufs s ! b)\<lparr>refcnt := 1\<rparr>)"
      using b True content_hit[OF ok(3) b(1,2) True] by (simp add: fills_def holds_def)
    ultimately show ?thesis by auto
  next
    case False
    have nd: "\<not> bdirty (bufs s ! b)" using cache_okD(2)[OF ok(3) b(1)] False by auto
    have "iderw b (lock_buf b s1) = Ret () (upd_buf b (\<lambda>k. k\<lparr>bdata := disk s (unat (blockno k)), bvalid := True\<rparr>) (lock_buf b s1))"
      by (subst iderw_read) (use False nd b len n s1 lb in \<open>auto simp: lock_buf_def blk_locked_def holds_def s1_def upd_buf_def calm_def\<close>)
    then have "bread 1 n s = Ret b (upd_buf b (\<lambda>k. k\<lparr>bdata := disk s (unat (blockno k)), bvalid := True\<rparr>) (lock_buf b s1))"
      using False b len by (simp add: bread_def g lb s1)
    moreover have "upd_buf b (\<lambda>k. k\<lparr>bdata := disk s (unat (blockno k)), bvalid := True\<rparr>) (lock_buf b s1)
        = take_buf b ((bufs s ! b)\<lparr>refcnt := 1, bdata := disk s (unat n), bvalid := True\<rparr>) s"
      using b len by (simp add: take_buf_def lock_buf_def s1_def upd_buf_def r0 holds_def)
    moreover have "content s n = disk s (unat n)"
      using cache_okD(6)[OF ok(3) _ b(1), of _ n] b False by (intro content_miss) metis
    then have "fills s n b ((bufs s ! b)\<lparr>refcnt := 1, bdata := disk s (unat n), bvalid := True\<rparr>)"
      using b by (simp add: fills_def holds_def)
    ultimately show ?thesis by auto
  qed
qed

lemma bread_miss:
  assumes ok: "calm s" "lru s xs" "cache_ok s" and n: "n < disksize s"
    and no: "\<not> (\<exists>i<NBUF. holds (bufs s ! i) n)"
    and f: "List.find (reusable s) (rev xs) = Some b"
  shows "\<exists>k. bread 1 n s = Ret b (take_buf b k s) \<and> fills s n b k"
proof -
  note len = lruD(1)[OF ok(2)]
  have f0: "List.find (\<lambda>b. holds (bufs s ! b) n) xs = None"
    using lruD(3)[OF ok(2)] no by (auto simp: find_None_iff)
  have f': "List.find (\<lambda>b. refcnt (bufs s ! b) = 0 \<and> \<not> bdirty (bufs s ! b)) (rev xs) = Some b"
    using f lruD(3)[OF ok(2)] by (subst find_cong[OF refl]) (auto simp: reusable_def)
  have b: "b < NBUF" "refcnt (bufs s ! b) = 0" "\<not> bdirty (bufs s ! b)"
    using find_SomeD[OF f] by (auto simp: reusable_def)
  have nl: "\<not> blk_locked s b" using cache_okD(1)[OF ok(3) b(1)] b by (auto split: if_splits)
  let ?k = "(bufs s ! b)\<lparr>bdev := 1, blockno := n, bvalid := False, bdirty := False, refcnt := 1\<rparr>"
  define s1 where "s1 = upd_buf b (\<lambda>k. k\<lparr>bdev := 1, blockno := n, bvalid := False, bdirty := False, refcnt := 1\<rparr>) s"
  have s1: "calm s1" "\<not> blk_locked s1 b" "bufs s1 = (bufs s)[b := ?k]" "disksize s1 = disksize s"
    using ok(1) nl by (simp_all add: s1_def upd_buf_def blk_locked_def)
  have g: "bget 1 n s = Ret b (lock_buf b s1)"
    unfolding bget_cases[OF ok(1,2)] find_holds f' f0 using acquiresleep_buf[OF s1(1,2)] by (simp add: s1_def)
  have lb: "bufs (lock_buf b s1) = bufs s1" by (simp add: lock_buf_def)
  have "iderw b (lock_buf b s1) = Ret () (upd_buf b (\<lambda>k. k\<lparr>bdata := disk s (unat (blockno k)), bvalid := True\<rparr>) (lock_buf b s1))"
    by (subst iderw_read) (use b len n s1 lb in \<open>auto simp: lock_buf_def blk_locked_def s1_def upd_buf_def calm_def\<close>)
  then have "bread 1 n s = Ret b (upd_buf b (\<lambda>k. k\<lparr>bdata := disk s (unat (blockno k)), bvalid := True\<rparr>) (lock_buf b s1))"
    using b len by (simp add: bread_def g lb s1)
  moreover have "upd_buf b (\<lambda>k. k\<lparr>bdata := disk s (unat (blockno k)), bvalid := True\<rparr>) (lock_buf b s1)
      = take_buf b (?k\<lparr>bdata := disk s (unat n), bvalid := True\<rparr>) s"
    using b len by (simp add: take_buf_def lock_buf_def s1_def upd_buf_def)
  moreover have "content s n = disk s (unat n)" using no by (intro content_miss) blast
  then have "fills s n b (?k\<lparr>bdata := disk s (unat n), bvalid := True\<rparr>)"
    using b nl no by (auto simp: fills_def holds_def reusable_def)
  ultimately show ?thesis by auto
qed

lemma bread_full:
  assumes ok: "calm s" "lru s xs" and no: "\<not> (\<exists>i<NBUF. holds (bufs s ! i) n)" "List.find (reusable s) (rev xs) = None"
  shows "bread 1 n s = Panic ''bget: no buffers''"
proof -
  have "List.find (\<lambda>b. holds (bufs s ! b) n) xs = None"
    using lruD(3)[OF ok(2)] no by (auto simp: find_None_iff)
  moreover have "List.find (\<lambda>b. refcnt (bufs s ! b) = 0 \<and> \<not> bdirty (bufs s ! b)) (rev xs) = None"
    using no(2) lruD(3)[OF ok(2)] by (auto simp: find_None_iff reusable_def)
  ultimately show ?thesis unfolding bread_def bget_cases[OF ok] find_holds by simp
qed

lemma bread_take:
  assumes ok: "calm s" "lru s xs" "cache_ok s" and n: "n < disksize s"
    and free: "\<And>i. i < NBUF \<Longrightarrow> holds (bufs s ! i) n \<Longrightarrow> \<not> blk_locked s i"
    and room: "(\<exists>i<NBUF. holds (bufs s ! i) n) \<or> (\<exists>i. reusable s i)"
  shows "\<exists>b k. bread 1 n s = Ret b (take_buf b k s) \<and> fills s n b k"
proof (cases "\<exists>i<NBUF. holds (bufs s ! i) n")
  case True
  then show ?thesis using bread_hit[OF ok n] free by blast
next
  case False
  then have "List.find (reusable s) (rev xs) \<noteq> None"
    using room lruD(3)[OF ok(2)] by (auto simp: find_None_iff reusable_def)
  then show ?thesis using bread_miss[OF ok n False] by blast
qed

definition bio_ok :: "('x) bufst_scheme \<Rightarrow> bool" where
  "bio_ok s \<longleftrightarrow> calm s \<and> (\<exists>xs. lru s xs) \<and> cache_ok s"

lemma calm_lock_buf [simp]: "calm (lock_buf b s) = calm s"
  by (simp add: lock_buf_def)

lemma take_buf_sel [simp]:
  "disk (take_buf b k s) = disk s" "dtrace (take_buf b k s) = dtrace s" "disksize (take_buf b k s) = disksize s"
  "bufs (take_buf b k s) = (bufs s)[b := k]" "calm (take_buf b k s) = calm s"
  by (simp_all add: take_buf_def lock_buf_def)

lemma blk_locked_take [simp]: "blk_locked (take_buf b k s) = (blk_locked s)(b := True)"
  by (auto simp: blk_locked_def take_buf_def lock_buf_def fun_eq_iff)

lemma bframe_take [simp]: "bframe s (take_buf b k s)"
  by (simp add: bframe_def take_buf_def lock_buf_def)

lemma lru_links:
  assumes "lru s xs" "length (bufs t) = length (bufs s)" "nxt t = nxt s" "prv t = prv s"
  shows "lru t xs"
  using assms by (simp add: lru_def)

lemma lru_take:
  assumes "lru s xs" "fills s n b k"
  shows "lru (take_buf b k s) xs"
proof (rule lru_links[OF assms(1)])
  show "nxt (take_buf b k s) = nxt s" "prv (take_buf b k s) = prv s"
    using assms lruD(1)[OF assms(1)] by (auto simp: nxt_def prv_def fun_eq_iff fills_def nth_list_update)
qed simp

lemma cache_ok_take:
  assumes "cache_ok s" "length (bufs s) = Suc NBUF" "fills s n b k" "n < disksize s"
  shows "cache_ok (take_buf b k s)"
proof -
  note f = assms(3)[unfolded fills_def]
  have k: "bvalid k" "refcnt k = 1" "bdev k = 1" "blockno k = n" using f by (auto simp: holds_def)
  have lc: "length (content s n) = BSIZE"
    by (rule length_content[OF assms(1,4)])
  have uniq: "i = j" if "i < NBUF" "j < NBUF" "holds ((bufs s)[b := k] ! i) m" "holds ((bufs s)[b := k] ! j) m" for i j m
    using that f assms(2) cache_okD(6)[OF assms(1)]
    by (cases "i = b"; cases "j = b") (auto simp: holds_def)
  show ?thesis
    unfolding cache_ok_def Let_def
  proof (intro conjI allI impI)
    show "i = j" if "i < NBUF" "j < NBUF" "holds (bufs (take_buf b k s) ! i) m" "holds (bufs (take_buf b k s) ! j) m" for i j m
      using uniq[of i j m] that by simp
    fix i assume i: "i < NBUF"
    have e: "(bufs s)[b := k] ! i = (if i = b then k else bufs s ! i)"
      using assms(2) i by (simp add: nth_list_update)
    show "refcnt (bufs (take_buf b k s) ! i) = (if blk_locked (take_buf b k s) i then 1 else 0)"
      using cache_okD(1)[OF assms(1) i] k by (simp add: e)
    show "bdirty (bufs (take_buf b k s) ! i) \<Longrightarrow> bvalid (bufs (take_buf b k s) ! i)"
      "bdirty (bufs (take_buf b k s) ! i) \<Longrightarrow> bdev (bufs (take_buf b k s) ! i) = 1"
      using cache_okD(2)[OF assms(1) i] k by (auto simp: e split: if_splits)
    show "blk_locked (take_buf b k s) i \<Longrightarrow> bvalid (bufs (take_buf b k s) ! i)"
      "blk_locked (take_buf b k s) i \<Longrightarrow> bdev (bufs (take_buf b k s) ! i) = 1"
      "blk_locked (take_buf b k s) i \<Longrightarrow> blockno (bufs (take_buf b k s) ! i) < disksize (take_buf b k s)"
      using cache_okD(3)[OF assms(1) i] k assms(4) by (auto simp: e split: if_splits)
    show "bvalid (bufs (take_buf b k s) ! i) \<Longrightarrow> length (bdata (bufs (take_buf b k s) ! i)) = BSIZE"
      using cache_okD(4)[OF assms(1) i] k f lc by (auto simp: e split: if_splits)
    show "bvalid (bufs (take_buf b k s) ! i) \<Longrightarrow> bdev (bufs (take_buf b k s) ! i) = 1 \<Longrightarrow> \<not> blk_locked (take_buf b k s) i \<Longrightarrow>
      \<not> bdirty (bufs (take_buf b k s) ! i) \<Longrightarrow> bdata (bufs (take_buf b k s) ! i) = disk (take_buf b k s) (unat (blockno (bufs (take_buf b k s) ! i)))"
      using cache_okD(5)[OF assms(1) i] by (auto simp: e split: if_splits)
  next
    show "length (disk (take_buf b k s) m) = BSIZE" if "m < unat (disksize (take_buf b k s))" for m
      using cache_okD(7)[OF assms(1), of 0] that by (simp add: NBUF_def)
  qed
qed

lemma content_take:
  assumes "cache_ok s" "length (bufs s) = Suc NBUF" "fills s n b k" "n < disksize s"
  shows "content (take_buf b k s) m = content s m"
proof -
  note f = assms(3)[unfolded fills_def]
  let ?t = "take_buf b k s"
  have ok: "cache_ok ?t" by (rule cache_ok_take[OF assms])
  have b: "bufs ?t ! b = k" using f assms(2) by simp
  show ?thesis
  proof (cases "m = n")
    case True
    then show ?thesis using content_hit[OF ok, of b n] f b by simp
  next
    case False
    show ?thesis
    proof (cases "\<exists>i<NBUF. i \<noteq> b \<and> holds (bufs s ! i) m \<and> bvalid (bufs s ! i)")
      case True
      then obtain i where i: "i < NBUF" "i \<noteq> b" "holds (bufs s ! i) m" "bvalid (bufs s ! i)" by auto
      then show ?thesis using content_hit[OF assms(1) i(1,3,4)] content_hit[OF ok i(1)] by simp
    next
      case no: False
      have "content ?t m = disk ?t (unat m)"
      proof (rule content_miss)
        fix i assume "i < NBUF" "holds (bufs ?t ! i) m"
        then show "\<not> bvalid (bufs ?t ! i)"
          using no False f assms(2) by (cases "i = b") (auto simp: holds_def)
      qed
      also have "\<dots> = content s m"
      proof (cases "holds (bufs s ! b) m \<and> bvalid (bufs s ! b)")
        case True
        then have "reusable s b" using f False by (auto simp: holds_def)
        then have "bdata (bufs s ! b) = disk s (unat m)"
          using cache_okD(5)[OF assms(1), of b] True f by (auto simp: reusable_def holds_def)
        then show ?thesis using content_hit[OF assms(1), of b m] True f by simp
      next
        case False
        then have "content s m = disk s (unat m)" using no by (intro content_miss) metis
        then show ?thesis by simp
      qed
      finally show ?thesis .
    qed
  qed
qed

lemma dirty_take:
  assumes "cache_ok s" "length (bufs s) = Suc NBUF" "fills s n b k"
  shows "dirty_blocks (take_buf b k s) = dirty_blocks s"
proof -
  note f = assms(3)[unfolded fills_def]
  have "bdirty ((bufs s)[b := k] ! i) = bdirty (bufs s ! i)" "bdirty (bufs s ! i) \<Longrightarrow> blockno ((bufs s)[b := k] ! i) = blockno (bufs s ! i)"
    if "i < NBUF" for i
    using that f assms(2) by (auto simp: nth_list_update reusable_def holds_def)
  then show ?thesis by (auto simp: dirty_blocks_def) metis+
qed

section \<open>Changing a block\<close>

text \<open>The holder of a buffer replaces its contents, and perhaps the block on disk.\<close>

definition put_buf :: "nat \<Rightarrow> buf \<Rightarrow> (nat \<Rightarrow> block) \<Rightarrow> (nat \<times> block) list \<Rightarrow> ('x) bufst_scheme \<Rightarrow> ('x) bufst_scheme" where
  "put_buf b k d tr s = s\<lparr>bufs := (bufs s)[b := k], disk := d, dtrace := tr\<rparr>"

definition keeps :: "('x) bufst_scheme \<Rightarrow> nat \<Rightarrow> buf \<Rightarrow> (nat \<Rightarrow> block) \<Rightarrow> bool" where
  "keeps s b k d \<longleftrightarrow> b < NBUF \<and> blk_locked s b \<and> bdev k = 1 \<and> blockno k = blockno (bufs s ! b) \<and> refcnt k = 1 \<and>
     bvalid k \<and> length (bdata k) = BSIZE \<and> bnext k = bnext (bufs s ! b) \<and> bprev k = bprev (bufs s ! b) \<and>
     (d = disk s \<or> (\<exists>x. length x = BSIZE \<and> d = (disk s)(unat (blockno k) := x)))"

lemma put_buf_sel [simp]:
  "disk (put_buf b k d tr s) = d" "dtrace (put_buf b k d tr s) = tr" "disksize (put_buf b k d tr s) = disksize s"
  "bufs (put_buf b k d tr s) = (bufs s)[b := k]" "calm (put_buf b k d tr s) = calm s"
  "blk_locked (put_buf b k d tr s) = blk_locked s" "bframe s (put_buf b k d tr s)"
  by (simp_all add: put_buf_def blk_locked_def fun_eq_iff bframe_def)

lemma lru_put:
  assumes "lru s xs" "keeps s b k d"
  shows "lru (put_buf b k d tr s) xs"
proof (rule lru_links[OF assms(1)])
  show "nxt (put_buf b k d tr s) = nxt s" "prv (put_buf b k d tr s) = prv s"
    using assms lruD(1)[OF assms(1)] by (auto simp: nxt_def prv_def fun_eq_iff keeps_def nth_list_update)
qed simp

lemma cache_ok_put:
  assumes "cache_ok s" "length (bufs s) = Suc NBUF" "keeps s b k d"
  shows "cache_ok (put_buf b k d tr s)"
proof -
  note f = assms(3)[unfolded keeps_def]
  have old: "bdev (bufs s ! b) = 1" "blockno (bufs s ! b) < disksize s"
    using cache_okD(3)[OF assms(1), of b] f by auto
  have uniq: "i = j" if "i < NBUF" "j < NBUF" "holds ((bufs s)[b := k] ! i) m" "holds ((bufs s)[b := k] ! j) m" for i j m
    using that f old assms(2) cache_okD(6)[OF assms(1), of i j m]
    by (cases "i = b"; cases "j = b") (auto simp: holds_def)
  have dk: "d (unat (blockno (bufs s ! i))) = disk s (unat (blockno (bufs s ! i)))" if "i < NBUF" "i \<noteq> b" "bdev (bufs s ! i) = 1" for i
    using that f old cache_okD(6)[OF assms(1), of i b "blockno k"] by (auto simp: holds_def simp flip: word_unat_eq_iff)
  show ?thesis
    unfolding cache_ok_def Let_def
  proof (intro conjI allI impI)
    show "i = j" if "i < NBUF" "j < NBUF" "holds (bufs (put_buf b k d tr s) ! i) m" "holds (bufs (put_buf b k d tr s) ! j) m" for i j m
      using uniq[of i j m] that by simp
    fix i assume i: "i < NBUF"
    have e: "(bufs s)[b := k] ! i = (if i = b then k else bufs s ! i)"
      using assms(2) i by (simp add: nth_list_update)
    show "refcnt (bufs (put_buf b k d tr s) ! i) = (if blk_locked (put_buf b k d tr s) i then 1 else 0)"
      using cache_okD(1)[OF assms(1) i] f by (simp add: e)
    show "bdirty (bufs (put_buf b k d tr s) ! i) \<Longrightarrow> bvalid (bufs (put_buf b k d tr s) ! i)"
      "bdirty (bufs (put_buf b k d tr s) ! i) \<Longrightarrow> bdev (bufs (put_buf b k d tr s) ! i) = 1"
      using cache_okD(2)[OF assms(1) i] f by (auto simp: e split: if_splits)
    show "blk_locked (put_buf b k d tr s) i \<Longrightarrow> bvalid (bufs (put_buf b k d tr s) ! i)"
      "blk_locked (put_buf b k d tr s) i \<Longrightarrow> bdev (bufs (put_buf b k d tr s) ! i) = 1"
      "blk_locked (put_buf b k d tr s) i \<Longrightarrow> blockno (bufs (put_buf b k d tr s) ! i) < disksize (put_buf b k d tr s)"
      using cache_okD(3)[OF assms(1) i] f old by (auto simp: e split: if_splits)
    show "bvalid (bufs (put_buf b k d tr s) ! i) \<Longrightarrow> length (bdata (bufs (put_buf b k d tr s) ! i)) = BSIZE"
      using cache_okD(4)[OF assms(1) i] f by (auto simp: e split: if_splits)
    show "bvalid (bufs (put_buf b k d tr s) ! i) \<Longrightarrow> bdev (bufs (put_buf b k d tr s) ! i) = 1 \<Longrightarrow> \<not> blk_locked (put_buf b k d tr s) i \<Longrightarrow>
      \<not> bdirty (bufs (put_buf b k d tr s) ! i) \<Longrightarrow> bdata (bufs (put_buf b k d tr s) ! i) = disk (put_buf b k d tr s) (unat (blockno (bufs (put_buf b k d tr s) ! i)))"
      using cache_okD(5)[OF assms(1) i] dk[OF i] f by (auto simp: e split: if_splits)
  next
    show "length (disk (put_buf b k d tr s) m) = BSIZE" if "m < unat (disksize (put_buf b k d tr s))" for m
      using cache_okD(7)[OF assms(1), of 0] f that by (auto simp: NBUF_def)
  qed
qed

lemma content_put:
  assumes "cache_ok s" "length (bufs s) = Suc NBUF" "keeps s b k d"
  shows "content (put_buf b k d tr s) = (content s)(blockno k := bdata k)"
proof
  fix m
  note f = assms(3)[unfolded keeps_def]
  let ?t = "put_buf b k d tr s"
  have ok: "cache_ok ?t" by (rule cache_ok_put[OF assms])
  have b: "bufs ?t ! b = k" using f assms(2) by simp
  have kb: "holds k (blockno k)" "bvalid k" using f by (auto simp: holds_def)
  show "content ?t m = ((content s)(blockno k := bdata k)) m"
  proof (cases "m = blockno k")
    case True
    then show ?thesis using content_hit[OF ok, of b m] f b by (simp add: holds_def)
  next
    case False
    have old: "\<not> holds (bufs s ! b) m" using False f by (auto simp: holds_def)
    show ?thesis
    proof (cases "\<exists>i<NBUF. holds (bufs s ! i) m \<and> bvalid (bufs s ! i)")
      case True
      then obtain i where i: "i < NBUF" "holds (bufs s ! i) m" "bvalid (bufs s ! i)" by auto
      then have "i \<noteq> b" using old by auto
      then show ?thesis
        using content_hit[OF assms(1) i] content_hit[OF ok i(1)] i False by simp
    next
      case no: False
      have "content ?t m = disk ?t (unat m)"
      proof (rule content_miss)
        fix i assume "i < NBUF" "holds (bufs ?t ! i) m"
        then show "\<not> bvalid (bufs ?t ! i)"
          using no False assms(2) by (cases "i = b") (auto simp: holds_def)
      qed
      moreover have "content s m = disk s (unat m)" using no by (intro content_miss) blast
      moreover have "unat m \<noteq> unat (blockno k)" using False by (simp flip: word_unat_eq_iff)
      ultimately show ?thesis using f False by auto
    qed
  qed
qed

lemma dirty_put:
  assumes "cache_ok s" "length (bufs s) = Suc NBUF" "keeps s b k d"
  shows "dirty_blocks (put_buf b k d tr s) =
    (if bdirty k then insert (blockno k) (dirty_blocks s) else dirty_blocks s - {blockno k})"
proof -
  note f = assms(3)[unfolded keeps_def]
  have e: "(bufs s)[b := k] ! i = (if i = b then k else bufs s ! i)" if "i < NBUF" for i
    using assms(2) that by (simp add: nth_list_update)
  have ne: "blockno (bufs s ! i) \<noteq> blockno k" if "i < NBUF" "i \<noteq> b" "bdirty (bufs s ! i)" for i
    using that f cache_okD(6)[OF assms(1), of i b "blockno k"] cache_okD(2)[OF assms(1), of i] cache_okD(3)[OF assms(1), of b]
    by (auto simp: holds_def)
  show ?thesis
  proof (intro set_eqI iffI)
    fix m assume "m \<in> dirty_blocks (put_buf b k d tr s)"
    then show "m \<in> (if bdirty k then insert (blockno k) (dirty_blocks s) else dirty_blocks s - {blockno k})"
      using ne by (auto simp: dirty_blocks_def e split: if_splits)
  next
    fix m assume m: "m \<in> (if bdirty k then insert (blockno k) (dirty_blocks s) else dirty_blocks s - {blockno k})"
    have "\<exists>i<NBUF. bdirty (bufs (put_buf b k d tr s) ! i) \<and> m = blockno (bufs (put_buf b k d tr s) ! i)"
    proof (cases "m = blockno k")
      case True
      then show ?thesis using m f by (intro exI[of _ b]) (auto simp: e split: if_splits)
    next
      case False
      then obtain i where i: "i < NBUF" "bdirty (bufs s ! i)" "m = blockno (bufs s ! i)"
        using m by (auto simp: dirty_blocks_def split: if_splits)
      then have "i \<noteq> b" using False f by auto
      then show ?thesis using i by (intro exI[of _ i]) (simp add: e)
    qed
    then show "m \<in> dirty_blocks (put_buf b k d tr s)" by (auto simp: dirty_blocks_def)
  qed
qed

section \<open>Releasing a buffer\<close>

text \<open>The six assignments that move buffer \<open>b\<close> to the front of the list.\<close>

definition move_front :: "nat \<Rightarrow> ('x) bufst_scheme \<Rightarrow> ('x) bufst_scheme" where
  "move_front b s =
     (let s = upd_buf (bnext (bufs s ! b)) (\<lambda>k. k\<lparr>bprev := bprev (bufs s ! b)\<rparr>) s;
          s = upd_buf (bprev (bufs s ! b)) (\<lambda>k. k\<lparr>bnext := bnext (bufs s ! b)\<rparr>) s;
          s = upd_buf b (\<lambda>k. k\<lparr>bnext := bnext (bufs s ! NBUF)\<rparr>) s;
          s = upd_buf b (\<lambda>k. k\<lparr>bprev := NBUF\<rparr>) s;
          s = upd_buf (bnext (bufs s ! NBUF)) (\<lambda>k. k\<lparr>bprev := b\<rparr>) s in
      upd_buf NBUF (\<lambda>k. k\<lparr>bnext := b\<rparr>) s)"

definition strip :: "buf \<Rightarrow> buf" where
  "strip k = k\<lparr>bnext := 0, bprev := 0\<rparr>"

lemma strip_sel:
  assumes "strip k = strip k'"
  shows "bvalid k = bvalid k'" "bdirty k = bdirty k'" "bdev k = bdev k'" "blockno k = blockno k'" "refcnt k = refcnt k'"
    "bdata k = bdata k'"
  using assms by (cases k; cases k'; simp add: strip_def)+

lemma upd_buf_len [simp]: "length (bufs (upd_buf b f s)) = length (bufs s)"
  by (simp add: upd_buf_def)

lemma map_strip_upd:
  assumes "\<And>k. strip (f k) = strip k"
  shows "map strip (bufs (upd_buf b f s)) = map strip (bufs s)"
  using map_list_update_same[of strip f, OF assms] by (simp add: upd_buf_def)

lemma upd_buf_other: "upd_buf b f s = s\<lparr>bufs := bufs (upd_buf b f s)\<rparr>"
  by (simp add: upd_buf_def)

lemma move_front_frame:
  "move_front b s = s\<lparr>bufs := bufs (move_front b s)\<rparr>"
  "map strip (bufs (move_front b s)) = map strip (bufs s)"
  "length (bufs (move_front b s)) = length (bufs s)"
proof -
  show "move_front b s = s\<lparr>bufs := bufs (move_front b s)\<rparr>"
    by (simp add: move_front_def Let_def upd_buf_def)
  show m: "map strip (bufs (move_front b s)) = map strip (bufs s)"
    by (simp add: move_front_def Let_def map_strip_upd strip_def)
  show "length (bufs (move_front b s)) = length (bufs s)"
    using map_eq_imp_length_eq[OF m] .
qed

lemma links_upd:
  "c < length (bufs s) \<Longrightarrow> nxt (upd_buf c (\<lambda>k. k\<lparr>bnext := v\<rparr>) s) = (nxt s)(c := v)"
  "prv (upd_buf c (\<lambda>k. k\<lparr>bnext := v\<rparr>) s) = prv s"
  "nxt (upd_buf c (\<lambda>k. k\<lparr>bprev := v\<rparr>) s) = nxt s"
  "c < length (bufs s) \<Longrightarrow> prv (upd_buf c (\<lambda>k. k\<lparr>bprev := v\<rparr>) s) = (prv s)(c := v)"
  by (cases "c < length (bufs s)"; auto simp: nxt_def prv_def upd_buf_def fun_eq_iff nth_list_update list_update_beyond)+

lemma lru_move_front:
  assumes "lru s xs" "b < NBUF"
  shows "lru (move_front b s) (b # remove1 b xs)"
proof -
  note len = lruD(1)[OF assms(1)]
  obtain as cs where xs: "xs = as @ b # cs" using split_list[of b xs] lruD(3)[OF assms(1)] assms(2) by auto
  have nin: "b \<notin> set as" "b \<notin> set cs" "distinct (as @ b # cs)" "NBUF \<notin> set (as @ b # cs)" using lruD[OF assms(1)] xs by auto
  then have rm: "remove1 b xs = as @ cs" using xs by (simp add: remove1_append)
  define N where "N = nxt s"
  define P where "P = prv s"
  have p: "dll N P NBUF as b" "dll N P b cs NBUF"
    using assms(1) xs by (simp_all add: lru_def dll_append N_def P_def)
  have Nb: "N b = hd (cs @ [NBUF])" and Pb: "P b = last (NBUF # as)"
    using dll_hd[OF p(2)] dll_last[OF p(1)] by auto
  have xsl: "i < NBUF" if "i \<in> set (as @ b # cs)" for i using that lruD(3)[OF assms(1)] xs by auto
  have bn: "b \<noteq> NBUF" using assms(2) by simp
  have "N b \<in> set (cs @ [NBUF])" unfolding Nb by (cases cs) auto
  moreover have "P b \<in> set (NBUF # as)" unfolding Pb by (rule last_in_set) simp
  ultimately have b: "N b \<noteq> b" "N b < Suc NBUF" "P b < Suc NBUF" "b \<noteq> NBUF" "P b \<noteq> b"
    using nin bn xsl by (auto simp: less_Suc_eq)
  define N1 where "N1 = N(P b := N b)"
  define P1 where "P1 = P(N b := P b)"
  have p1: "dll N1 P1 NBUF (as @ cs) NBUF"
    unfolding N1_def P1_def by (rule dll_remove[OF p]) (use nin in auto)
  have "N1 NBUF = hd (as @ cs @ [NBUF])" using dll_hd[OF p1] by simp
  also have "\<dots> \<in> set (as @ cs @ [NBUF])" by (rule hd_in_set) simp
  finally have h: "N1 NBUF < Suc NBUF" "N1 NBUF \<noteq> b" using xsl nin b by (auto simp: less_Suc_eq)
  define s1 where "s1 = upd_buf (nxt s b) (\<lambda>k. k\<lparr>bprev := prv s b\<rparr>) s"
  have s1: "nxt s1 = N" "prv s1 = P1" "length (bufs s1) = Suc NBUF"
    using b len by (simp_all add: s1_def links_upd N_def P_def P1_def)
  define s2 where "s2 = upd_buf (prv s1 b) (\<lambda>k. k\<lparr>bnext := nxt s1 b\<rparr>) s1"
  have s2: "nxt s2 = N1" "prv s2 = P1" "length (bufs s2) = Suc NBUF"
    using b by (simp_all add: s2_def links_upd s1 N1_def P1_def)
  define s3 where "s3 = upd_buf b (\<lambda>k. k\<lparr>bprev := NBUF\<rparr>) (upd_buf b (\<lambda>k. k\<lparr>bnext := nxt s2 NBUF\<rparr>) s2)"
  have s3: "nxt s3 = N1(b := N1 NBUF)" "prv s3 = P1(b := NBUF)" "length (bufs s3) = Suc NBUF"
    using b assms(2) by (simp_all add: s3_def links_upd s2)
  have mf: "move_front b s = upd_buf NBUF (\<lambda>k. k\<lparr>bnext := b\<rparr>) (upd_buf (nxt s3 NBUF) (\<lambda>k. k\<lparr>bprev := b\<rparr>) s3)"
    by (simp add: move_front_def Let_def s3_def s2_def s1_def nxt_def prv_def)
  have "nxt (move_front b s) = N1(b := N1 NBUF, NBUF := b)" "prv (move_front b s) = P1(b := NBUF, N1 NBUF := b)"
    using b h by (simp_all add: mf links_upd s3)
  then show ?thesis
    using dll_insert[OF p1, of b] nin xsl len lruD(2,3)[OF assms(1)] move_front_frame(3)[of b s] b
    unfolding rm by (auto simp: lru_def xs)
qed

text \<open>
  The state after buffer \<open>b\<close> has lost its lock and its reference, before it is
  moved to the front.
\<close>

definition drop_buf :: "nat \<Rightarrow> ('x) bufst_scheme \<Rightarrow> ('x) bufst_scheme" where
  "drop_buf b s = s\<lparr>procs := map (wk (Ch_sleep (SL_buf b))) (procs s),
     sleeps := (sleeps s)(SL_buf b := (sleeps s (SL_buf b))\<lparr>sl_locked := False, sl_pid := 0\<rparr>),
     bufs := (bufs s)[b := (bufs s ! b)\<lparr>refcnt := 0\<rparr>]\<rparr>"

lemma drop_buf_sel [simp]:
  "disk (drop_buf b s) = disk s" "dtrace (drop_buf b s) = dtrace s" "disksize (drop_buf b s) = disksize s"
  "bufs (drop_buf b s) = (bufs s)[b := (bufs s ! b)\<lparr>refcnt := 0\<rparr>]" "calm (drop_buf b s) = calm s"
  "blk_locked (drop_buf b s) = (blk_locked s)(b := False)" "bframe s (drop_buf b s)"
  by (simp_all add: drop_buf_def blk_locked_def fun_eq_iff bframe_def calm_def cur_def this_cpu_def cli_ok_def lk_free_def readeflags_IF_def)

lemma move_front_sel [simp]:
  "disk (move_front b s) = disk s" "dtrace (move_front b s) = dtrace s" "disksize (move_front b s) = disksize s"
  "calm (move_front b s) = calm s" "blk_locked (move_front b s) = blk_locked s" "bframe s (move_front b s)"
  "length (bufs (move_front b s)) = length (bufs s)"
proof -
  obtain B where e: "move_front b s = s\<lparr>bufs := B\<rparr>" using move_front_frame(1) by metis
  show "disk (move_front b s) = disk s" "dtrace (move_front b s) = dtrace s" "disksize (move_front b s) = disksize s"
    "calm (move_front b s) = calm s" "blk_locked (move_front b s) = blk_locked s" "bframe s (move_front b s)"
    by (simp_all add: e blk_locked_def fun_eq_iff bframe_def)
qed (rule move_front_frame(3))

lemma acq_bufs [simp]: "bufs (acq l s) = bufs s" by (simp add: acq_def)

lemma move_front_acq: "move_front b (acq l s) = acq l (move_front b s)"
  by (simp add: move_front_def Let_def upd_buf_def acq_def)

lemma brelse_eq:
  assumes "calm s" "blk_locked s b" "b < length (bufs s)" "refcnt (bufs s ! b) = 1"
  shows "brelse b s = Ret () (move_front b (drop_buf b s))"
proof -
  let ?u = "s\<lparr>procs := map (wk (Ch_sleep (SL_buf b))) (procs s),
     sleeps := (sleeps s)(SL_buf b := (sleeps s (SL_buf b))\<lparr>sl_locked := False, sl_pid := 0\<rparr>)\<rparr>"
  have u: "calm ?u" using assms(1) by simp
  have d: "upd_buf b (\<lambda>k. k\<lparr>refcnt := refcnt k - 1\<rparr>) (acq L_bcache ?u) = acq L_bcache (drop_buf b s)"
    using assms(3,4) by (simp add: upd_buf_def drop_buf_def acq_def)
  have cd: "calm (move_front b (drop_buf b s))" using assms(1) by simp
  have "brelse b s = bnd (acquire L_bcache ?u) (\<lambda>_ s.
       let s = upd_buf b (\<lambda>k. k\<lparr>refcnt := refcnt k - 1\<rparr>) s;
           s = (if refcnt (bufs s ! b) = 0 then move_front b s else s) in
       release L_bcache s)"
    unfolding brelse_def move_front_def Let_def
    using assms(1,2) by (simp add: holdingsleep_eq releasesleep_eq blk_locked_def)
  also have "\<dots> = release L_bcache (move_front b (acq L_bcache (drop_buf b s)))"
    using assms(3) by (simp add: acquire_acq[OF calmD[OF u]] d)
  also have "\<dots> = release L_bcache (acq L_bcache (move_front b (drop_buf b s)))"
    by (simp add: move_front_acq)
  also have "\<dots> = Ret () (move_front b (drop_buf b s))"
    by (subst release_acq[OF calmD[OF cd]]) (simp_all add: acq_def)
  finally show ?thesis .
qed

lemma strip_nth:
  assumes "map strip (bufs t) = map strip (bufs s)" "i < length (bufs s)"
  shows "strip (bufs t ! i) = strip (bufs s ! i)"
  using assms map_eq_imp_length_eq[OF assms(1)] by (metis nth_map)

text \<open>The invariant and the contents do not depend on the links.\<close>

lemma cache_links:
  assumes "map strip (bufs t) = map strip (bufs s)" "length (bufs s) = Suc NBUF" "disk t = disk s"
    "disksize t = disksize s" "blk_locked t = blk_locked s"
  shows "cache_ok t = cache_ok s" "content t = content s" "dirty_blocks t = dirty_blocks s"
proof -
  have e: "bvalid (bufs t ! i) = bvalid (bufs s ! i)" "bdirty (bufs t ! i) = bdirty (bufs s ! i)"
    "bdev (bufs t ! i) = bdev (bufs s ! i)" "blockno (bufs t ! i) = blockno (bufs s ! i)"
    "refcnt (bufs t ! i) = refcnt (bufs s ! i)" "bdata (bufs t ! i) = bdata (bufs s ! i)" if "i < NBUF" for i
    using strip_sel[OF strip_nth[OF assms(1), of i]] that assms(2) by simp_all
  have h: "holds (bufs t ! i) n = holds (bufs s ! i) n" if "i < NBUF" for i n
    using e[OF that] by (simp add: holds_def)
  show "cache_ok t = cache_ok s"
    unfolding cache_ok_def Let_def using assms(3-5) by (simp add: e h cong: conj_cong imp_cong)
  show "content t = content s"
  proof
    fix n
    have "List.find (\<lambda>i. holds (bufs t ! i) n \<and> bvalid (bufs t ! i)) [0..<NBUF] =
      List.find (\<lambda>i. holds (bufs s ! i) n \<and> bvalid (bufs s ! i)) [0..<NBUF]"
      using h e by (intro find_cong) auto
    then show "content t n = content s n"
      using e(6) assms(3) by (auto simp: content_def split: option.splits dest: find_SomeD)
  qed
  show "dirty_blocks t = dirty_blocks s"
    using e by (auto simp: dirty_blocks_def) metis
qed

lemma cache_ok_drop:
  assumes "cache_ok s" "length (bufs s) = Suc NBUF" "b < NBUF" "bvalid (bufs s ! b)"
    and clean: "bdirty (bufs s ! b) \<or> bdata (bufs s ! b) = disk s (unat (blockno (bufs s ! b)))"
  shows "cache_ok (drop_buf b s)"
proof -
  let ?t = "drop_buf b s"
  have e: "bufs ?t ! i = (if i = b then (bufs s ! b)\<lparr>refcnt := 0\<rparr> else bufs s ! i)" if "i < NBUF" for i
    using that assms(2) by (simp add: nth_list_update)
  have h: "holds (bufs ?t ! i) n = holds (bufs s ! i) n" if "i < NBUF" for i n
    using e[OF that] by (simp add: holds_def)
  show ?thesis
    unfolding cache_ok_def Let_def
  proof (intro conjI allI impI)
    show "i = j" if "i < NBUF" "j < NBUF" "holds (bufs ?t ! i) m" "holds (bufs ?t ! j) m" for i j m
      using cache_okD(6)[OF assms(1), of i j m] that h by simp
    fix i assume i: "i < NBUF"
    show "refcnt (bufs ?t ! i) = (if blk_locked ?t i then 1 else 0)"
      using cache_okD(1)[OF assms(1) i] by (simp only: e[OF i]) simp
    show "bdirty (bufs ?t ! i) \<Longrightarrow> bvalid (bufs ?t ! i)" "bdirty (bufs ?t ! i) \<Longrightarrow> bdev (bufs ?t ! i) = 1"
      using cache_okD(2)[OF assms(1) i] unfolding e[OF i] by (auto split: if_splits)
    show "blk_locked ?t i \<Longrightarrow> bvalid (bufs ?t ! i)" "blk_locked ?t i \<Longrightarrow> bdev (bufs ?t ! i) = 1"
      "blk_locked ?t i \<Longrightarrow> blockno (bufs ?t ! i) < disksize ?t"
      using cache_okD(3)[OF assms(1) i] unfolding e[OF i] by (auto split: if_splits)
    show "bvalid (bufs ?t ! i) \<Longrightarrow> length (bdata (bufs ?t ! i)) = BSIZE"
      using cache_okD(4)[OF assms(1) i] unfolding e[OF i] by (auto split: if_splits)
    show "bvalid (bufs ?t ! i) \<Longrightarrow> bdev (bufs ?t ! i) = 1 \<Longrightarrow> \<not> blk_locked ?t i \<Longrightarrow> \<not> bdirty (bufs ?t ! i) \<Longrightarrow>
      bdata (bufs ?t ! i) = disk ?t (unat (blockno (bufs ?t ! i)))"
      using cache_okD(5)[OF assms(1) i] clean unfolding e[OF i] by (auto split: if_splits)
  next
    show "length (disk ?t m) = BSIZE" if "m < unat (disksize ?t)" for m
      using cache_okD(7)[OF assms(1,3)] that by simp
  qed
qed

lemma content_drop:
  assumes "length (bufs s) = Suc NBUF" "b < NBUF"
  shows "content (drop_buf b s) = content s" "dirty_blocks (drop_buf b s) = dirty_blocks s"
proof -
  let ?t = "drop_buf b s"
  have e: "bufs ?t ! i = (if i = b then (bufs s ! b)\<lparr>refcnt := 0\<rparr> else bufs s ! i)" if "i < NBUF" for i
    using that assms by (simp add: nth_list_update)
  have h: "holds (bufs ?t ! i) n = holds (bufs s ! i) n" "bvalid (bufs ?t ! i) = bvalid (bufs s ! i)"
    "bdata (bufs ?t ! i) = bdata (bufs s ! i)" "bdirty (bufs ?t ! i) = bdirty (bufs s ! i)"
    "blockno (bufs ?t ! i) = blockno (bufs s ! i)" if "i < NBUF" for i n
    using e[OF that] by (simp_all add: holds_def)
  show "content ?t = content s"
  proof
    fix n
    have "List.find (\<lambda>i. holds (bufs ?t ! i) n \<and> bvalid (bufs ?t ! i)) [0..<NBUF] =
      List.find (\<lambda>i. holds (bufs s ! i) n \<and> bvalid (bufs s ! i)) [0..<NBUF]"
      using h by (intro find_cong) (auto simp del: drop_buf_sel)
    then show "content ?t n = content s n"
      unfolding content_def using h(3) by (auto simp del: drop_buf_sel(4) split: option.splits dest: find_SomeD)
  qed
  show "dirty_blocks ?t = dirty_blocks s"
    unfolding dirty_blocks_def using h(4,5) by (metis (no_types, opaque_lifting))
qed

lemma lru_drop:
  assumes "lru s xs" "b < NBUF"
  shows "lru (drop_buf b s) xs"
proof (rule lru_links[OF assms(1)])
  show "nxt (drop_buf b s) = nxt s" "prv (drop_buf b s) = prv s"
    using assms lruD(1)[OF assms(1)] by (auto simp: nxt_def prv_def fun_eq_iff nth_list_update)
qed simp

section \<open>The contract of the cache\<close>

text \<open>\<open>owns s b n\<close>: the caller holds buffer \<open>b\<close>, which has block \<open>n\<close>.\<close>

definition owns :: "('x) bufst_scheme \<Rightarrow> nat \<Rightarrow> uint \<Rightarrow> bool" where
  "owns s b n \<longleftrightarrow> b < NBUF \<and> blk_locked s b \<and> holds (bufs s ! b) n"

text \<open>The blocks that cannot leave the cache: dirty, or held by a process.\<close>

definition pinned :: "('x) bufst_scheme \<Rightarrow> uint set" where
  "pinned s = {blockno (bufs s ! i) | i. i < NBUF \<and> (bdirty (bufs s ! i) \<or> blk_locked s i)}"

definition held :: "('x) bufst_scheme \<Rightarrow> uint set" where
  "held s = {blockno (bufs s ! i) | i. i < NBUF \<and> blk_locked s i}"

lemma pinned_eq: "pinned s = dirty_blocks s \<union> held s"
  by (auto simp: pinned_def dirty_blocks_def held_def)

lemma finite_pinned [simp]: "finite (pinned s)" "finite (dirty_blocks s)" "finite (held s)"
  by (simp_all add: pinned_def dirty_blocks_def held_def)

lemma ownsD:
  assumes "cache_ok s" "owns s b n"
  shows "b < NBUF" "blk_locked s b" "holds (bufs s ! b) n" "bvalid (bufs s ! b)" "refcnt (bufs s ! b) = 1"
    "bdev (bufs s ! b) = 1" "blockno (bufs s ! b) = n" "n < disksize s" "length (bdata (bufs s ! b)) = BSIZE"
    "content s n = bdata (bufs s ! b)"
proof -
  show o: "b < NBUF" "blk_locked s b" "holds (bufs s ! b) n" using assms(2) by (simp_all add: owns_def)
  show v: "bvalid (bufs s ! b)" using cache_okD(3)[OF assms(1) o(1)] o by simp
  show "refcnt (bufs s ! b) = 1" using cache_okD(1)[OF assms(1) o(1)] o by simp
  show "bdev (bufs s ! b) = 1" "blockno (bufs s ! b) = n" using o by (simp_all add: holds_def)
  then show "n < disksize s" using cache_okD(3)[OF assms(1) o(1)] o by simp
  show "length (bdata (bufs s ! b)) = BSIZE" using cache_okD(4)[OF assms(1) o(1) v] .
  show "content s n = bdata (bufs s ! b)" by (rule content_hit[OF assms(1) o(1,3) v])
qed

lemma dirty_own:
  assumes "cache_ok s" "owns s b n"
  shows "n \<in> dirty_blocks s \<longleftrightarrow> bdirty (bufs s ! b)"
proof
  assume "n \<in> dirty_blocks s"
  then obtain i where i: "i < NBUF" "bdirty (bufs s ! i)" "n = blockno (bufs s ! i)" by (auto simp: dirty_blocks_def)
  then have "holds (bufs s ! i) n" using cache_okD(2)[OF assms(1) i(1)] by (simp add: holds_def)
  then have "i = b" using cache_okD(6)[OF assms(1) i(1)] ownsD(1,3)[OF assms] by blast
  then show "bdirty (bufs s ! b)" using i by simp
next
  assume "bdirty (bufs s ! b)"
  then show "n \<in> dirty_blocks s" using ownsD(1,7)[OF assms] by (auto simp: dirty_blocks_def)
qed

lemma room:
  assumes "cache_ok s" "card (insert n (pinned s)) \<le> NBUF"
  shows "(\<exists>i<NBUF. holds (bufs s ! i) n) \<or> (\<exists>i. reusable s i)"
proof (rule ccontr)
  assume c: "\<not> ?thesis"
  then have p: "bdirty (bufs s ! i) \<or> blk_locked s i" if "i < NBUF" for i
    using that cache_okD(1)[OF assms(1) that] by (auto simp: reusable_def split: if_splits)
  then have d: "holds (bufs s ! i) (blockno (bufs s ! i))" if "i < NBUF" for i
    using cache_okD(2,3)[OF assms(1) that] that by (auto simp: holds_def)
  have inj: "inj_on (\<lambda>i. blockno (bufs s ! i)) {..<NBUF}"
    using d cache_okD(6)[OF assms(1)] by (intro inj_onI) (metis lessThan_iff)
  have "(\<lambda>i. blockno (bufs s ! i)) ` {..<NBUF} \<subseteq> pinned s" using p by (auto simp: pinned_def)
  moreover have "n \<notin> pinned s"
  proof
    assume "n \<in> pinned s"
    then obtain i where "i < NBUF" "n = blockno (bufs s ! i)" by (auto simp: pinned_def)
    then show False using c d by auto
  qed
  ultimately have "Suc NBUF \<le> card (insert n (pinned s))"
    using card_mono[of "pinned s" "(\<lambda>i. blockno (bufs s ! i)) ` {..<NBUF}"] card_image[OF inj] by simp
  then show False using assms(2) by simp
qed

section \<open>The cache as its callers see it\<close>

text \<open>
  The abstract cache: the current contents of every block, the dirty blocks, which
  buffers are held and for which block, the disk, and the writes to it.
\<close>

record cview =
  vcontent :: "uint \<Rightarrow> block"
  vdirty :: "uint set"
  vown :: "nat \<rightharpoonup> uint"
  vdisk :: "nat \<Rightarrow> block"
  vtrace :: "(nat \<times> block) list"
  vsize :: uint

definition view :: "('x) bufst_scheme \<Rightarrow> cview" where
  "view s = \<lparr>vcontent = content s, vdirty = dirty_blocks s,
     vown = (\<lambda>b. if b < NBUF \<and> blk_locked s b then Some (blockno (bufs s ! b)) else None),
     vdisk = disk s, vtrace = dtrace s, vsize = disksize s\<rparr>"

lemma ran_vown: "ran (vown (view s)) = held s"
  by (auto simp: view_def ran_def held_def split: if_splits)

lemma vown_owns:
  assumes "cache_ok s"
  shows "vown (view s) b = Some n \<longleftrightarrow> owns s b n"
  using cache_okD(3)[OF assms] by (auto simp: view_def owns_def holds_def)

lemma bframe_iff: "bframe s t \<longleftrightarrow> (\<exists>a b c d e. t = s\<lparr>procs := a, sleeps := b, bufs := c, disk := d, dtrace := e\<rparr>)"
proof
  assume "\<exists>a b c d e. t = s\<lparr>procs := a, sleeps := b, bufs := c, disk := d, dtrace := e\<rparr>"
  then obtain a b c d e where "t = s\<lparr>procs := a, sleeps := b, bufs := c, disk := d, dtrace := e\<rparr>" by blast
  then show "bframe s t" by (simp add: bframe_def)
qed (unfold bframe_def, blast)

lemma bframe_trans [trans]: "bframe s t \<Longrightarrow> bframe t u \<Longrightarrow> bframe s u"
  unfolding bframe_iff by (elim exE) (simp, blast)

lemma bframe_refl [simp]: "bframe s s"
  by (simp add: bframe_def)

subsection \<open>The operations\<close>

lemma bread_view:
  assumes ok: "bio_ok s" and n: "n < vsize (view s)" "n \<notin> ran (vown (view s))"
    and r: "card (insert n (vdirty (view s) \<union> ran (vown (view s)))) \<le> NBUF"
  shows "\<exists>b t. bread 1 n s = Ret b t \<and> bio_ok t \<and> bframe s t \<and> vown (view s) b = None \<and>
    view t = (view s)\<lparr>vown := (vown (view s))(b \<mapsto> n)\<rparr>"
proof -
  obtain xs where o: "calm s" "lru s xs" "cache_ok s" using ok by (auto simp: bio_ok_def)
  note len = lruD(1)[OF o(2)]
  have "pinned s = vdirty (view s) \<union> ran (vown (view s))" by (simp add: pinned_eq ran_vown) (simp add: view_def)
  then have rm: "(\<exists>i<NBUF. holds (bufs s ! i) n) \<or> (\<exists>i. reusable s i)" using room[OF o(3), of n] r by simp
  have nh: "\<not> blk_locked s i" if "i < NBUF" "holds (bufs s ! i) n" for i
    using n(2) that unfolding ran_vown by (auto simp: held_def holds_def)
  have nd: "n < disksize s" using n(1) by (simp add: view_def)
  obtain b k where b: "bread 1 n s = Ret b (take_buf b k s)" "fills s n b k"
    using bread_take[OF o nd nh rm] by auto
  let ?t = "take_buf b k s"
  have f: "b < NBUF" "\<not> blk_locked s b" "blockno k = n" using b(2) by (auto simp: fills_def holds_def)
  have "bio_ok ?t"
    using o lru_take[OF o(2) b(2)] cache_ok_take[OF o(3) len b(2) nd] by (auto simp: bio_ok_def)
  moreover have "view ?t = (view s)\<lparr>vown := (vown (view s))(b \<mapsto> n)\<rparr>"
    using f len content_take[OF o(3) len b(2) nd] dirty_take[OF o(3) len b(2)]
    by (auto simp: view_def fun_eq_iff)
  ultimately show ?thesis using b(1) f by (auto simp: view_def)
qed

lemma put_view:
  assumes "bio_ok s" "keeps s b k d"
  shows "bio_ok (put_buf b k d tr s)"
    and "view (put_buf b k d tr s) = (view s)\<lparr>vcontent := (vcontent (view s))(blockno k := bdata k),
      vdirty := (if bdirty k then insert (blockno k) (vdirty (view s)) else vdirty (view s) - {blockno k}),
      vdisk := d, vtrace := tr\<rparr>"
proof -
  obtain xs where o: "calm s" "lru s xs" "cache_ok s" using assms(1) by (auto simp: bio_ok_def)
  note len = lruD(1)[OF o(2)]
  show "bio_ok (put_buf b k d tr s)"
    using o lru_put[OF o(2) assms(2)] cache_ok_put[OF o(3) len assms(2)] by (auto simp: bio_ok_def)
  have "blockno (bufs (put_buf b k d tr s) ! i) = blockno (bufs s ! i)" if "i < NBUF" for i
    using assms(2) len that by (auto simp: keeps_def nth_list_update)
  then show "view (put_buf b k d tr s) = (view s)\<lparr>vcontent := (vcontent (view s))(blockno k := bdata k),
      vdirty := (if bdirty k then insert (blockno k) (vdirty (view s)) else vdirty (view s) - {blockno k}),
      vdisk := d, vtrace := tr\<rparr>"
    unfolding view_def content_put[OF o(3) len assms(2)] dirty_put[OF o(3) len assms(2)] by auto
qed

lemma own_cases:
  assumes "bio_ok s" "vown (view s) b = Some n"
  shows "calm s" "length (bufs s) = Suc NBUF" "cache_ok s" "owns s b n"
  using assms vown_owns[of s b n] lruD(1)[of s] by (auto simp: bio_ok_def)

lemma data_view:
  assumes "bio_ok s" "vown (view s) b = Some n"
  shows "bdata (bufs s ! b) = vcontent (view s) n" "length (bdata (bufs s ! b)) = BSIZE"
  using ownsD(9,10)[OF own_cases(3,4)[OF assms]] by (simp_all add: view_def)

lemma set_view:
  assumes "bio_ok s" "vown (view s) b = Some n" "length d = BSIZE"
  shows "bio_ok (upd_buf b (\<lambda>k. k\<lparr>bdata := d\<rparr>) s)" "bframe s (upd_buf b (\<lambda>k. k\<lparr>bdata := d\<rparr>) s)"
    "view (upd_buf b (\<lambda>k. k\<lparr>bdata := d\<rparr>) s) = (view s)\<lparr>vcontent := (vcontent (view s))(n := d)\<rparr>"
proof -
  note o = own_cases[OF assms(1,2)]
  note w = ownsD[OF o(3,4)]
  let ?k = "(bufs s ! b)\<lparr>bdata := d\<rparr>"
  have e: "upd_buf b (\<lambda>k. k\<lparr>bdata := d\<rparr>) s = put_buf b ?k (disk s) (dtrace s) s"
    by (simp add: upd_buf_def put_buf_def)
  have k: "keeps s b ?k (disk s)" using w assms(3) by (simp add: keeps_def)
  show "bio_ok (upd_buf b (\<lambda>k. k\<lparr>bdata := d\<rparr>) s)" unfolding e by (rule put_view(1)[OF assms(1) k])
  show "bframe s (upd_buf b (\<lambda>k. k\<lparr>bdata := d\<rparr>) s)" unfolding e by simp
  have "bdirty (bufs s ! b) \<Longrightarrow> insert n (dirty_blocks s) = dirty_blocks s"
    "\<not> bdirty (bufs s ! b) \<Longrightarrow> dirty_blocks s - {n} = dirty_blocks s"
    using dirty_own[OF o(3,4)] by auto
  then show "view (upd_buf b (\<lambda>k. k\<lparr>bdata := d\<rparr>) s) = (view s)\<lparr>vcontent := (vcontent (view s))(n := d)\<rparr>"
    unfolding e put_view(2)[OF assms(1) k] using w by (simp add: view_def)
qed

lemma pin_view:
  assumes "bio_ok s" "vown (view s) b = Some n"
  shows "bio_ok (upd_buf b (\<lambda>k. k\<lparr>bdirty := True\<rparr>) s)" "bframe s (upd_buf b (\<lambda>k. k\<lparr>bdirty := True\<rparr>) s)"
    "view (upd_buf b (\<lambda>k. k\<lparr>bdirty := True\<rparr>) s) = (view s)\<lparr>vdirty := insert n (vdirty (view s))\<rparr>"
proof -
  note o = own_cases[OF assms]
  note w = ownsD[OF o(3,4)]
  let ?k = "(bufs s ! b)\<lparr>bdirty := True\<rparr>"
  have e: "upd_buf b (\<lambda>k. k\<lparr>bdirty := True\<rparr>) s = put_buf b ?k (disk s) (dtrace s) s"
    by (simp add: upd_buf_def put_buf_def)
  have k: "keeps s b ?k (disk s)" using w by (simp add: keeps_def)
  show "bio_ok (upd_buf b (\<lambda>k. k\<lparr>bdirty := True\<rparr>) s)" unfolding e by (rule put_view(1)[OF assms(1) k])
  show "bframe s (upd_buf b (\<lambda>k. k\<lparr>bdirty := True\<rparr>) s)" unfolding e by simp
  show "view (upd_buf b (\<lambda>k. k\<lparr>bdirty := True\<rparr>) s) = (view s)\<lparr>vdirty := insert n (vdirty (view s))\<rparr>"
    unfolding e put_view(2)[OF assms(1) k] using w by (simp add: view_def fun_upd_idem)
qed

lemma bwrite_view:
  assumes "bio_ok s" "vown (view s) b = Some n"
  shows "\<exists>t. bwrite b s = Ret () t \<and> bio_ok t \<and> bframe s t \<and>
    view t = (view s)\<lparr>vdirty := vdirty (view s) - {n}, vdisk := (vdisk (view s))(unat n := vcontent (view s) n),
      vtrace := vtrace (view s) @ [(unat n, vcontent (view s) n)]\<rparr>"
proof -
  note o = own_cases[OF assms]
  note w = ownsD[OF o(3,4)]
  let ?k = "(bufs s ! b)\<lparr>bdirty := False, bvalid := True\<rparr>"
  let ?d = "(disk s)(unat n := bdata (bufs s ! b))"
  let ?tr = "dtrace s @ [(unat n, bdata (bufs s ! b))]"
  have e: "bwrite b s = Ret () (put_buf b ?k ?d ?tr s)"
    using bwrite_eq[OF o(1) w(2) _ w(6)] w o(2) by (simp add: put_buf_def)
  have k: "keeps s b ?k ?d" using w by (auto simp: keeps_def)
  have "view (put_buf b ?k ?d ?tr s) = (view s)\<lparr>vdirty := vdirty (view s) - {n},
    vdisk := (vdisk (view s))(unat n := vcontent (view s) n), vtrace := vtrace (view s) @ [(unat n, vcontent (view s) n)]\<rparr>"
    unfolding put_view(2)[OF assms(1) k] using w by (simp add: view_def fun_upd_idem)
  then show ?thesis using e put_view(1)[OF assms(1) k] by auto
qed

lemma brelse_lru:
  assumes "calm s" "lru s xs" "cache_ok s" "owns s b n" "n \<in> dirty_blocks s \<or> content s n = disk s (unat n)"
  shows "brelse b s = Ret () (move_front b (drop_buf b s))"
    "lru (move_front b (drop_buf b s)) (b # remove1 b xs)" "cache_ok (move_front b (drop_buf b s))"
    "content (move_front b (drop_buf b s)) = content s" "dirty_blocks (move_front b (drop_buf b s)) = dirty_blocks s"
proof -
  note w = ownsD[OF assms(3,4)]
  note len = lruD(1)[OF assms(2)]
  let ?d = "drop_buf b s"
  show "brelse b s = Ret () (move_front b ?d)"
    by (rule brelse_eq[OF assms(1) w(2) _ w(5)]) (use w len in simp)
  have "bdirty (bufs s ! b) \<or> bdata (bufs s ! b) = disk s (unat (blockno (bufs s ! b)))"
    using assms(5) w dirty_own[OF assms(3,4)] by auto
  then have c: "cache_ok ?d" by (rule cache_ok_drop[OF assms(3) len w(1,4)])
  have ld: "length (bufs ?d) = Suc NBUF" using len by simp
  note m = cache_links[OF move_front_frame(2)[of b ?d] ld move_front_sel(1,3,5)]
  show "cache_ok (move_front b ?d)" using m c by simp
  show "content (move_front b ?d) = content s" "dirty_blocks (move_front b ?d) = dirty_blocks s"
    using m content_drop[OF len w(1)] by simp_all
  show "lru (move_front b ?d) (b # remove1 b xs)"
    by (rule lru_move_front[OF lru_drop[OF assms(2) w(1)] w(1)])
qed

lemma brelse_view:
  assumes "bio_ok s" "vown (view s) b = Some n" "n \<in> vdirty (view s) \<or> vcontent (view s) n = vdisk (view s) (unat n)"
  shows "\<exists>t. brelse b s = Ret () t \<and> bio_ok t \<and> bframe s t \<and> view t = (view s)\<lparr>vown := (vown (view s))(b := None)\<rparr>"
proof -
  obtain xs where xs: "lru s xs" using assms(1) by (auto simp: bio_ok_def)
  note o = own_cases[OF assms(1,2)]
  note w = ownsD[OF o(3,4)]
  let ?t = "move_front b (drop_buf b s)"
  note r = brelse_lru[OF o(1) xs o(3,4) assms(3)[unfolded view_def, simplified]]
  have bl: "blockno (bufs ?t ! i) = blockno (bufs s ! i)" if "i < NBUF" for i
  proof -
    have "strip (bufs ?t ! i) = strip (bufs (drop_buf b s) ! i)"
      by (rule strip_nth[OF move_front_frame(2)]) (use that o(2) in simp)
    then have "blockno (bufs ?t ! i) = blockno (bufs (drop_buf b s) ! i)" by (rule strip_sel(4))
    then show ?thesis using that o(2) by (cases "i = b") auto
  qed
  have "bio_ok ?t" using r(2,3) o(1) by (auto simp: bio_ok_def)
  moreover have "view ?t = (view s)\<lparr>vown := (vown (view s))(b := None)\<rparr>"
    unfolding view_def r(4,5) using bl by (auto simp: fun_eq_iff)
  moreover have "bframe s ?t" by (rule bframe_trans[OF drop_buf_sel(7) move_front_sel(6)])
  ultimately show ?thesis using r(1) by blast
qed

lemma clean_view:
  assumes "bio_ok s" "n \<notin> vdirty (view s)" "n \<notin> ran (vown (view s))"
  shows "vcontent (view s) n = vdisk (view s) (unat n)"
proof -
  have c: "cache_ok s" using assms(1) by (simp add: bio_ok_def)
  have "\<not> blk_locked s i" if "i < NBUF" "holds (bufs s ! i) n" for i
    using that assms(3) unfolding ran_vown by (auto simp: held_def holds_def)
  then show ?thesis using content_clean[OF c] assms(2) by (simp add: view_def)
qed

lemma length_view:
  assumes "bio_ok s" "n < vsize (view s)"
  shows "length (vcontent (view s) n) = BSIZE"
  using assms length_content by (auto simp: bio_ok_def view_def)

section \<open>The interface, and copying a block\<close>

text \<open>The effect of writing \<open>x\<close> through to block \<open>n\<close>, seen from outside.\<close>

definition stored :: "uint \<Rightarrow> block \<Rightarrow> cview \<Rightarrow> cview" where
  "stored n x v = v\<lparr>vcontent := (vcontent v)(n := x), vdirty := vdirty v - {n},
     vdisk := (vdisk v)(unat n := x), vtrace := vtrace v @ [(unat n, x)], vown := Map.empty\<rparr>"

text \<open>
  What a client of the cache may rely on, stated on the abstract cache only.
\<close>

locale block_cache =
  fixes vw :: "'s \<Rightarrow> cview" and ok :: "'s \<Rightarrow> bool" and keep :: "'s \<Rightarrow> 's \<Rightarrow> bool"
    and rd :: "uint \<Rightarrow> 's \<Rightarrow> ('s, nat) outcome" and getd :: "'s \<Rightarrow> nat \<Rightarrow> block"
    and setd :: "nat \<Rightarrow> block \<Rightarrow> 's \<Rightarrow> 's" and wr :: "nat \<Rightarrow> 's \<Rightarrow> ('s, unit) outcome"
    and rel :: "nat \<Rightarrow> 's \<Rightarrow> ('s, unit) outcome"
  assumes rd_law: "\<lbrakk>ok s; n < vsize (vw s); n \<notin> ran (vown (vw s)); card (insert n (vdirty (vw s) \<union> ran (vown (vw s)))) \<le> NBUF\<rbrakk>
      \<Longrightarrow> \<exists>b t. rd n s = Ret b t \<and> ok t \<and> keep s t \<and> vown (vw s) b = None \<and> vw t = (vw s)\<lparr>vown := (vown (vw s))(b \<mapsto> n)\<rparr>"
    and getd_law: "\<lbrakk>ok s; vown (vw s) b = Some n\<rbrakk> \<Longrightarrow> getd s b = vcontent (vw s) n \<and> length (getd s b) = BSIZE"
    and setd_law: "\<lbrakk>ok s; vown (vw s) b = Some n; length d = BSIZE\<rbrakk>
      \<Longrightarrow> ok (setd b d s) \<and> keep s (setd b d s) \<and> vw (setd b d s) = (vw s)\<lparr>vcontent := (vcontent (vw s))(n := d)\<rparr>"
    and wr_law: "\<lbrakk>ok s; vown (vw s) b = Some n\<rbrakk>
      \<Longrightarrow> \<exists>t. wr b s = Ret () t \<and> ok t \<and> keep s t \<and> vw t = (vw s)\<lparr>vdirty := vdirty (vw s) - {n},
        vdisk := (vdisk (vw s))(unat n := vcontent (vw s) n), vtrace := vtrace (vw s) @ [(unat n, vcontent (vw s) n)]\<rparr>"
    and rel_law: "\<lbrakk>ok s; vown (vw s) b = Some n; n \<in> vdirty (vw s) \<or> vcontent (vw s) n = vdisk (vw s) (unat n)\<rbrakk>
      \<Longrightarrow> \<exists>t. rel b s = Ret () t \<and> ok t \<and> keep s t \<and> vw t = (vw s)\<lparr>vown := (vown (vw s))(b := None)\<rparr>"
    and clean_law: "\<lbrakk>ok s; n \<notin> vdirty (vw s); n \<notin> ran (vown (vw s))\<rbrakk> \<Longrightarrow> vcontent (vw s) n = vdisk (vw s) (unat n)"
    and keep_law: "keep s t \<Longrightarrow> keep t u \<Longrightarrow> keep s u"
begin

lemma copy_held:
  assumes "ok s" "vown (vw s) = [b1 \<mapsto> src, b2 \<mapsto> dst]" "b1 \<noteq> b2" "src \<noteq> dst"
    and clean: "src \<in> vdirty (vw s) \<or> vcontent (vw s) src = vdisk (vw s) (unat src)"
  shows "\<exists>t. (\<forall>f :: unit \<Rightarrow> 's \<Rightarrow> ('s, 'r) outcome. bnd (wr b2 (setd b2 (getd s b1) s)) (\<lambda>_ s. bnd (rel b1 s) (\<lambda>_ s. bnd (rel b2 s) f)) = f () t) \<and>
    ok t \<and> keep s t \<and> vw t = stored dst (vcontent (vw s) src) (vw s)"
proof -
  let ?x = "vcontent (vw s) src"
  have o: "vown (vw s) b1 = Some src" "vown (vw s) b2 = Some dst" using assms(2,3) by auto
  have g: "getd s b1 = ?x" "length ?x = BSIZE" using getd_law[OF assms(1) o(1)] by auto
  note s1 = setd_law[OF assms(1) o(2) g(2)]
  define s1 where "s1 = setd b2 ?x s"
  have s1: "ok s1" "keep s s1" "vw s1 = (vw s)\<lparr>vcontent := (vcontent (vw s))(dst := ?x)\<rparr>"
    using setd_law[OF assms(1) o(2) g(2)] by (auto simp: s1_def)
  have "vown (vw s1) b2 = Some dst" using o s1 by simp
  from wr_law[OF s1(1) this] obtain s2 where s2: "wr b2 s1 = Ret () s2" "ok s2" "keep s1 s2"
    "vw s2 = (vw s)\<lparr>vcontent := (vcontent (vw s))(dst := ?x), vdirty := vdirty (vw s) - {dst},
        vdisk := (vdisk (vw s))(unat dst := ?x), vtrace := vtrace (vw s) @ [(unat dst, ?x)]\<rparr>"
    using s1(3) by auto
  have "vown (vw s2) b1 = Some src" "unat src \<noteq> unat dst" using o s2(4) assms(4) by (simp_all flip: word_unat_eq_iff)
  moreover have "src \<in> vdirty (vw s2) \<or> vcontent (vw s2) src = vdisk (vw s2) (unat src)"
    using clean s2(4) assms(4) calculation(2) by auto
  ultimately obtain s3 where s3: "rel b1 s2 = Ret () s3" "ok s3" "keep s2 s3" "vw s3 = (vw s2)\<lparr>vown := [b2 \<mapsto> dst]\<rparr>"
    using rel_law[OF s2(2), of b1 src] s2(4) assms(2,3) by (auto simp: fun_upd_twist)
  have "vown (vw s3) b2 = Some dst" "vcontent (vw s3) dst = vdisk (vw s3) (unat dst)" using s3(4) s2(4) by simp_all
  then obtain s4 where s4: "rel b2 s3 = Ret () s4" "ok s4" "keep s3 s4" "vw s4 = (vw s3)\<lparr>vown := Map.empty\<rparr>"
    using rel_law[OF s3(2), of b2 dst] s3(4) by auto
  have "vw s4 = stored dst ?x (vw s)" by (simp add: s4(4) s3(4) s2(4) stored_def)
  moreover have "keep s s4" using s1(2) s2(3) s3(3) s4(3) keep_law by blast
  ultimately show ?thesis using s4(2) by (intro exI[of _ s4]) (simp add: g s1_def[symmetric] s2(1) s3(1) s4(1))
qed

lemma read_two:
  assumes "ok s" "vown (vw s) = Map.empty" "n1 \<noteq> n2" "n1 < vsize (vw s)" "n2 < vsize (vw s)"
    "card (insert n1 (insert n2 (vdirty (vw s)))) \<le> NBUF" "finite (vdirty (vw s))"
  shows "\<exists>b1 t1 b2 t. rd n1 s = Ret b1 t1 \<and> rd n2 t1 = Ret b2 t \<and> b1 \<noteq> b2 \<and> ok t1 \<and> ok t \<and> keep s t1 \<and> keep t1 t \<and>
    vw t = (vw s)\<lparr>vown := [b1 \<mapsto> n1, b2 \<mapsto> n2]\<rparr>"
proof -
  have "card (insert n1 (vdirty (vw s))) \<le> card (insert n1 (insert n2 (vdirty (vw s))))"
    using assms(7) by (intro card_mono) auto
  then obtain b1 t1 where 1: "rd n1 s = Ret b1 t1" "ok t1" "keep s t1" "vw t1 = (vw s)\<lparr>vown := [b1 \<mapsto> n1]\<rparr>"
    using rd_law[OF assms(1), of n1] assms(2,4,6) by auto
  have "insert n2 (vdirty (vw t1) \<union> ran (vown (vw t1))) = insert n1 (insert n2 (vdirty (vw s)))" using 1(4) by auto
  then obtain b2 t where 2: "rd n2 t1 = Ret b2 t" "ok t" "keep t1 t" "vown (vw t1) b2 = None"
    "vw t = (vw t1)\<lparr>vown := (vown (vw t1))(b2 \<mapsto> n2)\<rparr>"
    using rd_law[OF 1(2), of n2] assms(3,5,6) 1(4) by auto
  show ?thesis using 1 2 by (intro exI[of _ b1] exI[of _ t1] exI[of _ b2] exI[of _ t]) (auto split: if_splits)
qed

end

interpretation bc: block_cache view bio_ok bframe "bread 1" "\<lambda>s b. bdata (bufs s ! b)" "\<lambda>b d. upd_buf b (\<lambda>k. k\<lparr>bdata := d\<rparr>)" bwrite brelse
proof unfold_locales
  show "bframe s t \<Longrightarrow> bframe t u \<Longrightarrow> bframe s u" for s t u :: "('x) bufst_scheme" by (rule bframe_trans)
qed ((assumption | rule bread_view bwrite_view brelse_view clean_view conjI data_view set_view)+)

section \<open>The cache after booting\<close>

lemma binit_step:
  assumes "length (bufs s) = Suc NBUF" "dll (nxt s) (prv s) NBUF xs NBUF" "distinct xs" "NBUF \<notin> set xs" "b \<notin> set xs" "b < NBUF"
    "set xs \<subseteq> {..<NBUF}"
  defines "t \<equiv> (let s = upd_buf b (\<lambda>k. k\<lparr>bnext := bnext (bufs s ! NBUF)\<rparr>) s;
          s = upd_buf b (\<lambda>k. k\<lparr>bprev := NBUF\<rparr>) s;
          s = initsleeplock (SL_buf b) ''buffer'' s;
          s = upd_buf (bnext (bufs s ! NBUF)) (\<lambda>k. k\<lparr>bprev := b\<rparr>) s in
       upd_buf NBUF (\<lambda>k. k\<lparr>bnext := b\<rparr>) s)"
  shows "dll (nxt t) (prv t) NBUF (b # xs) NBUF" "map strip (bufs t) = map strip (bufs s)"
    "t = s\<lparr>locks := (locks s)(L_sleep (SL_buf b) := \<lparr>locked = False, lk_name = ''sleep lock'', lk_cpu = None\<rparr>),
       sleeps := (sleeps s)(SL_buf b := (sleeps s (SL_buf b))\<lparr>sl_name := ''buffer'', sl_locked := False, sl_pid := 0\<rparr>),
       bufs := bufs t\<rparr>"
proof -
  define N where "N = nxt s"
  define P where "P = prv s"
  have i: "bufs (initsleeplock l m u) = bufs u" "nxt (initsleeplock l m u) = nxt u" "prv (initsleeplock l m u) = prv u"
    for l m and u :: "('a) bufst_scheme"
    by (simp_all add: initsleeplock_def initlock_def upd_sleep_def nxt_def prv_def fun_eq_iff)
  have "N NBUF = hd (xs @ [NBUF])" using dll_hd[OF assms(2)] by (simp add: N_def)
  also have "\<dots> \<in> set (xs @ [NBUF])" by (rule hd_in_set) simp
  finally have h: "N NBUF < Suc NBUF" "N NBUF \<noteq> b" using assms(4-7) by (auto simp: less_Suc_eq)
  define s1 where "s1 = upd_buf b (\<lambda>k. k\<lparr>bprev := NBUF\<rparr>) (upd_buf b (\<lambda>k. k\<lparr>bnext := nxt s NBUF\<rparr>) s)"
  have s1: "nxt s1 = N(b := N NBUF)" "prv s1 = P(b := NBUF)" "length (bufs s1) = Suc NBUF"
    using assms(1,6) by (simp_all add: s1_def links_upd N_def P_def)
  define s2 where "s2 = initsleeplock (SL_buf b) ''buffer'' s1"
  have s2: "nxt s2 = N(b := N NBUF)" "prv s2 = P(b := NBUF)" "length (bufs s2) = Suc NBUF"
    using s1 by (simp_all add: s2_def i)
  have t: "t = upd_buf NBUF (\<lambda>k. k\<lparr>bnext := b\<rparr>) (upd_buf (nxt s2 NBUF) (\<lambda>k. k\<lparr>bprev := b\<rparr>) s2)"
    by (simp add: t_def s1_def s2_def nxt_def Let_def)
  have "nxt t = N(b := N NBUF, NBUF := b)" "prv t = P(b := NBUF, N NBUF := b)"
    using h assms(6) by (simp_all add: t links_upd s2)
  then show "dll (nxt t) (prv t) NBUF (b # xs) NBUF"
    using dll_insert[OF assms(2), of b] assms by (simp add: N_def P_def)
  show "map strip (bufs t) = map strip (bufs s)"
    by (simp add: t_def Let_def map_strip_upd strip_def i)
  show "t = s\<lparr>locks := (locks s)(L_sleep (SL_buf b) := \<lparr>locked = False, lk_name = ''sleep lock'', lk_cpu = None\<rparr>),
       sleeps := (sleeps s)(SL_buf b := (sleeps s (SL_buf b))\<lparr>sl_name := ''buffer'', sl_locked := False, sl_pid := 0\<rparr>),
       bufs := bufs t\<rparr>"
    by (simp add: t_def Let_def upd_buf_def initsleeplock_def initlock_def upd_sleep_def)
qed

lemma binit_loop_ok:
  assumes "length (bufs s) = Suc NBUF" "dll (nxt s) (prv s) NBUF xs NBUF" "distinct (bs @ xs)" "set (bs @ xs) \<subseteq> {..<NBUF}"
  shows "dll (nxt (binit_loop bs s)) (prv (binit_loop bs s)) NBUF (rev bs @ xs) NBUF \<and>
    map strip (bufs (binit_loop bs s)) = map strip (bufs s) \<and>
    (\<exists>L S. binit_loop bs s = s\<lparr>locks := L, sleeps := S, bufs := bufs (binit_loop bs s)\<rparr> \<and>
      (\<forall>l. \<not> locked (locks s l) \<and> lk_cpu (locks s l) = None \<longrightarrow> \<not> locked (L l) \<and> lk_cpu (L l) = None) \<and>
      (\<forall>l. sl_locked (S l) \<longleftrightarrow> sl_locked (sleeps s l) \<and> l \<notin> SL_buf ` set bs))"
  using assms
proof (induction bs arbitrary: s xs)
  case Nil
  then show ?case by (simp add: exI[of _ "locks s"]) (intro exI[of _ "locks s"] exI[of _ "sleeps s"], simp)
next
  case (Cons b bs)
  define t where "t = (let s = upd_buf b (\<lambda>k. k\<lparr>bnext := bnext (bufs s ! NBUF)\<rparr>) s;
          s = upd_buf b (\<lambda>k. k\<lparr>bprev := NBUF\<rparr>) s;
          s = initsleeplock (SL_buf b) ''buffer'' s;
          s = upd_buf (bnext (bufs s ! NBUF)) (\<lambda>k. k\<lparr>bprev := b\<rparr>) s in
       upd_buf NBUF (\<lambda>k. k\<lparr>bnext := b\<rparr>) s)"
  have e: "binit_loop (b # bs) s = binit_loop bs t" by (simp add: t_def Let_def)
  have p: "dll (nxt t) (prv t) NBUF (b # xs) NBUF" "map strip (bufs t) = map strip (bufs s)"
    "t = s\<lparr>locks := (locks s)(L_sleep (SL_buf b) := \<lparr>locked = False, lk_name = ''sleep lock'', lk_cpu = None\<rparr>),
       sleeps := (sleeps s)(SL_buf b := (sleeps s (SL_buf b))\<lparr>sl_name := ''buffer'', sl_locked := False, sl_pid := 0\<rparr>),
       bufs := bufs t\<rparr>"
    using binit_step[OF Cons.prems(1,2), of b] Cons.prems(3,4) unfolding t_def by (auto simp: subset_iff)
  have len: "length (bufs t) = Suc NBUF"
    using map_eq_imp_length_eq[OF p(2)] Cons.prems(1) by simp
  note IH = Cons.IH[OF len p(1)]
  obtain L S where ls: "binit_loop bs t = t\<lparr>locks := L, sleeps := S, bufs := bufs (binit_loop bs t)\<rparr>"
    "\<forall>l. \<not> locked (locks t l) \<and> lk_cpu (locks t l) = None \<longrightarrow> \<not> locked (L l) \<and> lk_cpu (L l) = None"
    "\<forall>l. sl_locked (S l) \<longleftrightarrow> sl_locked (sleeps t l) \<and> l \<notin> SL_buf ` set bs"
    using IH Cons.prems by auto
  obtain B where t: "t = s\<lparr>locks := (locks s)(L_sleep (SL_buf b) := \<lparr>locked = False, lk_name = ''sleep lock'', lk_cpu = None\<rparr>),
     sleeps := (sleeps s)(SL_buf b := (sleeps s (SL_buf b))\<lparr>sl_name := ''buffer'', sl_locked := False, sl_pid := 0\<rparr>),
     bufs := B\<rparr>" using p(3) by metis
  have "binit_loop bs t = s\<lparr>locks := L, sleeps := S, bufs := bufs (binit_loop bs t)\<rparr>"
    by (subst ls(1)) (simp add: t)
  moreover have "\<forall>l. \<not> locked (locks s l) \<and> lk_cpu (locks s l) = None \<longrightarrow> \<not> locked (L l) \<and> lk_cpu (L l) = None"
    using ls(2) by (simp add: t)
  moreover have "\<forall>l. sl_locked (S l) \<longleftrightarrow> sl_locked (sleeps s l) \<and> l \<notin> SL_buf ` set (b # bs)"
    using ls(3) by (auto simp: t)
  ultimately have "\<exists>L S. binit_loop bs t = s\<lparr>locks := L, sleeps := S, bufs := bufs (binit_loop bs t)\<rparr> \<and>
      (\<forall>l. \<not> locked (locks s l) \<and> lk_cpu (locks s l) = None \<longrightarrow> \<not> locked (L l) \<and> lk_cpu (L l) = None) \<and>
      (\<forall>l. sl_locked (S l) \<longleftrightarrow> sl_locked (sleeps s l) \<and> l \<notin> SL_buf ` set (b # bs))" by blast
  moreover have "dll (nxt (binit_loop bs t)) (prv (binit_loop bs t)) NBUF (rev (b # bs) @ xs) NBUF \<and>
    map strip (bufs (binit_loop bs t)) = map strip (bufs s)"
    using IH Cons.prems p(2) by simp
  ultimately show ?case unfolding e by blast
qed

text \<open>
  The zeroed buffers of the kernel's \<open>.bss\<close> section become an empty cache: the
  contents of every block are those of the disk.
\<close>

definition zero_buf :: buf where
  "zero_buf = \<lparr>bvalid = False, bdirty = False, bdev = 0, blockno = 0, refcnt = 0, bprev = 0, bnext = 0,
     bdata = replicate BSIZE 0\<rparr>"

lemma binit_ok:
  assumes "calm s" "bufs s = replicate (Suc NBUF) zero_buf" "\<And>n. n < unat (disksize s) \<Longrightarrow> length (disk s n) = BSIZE"
  shows "bio_ok (binit s)" "lru (binit s) (rev [0..<NBUF])"
    "view (binit s) = \<lparr>vcontent = (\<lambda>n. disk s (unat n)), vdirty = {}, vown = Map.empty, vdisk = disk s, vtrace = dtrace s, vsize = disksize s\<rparr>"
    "map strip (bufs (binit s)) = map strip (bufs s)"
proof -
  define u where "u = upd_buf NBUF (\<lambda>k. k\<lparr>bnext := NBUF\<rparr>) (upd_buf NBUF (\<lambda>k. k\<lparr>bprev := NBUF\<rparr>) (initlock L_bcache ''bcache'' s))"
  define t where "t = binit s"
  have t: "t = binit_loop [0..<NBUF] u" by (simp add: t_def binit_def u_def Let_def)
  have lu: "length (bufs u) = Suc NBUF" using assms(2) by (simp add: u_def initlock_def)
  have pu: "dll (nxt u) (prv u) NBUF [] NBUF"
    using assms(2) by (simp add: u_def links_upd initlock_def)
  have su: "map strip (bufs u) = map strip (bufs s)" by (simp add: u_def map_strip_upd strip_def) (simp add: initlock_def)
  have lkf: "\<not> locked (locks u l) \<and> lk_cpu (locks u l) = None" for l
    using assms(1) by (simp add: u_def upd_buf_def initlock_def calm_def lk_free_def)
  from binit_loop_ok[OF lu pu, of "[0..<NBUF]"] obtain L S where
    b: "dll (nxt t) (prv t) NBUF (rev [0..<NBUF]) NBUF" "map strip (bufs t) = map strip (bufs s)"
      "t = u\<lparr>locks := L, sleeps := S, bufs := bufs t\<rparr>"
    and L: "\<And>l. \<not> locked (L l) \<and> lk_cpu (L l) = None"
    and S: "\<And>l. sl_locked (S l) \<longleftrightarrow> sl_locked (sleeps u l) \<and> l \<notin> SL_buf ` set [0..<NBUF]"
    unfolding t[symmetric] su using lkf by (auto simp: atLeast0LessThan)
  show "map strip (bufs t) = map strip (bufs s)" by (rule b(2))
  obtain B where ts: "t = s\<lparr>locks := L, sleeps := S, bufs := B\<rparr>" and B: "bufs t = B"
    using b(3) by (simp add: u_def upd_buf_def initlock_def)
  have lt: "length (bufs t) = Suc NBUF" using map_eq_imp_length_eq[OF b(2)] assms(2) by simp
  have "strip (bufs t ! i) = strip zero_buf" if "i < NBUF" for i
    using strip_nth[OF b(2), of i] that assms(2) by (simp del: replicate_Suc)
  then have z: "\<not> bvalid (bufs t ! i)" "\<not> bdirty (bufs t ! i)" "refcnt (bufs t ! i) = 0" "bdev (bufs t ! i) = 0" if "i < NBUF" for i
    using strip_sel[of "bufs t ! i" zero_buf] that by (auto simp: zero_buf_def)
  have nl: "\<not> blk_locked t i" if "i < NBUF" for i using that S by (simp add: blk_locked_def ts)
  show lr: "lru t (rev [0..<NBUF])" using b(1) lt by (auto simp: lru_def)
  have "cache_ok t" unfolding cache_ok_def Let_def using z nl assms(3) by (auto simp: holds_def ts)
  moreover have "calm t" using assms(1) L unfolding ts
    by (auto simp: calm_def cli_ok_def this_cpu_def readeflags_IF_def lk_free_def cur_def)
  ultimately show "bio_ok t" using lr by (auto simp: bio_ok_def)
  have "content t n = disk t (unat n)" for n by (rule content_miss) (use z in auto)
  moreover have "disk t = disk s" "dtrace t = dtrace s" "disksize t = disksize s" by (simp_all add: ts)
  ultimately show "view t = \<lparr>vcontent = (\<lambda>n. disk s (unat n)), vdirty = {}, vown = Map.empty, vdisk = disk s, vtrace = dtrace s, vsize = disksize s\<rparr>"
    using z nl by (auto simp: view_def dirty_blocks_def fun_eq_iff)
qed

lemma binit_frame:
  assumes "bufs s = replicate (Suc NBUF) zero_buf"
  shows "\<exists>K S B. binit s = s\<lparr>locks := K, sleeps := S, bufs := B\<rparr>"
proof -
  define u where "u = upd_buf NBUF (\<lambda>k. k\<lparr>bnext := NBUF\<rparr>) (upd_buf NBUF (\<lambda>k. k\<lparr>bprev := NBUF\<rparr>) (initlock L_bcache ''bcache'' s))"
  have u: "binit s = binit_loop [0..<NBUF] u" by (simp add: binit_def u_def Let_def)
  have lu: "length (bufs u) = Suc NBUF" using assms by (simp add: u_def initlock_def)
  have pu: "dll (nxt u) (prv u) NBUF [] NBUF"
    using assms by (simp add: u_def links_upd initlock_def)
  have "\<exists>K S. binit_loop [0..<NBUF] u = u\<lparr>locks := K, sleeps := S, bufs := bufs (binit_loop [0..<NBUF] u)\<rparr>"
    using binit_loop_ok[OF lu pu, of "[0..<NBUF]"] by (simp add: atLeast0LessThan) blast
  then obtain K S where "binit s = u\<lparr>locks := K, sleeps := S, bufs := bufs (binit s)\<rparr>" unfolding u by blast
  then have "binit s = s\<lparr>locks := K, sleeps := S, bufs := bufs (binit s)\<rparr>" by (simp add: u_def upd_buf_def initlock_def)
  then show ?thesis by blast
qed

text \<open>A machine with one processor running one process, before \<open>binit\<close>.\<close>

definition idle_state :: "(nat \<Rightarrow> block) \<Rightarrow> uint \<Rightarrow> 'x \<Rightarrow> ('x) bufst_scheme" where
  "idle_state d n ext =
     \<lparr>hw_id = 0, hw_if = (\<lambda>_. True), ncpu = 1, cpus = [\<lparr>apicid = 0, ncli = 0, intena = True, cproc = Some 0\<rparr>],
      locks = (\<lambda>_. \<lparr>locked = False, lk_name = [], lk_cpu = None\<rparr>),
      mem = (\<lambda>_. 0), kend = 0, use_lock = True, freelist = 0,
      kpgdir = 0, kdata = 0, hw_cr3 = (\<lambda>_. 0), hw_esp0 = (\<lambda>_. 0),
      procs = [\<lparr>psz = 0, cpu_ticks = 0, cpu_util = 0, cpu_runnable_ticks = 0, cpu_wait = 0, pgdir = 0, mmt_start = 0,
        mme = 0, pspace = 0, kstack = 0, pstate = RUNNING, pid = 1, parent = None, tf = 0, pcontext = 0, pchan = Ch_none,
        killed = False, ofile = replicate 16 None, cwd = None, pname = replicate 16 0\<rparr>],
      initproc = Some 0, nextpid = 2, rrindex = 0, ticks = 0, sym_trapret = 0, sym_forkret = 0,
      sleeps = (\<lambda>_. \<lparr>sl_locked = False, sl_name = [], sl_pid = 0\<rparr>),
      bufs = replicate (Suc NBUF) zero_buf, disksize = n, disk = d, dtrace = [], \<dots> = ext\<rparr>"

lemma idle_calm [simp]: "calm (idle_state d n ext)"
  by (simp add: calm_def idle_state_def cli_ok_def this_cpu_def readeflags_IF_def lk_free_def cur_def)

lemma idle_sel [simp]:
  "bufs (idle_state d n ext) = replicate (Suc NBUF) zero_buf" "disksize (idle_state d n ext) = n"
  "disk (idle_state d n ext) = d" "dtrace (idle_state d n ext) = []"
  by (simp_all add: idle_state_def)

lemma boot_ok:
  assumes "\<And>i. i < unat n \<Longrightarrow> length (d i) = BSIZE"
  shows "bio_ok (binit (idle_state d n ext))" "lru (binit (idle_state d n ext)) (rev [0..<NBUF])"
    "view (binit (idle_state d n ext)) =
      \<lparr>vcontent = (\<lambda>n. d (unat n)), vdirty = {}, vown = Map.empty, vdisk = d, vtrace = [], vsize = n\<rparr>"
    "map strip (bufs (binit (idle_state d n ext))) = map strip (replicate (Suc NBUF) zero_buf)"
  using binit_ok[of "idle_state d n ext"] assms by simp_all

section \<open>Properties\<close>

text \<open>
  C6.  \<open>bread\<close> refines reading the abstract cache.  With a buffer to spare it
  returns, locked, a buffer nobody held before with the current contents of the
  block, wherever they are; the contents of every block, the dirty blocks, the
  buffers held by others and the disk stay as they are.
\<close>

theorem bread_refines:
  assumes "bio_ok s" "n < vsize (view s)" "n \<notin> ran (vown (view s))"
    "card (insert n (vdirty (view s) \<union> ran (vown (view s)))) \<le> NBUF"
  shows "\<exists>b t. bread 1 n s = Ret b t \<and> bio_ok t \<and> vown (view s) b = None \<and> bdata (bufs t ! b) = vcontent (view s) n \<and>
    view t = (view s)\<lparr>vown := (vown (view s))(b \<mapsto> n)\<rparr>"
proof -
  obtain b t where t: "bread 1 n s = Ret b t" "bio_ok t" "vown (view s) b = None"
    "view t = (view s)\<lparr>vown := (vown (view s))(b \<mapsto> n)\<rparr>"
    using bread_view[OF assms] by auto
  moreover have "bdata (bufs t ! b) = vcontent (view s) n"
    using data_view(1)[OF t(2), of b n] t(4) by simp
  ultimately show ?thesis by blast
qed

theorem bread_refines_witness:
  "\<exists>b t. bread 1 5 (binit (idle_state (\<lambda>i. replicate BSIZE (of_nat i)) 1000 ())) = Ret b t \<and> bdata (bufs t ! b) = replicate BSIZE 5"
  using bread_refines[of "binit (idle_state (\<lambda>i. replicate BSIZE (of_nat i)) 1000 ())" 5]
  by (auto simp: boot_ok NBUF_def)

text \<open>
  C18.  Replacement is least-recently-used.  A block that is not cached gets the
  buffer, among those that nobody references and that are not dirty, whose last
  release is the longest ago; releasing it makes it the most recently used one; if
  there is no such buffer the kernel panics.
\<close>

theorem bread_recycles_lru:
  assumes "calm s" "lru s xs" "cache_ok s" "n < disksize s" "\<not> (\<exists>i<NBUF. holds (bufs s ! i) n)"
  shows "case List.find (reusable s) (rev xs) of
      None \<Rightarrow> bread 1 n s = Panic ''bget: no buffers''
    | Some b \<Rightarrow> \<exists>t u. bread 1 n s = Ret b t \<and> owns t b n \<and> lru t xs \<and> brelse b t = Ret () u \<and> lru u (b # remove1 b xs)"
proof (cases "List.find (reusable s) (rev xs)")
  case None
  then show ?thesis using bread_full[OF assms(1,2,5)] by simp
next
  case (Some b)
  note len = lruD(1)[OF assms(2)]
  obtain k where k: "bread 1 n s = Ret b (take_buf b k s)" "fills s n b k"
    using bread_miss[OF assms Some] by auto
  let ?t = "take_buf b k s"
  have b: "b < NBUF" "\<not> blk_locked s b" "reusable s b" using k(2) assms(5) by (auto simp: fills_def)
  have o: "owns ?t b n" using k(2) len by (simp add: owns_def fills_def)
  have "content s n = disk s (unat n)" using assms(5) by (intro content_miss) blast
  then have c: "content ?t n = disk ?t (unat n)"
    using content_take[OF assms(3) len k(2) assms(4)] by simp
  have "brelse b ?t = Ret () (move_front b (drop_buf b ?t))" "lru (move_front b (drop_buf b ?t)) (b # remove1 b xs)"
    by (rule brelse_lru[where n = n and xs = xs]; use assms k lru_take[OF assms(2) k(2)] cache_ok_take[OF assms(3) len k(2) assms(4)] o c in simp)+
  then show ?thesis using Some k(1) o lru_take[OF assms(2) k(2)] by auto
qed

theorem bread_recycles_lru_witness:
  "\<exists>t u. bread 1 5 (binit (idle_state (\<lambda>_. replicate BSIZE 0) 1000 ())) = Ret 0 t \<and> brelse 0 t = Ret () u \<and>
     lru u (0 # remove1 0 (rev [0..<NBUF]))"
proof -
  let ?s = "binit (idle_state (\<lambda>_. replicate BSIZE 0) 1000 ()) :: bufst"
  note b = boot_ok[of 1000 "\<lambda>_. replicate BSIZE 0" "()", simplified]
  have c: "calm ?s" "cache_ok ?s" using b(1) by (simp_all add: bio_ok_def)
  have "strip (bufs ?s ! i) = strip zero_buf" if "i < NBUF" for i
  proof -
    have "strip (bufs ?s ! i) = map strip (bufs ?s) ! i" using that lruD(1)[OF b(2)] by simp
    also have "\<dots> = strip zero_buf" unfolding b(4) using that by (cases i) auto
    finally show ?thesis .
  qed
  note e = strip_sel[OF this]
  have no: "\<not> (\<exists>i<NBUF. holds (bufs ?s ! i) 5)" using e(3) by (auto simp: holds_def zero_buf_def)
  have r: "reusable ?s 0" using e(2,5)[of 0] by (simp add: reusable_def zero_buf_def NBUF_def)
  have "List.find (reusable ?s) [0..<NBUF] = Some 0" using r by (simp add: NBUF_def upt_rec[of 0])
  then show ?thesis
    using bread_recycles_lru[OF c(1) b(2) c(2) _ no] b(3) by (simp add: view_def) blast
qed

text \<open>
  What processes do with the cache, in any order: read a block nobody holds, change
  a held block, write it through, pin it, release it, or let another process run.
\<close>

inductive cache_run :: "('x) bufst_scheme \<Rightarrow> ('x) bufst_scheme \<Rightarrow> bool" for s0 where
  run_start: "cache_run s0 s0"
| run_read: "\<lbrakk>cache_run s0 s; n < disksize s; n \<notin> held s; bread 1 n s = Ret b t\<rbrakk> \<Longrightarrow> cache_run s0 t"
| run_change: "\<lbrakk>cache_run s0 s; owns s b n; length d = BSIZE\<rbrakk> \<Longrightarrow> cache_run s0 (upd_buf b (\<lambda>k. k\<lparr>bdata := d\<rparr>) s)"
| run_pin: "\<lbrakk>cache_run s0 s; owns s b n\<rbrakk> \<Longrightarrow> cache_run s0 (upd_buf b (\<lambda>k. k\<lparr>bdirty := True\<rparr>) s)"
| run_write: "\<lbrakk>cache_run s0 s; owns s b n; bwrite b s = Ret () t\<rbrakk> \<Longrightarrow> cache_run s0 t"
| run_release: "\<lbrakk>cache_run s0 s; owns s b n; n \<in> dirty_blocks s \<or> content s n = disk s (unat n); brelse b s = Ret () t\<rbrakk>
    \<Longrightarrow> cache_run s0 t"
| run_switch: "\<lbrakk>cache_run s0 s; this_cpu s = Some c; p < length (procs s)\<rbrakk>
    \<Longrightarrow> cache_run s0 (s\<lparr>cpus := (cpus s)[c := (cpus s ! c)\<lparr>cproc := Some p\<rparr>]\<rparr>)"

lemma calm_switch:
  assumes "calm s" "this_cpu s = Some c" "p < length (procs s)"
  shows "calm (s\<lparr>cpus := (cpus s)[c := (cpus s ! c)\<lparr>cproc := Some p\<rparr>]\<rparr>)"
proof -
  let ?t = "s\<lparr>cpus := (cpus s)[c := (cpus s ! c)\<lparr>cproc := Some p\<rparr>]\<rparr>"
  have c: "c < length (cpus s)" using assms(1,2) by (auto simp: calm_def cli_ok_def)
  have "this_cpu ?t = this_cpu s" using c by (intro this_cpu_cong) (auto simp: nth_list_update)
  then show ?thesis using assms c by (auto simp: calm_def cli_ok_def lk_free_def cur_def readeflags_IF_def)
qed

lemma bio_ok_switch:
  assumes "bio_ok s" "this_cpu s = Some c" "p < length (procs s)"
  shows "bio_ok (s\<lparr>cpus := (cpus s)[c := (cpus s ! c)\<lparr>cproc := Some p\<rparr>]\<rparr>)"
  using assms calm_switch[of s c p]
  by (auto simp: bio_ok_def lru_def nxt_def[abs_def] prv_def[abs_def] cache_ok_def blk_locked_def)

lemma bread_keeps_ok:
  assumes "bio_ok s" "n < disksize s" "n \<notin> held s" "bread 1 n s = Ret b t"
  shows "bio_ok t"
proof -
  obtain xs where o: "calm s" "lru s xs" "cache_ok s" using assms(1) by (auto simp: bio_ok_def)
  have free: "\<not> blk_locked s i" if "i < NBUF" "holds (bufs s ! i) n" for i
    using assms(3) that by (auto simp: held_def holds_def)
  have "List.find (reusable s) (rev xs) \<noteq> None \<or> (\<exists>i<NBUF. holds (bufs s ! i) n)"
    using bread_full[OF o(1,2)] assms(4) by force
  then have "(\<exists>i<NBUF. holds (bufs s ! i) n) \<or> (\<exists>i. reusable s i)" by (auto dest: find_SomeD)
  then obtain c k where k: "bread 1 n s = Ret c (take_buf c k s)" "fills s n c k"
    using bread_take[OF o assms(2) free] by auto
  show ?thesis
    using k assms(4) o lru_take[OF o(2) k(2)] cache_ok_take[OF o(3) lruD(1)[OF o(2)] k(2) assms(2)]
    by (auto simp: bio_ok_def)
qed



end
