(* ===== verification/Log.thy ===== *)
theory Log
  imports Bio
begin

text \<open>
  The write-ahead log: \<open>kernel/log.c\<close>, and \<open>readsb\<close> of
  \<open>kernel/fs.c\<close>, which it calls.

  \<open>log.lh\<close> is the pair of \<open>lh_n\<close> and the array \<open>lh_block\<close>.
  A \<open>for\<close> loop over \<open>tail < log.lh.n\<close> is a recursion over the list of
  values of \<open>tail\<close>: the body does not change \<open>log.lh\<close>.
\<close>

section \<open>State\<close>

record superblock =
  sb_size :: uint
  sb_nblocks :: uint
  sb_ninodes :: uint
  sb_nlog :: uint
  sb_logstart :: uint
  sb_inodestart :: uint
  sb_bmapstart :: uint

record logst = bufst +
  log_start :: uint
  log_size :: uint
  outstanding :: int
  committing :: bool
  log_dev :: uint
  lh_n :: int
  lh_block :: "uint list"

definition MAXOPBLOCKS :: int where "MAXOPBLOCKS = 10"
definition LOGSIZE :: int where "LOGSIZE = MAXOPBLOCKS * 3"

definition read_superblock :: "block \<Rightarrow> superblock" where
  "read_superblock d =
     \<lparr>sb_size = un32 (seg 0 4 d), sb_nblocks = un32 (seg 4 4 d), sb_ninodes = un32 (seg 8 4 d),
      sb_nlog = un32 (seg 12 4 d), sb_logstart = un32 (seg 16 4 d), sb_inodestart = un32 (seg 20 4 d),
      sb_bmapstart = un32 (seg 24 4 d)\<rparr>"

definition readsb :: "uint \<Rightarrow> ('x) bufst_scheme \<Rightarrow> (('x) bufst_scheme, superblock) outcome" where
  "readsb dev s =
     bnd (bread dev 1 s) (\<lambda>bp s.
     let sb = read_superblock (bdata (bufs s ! bp)) in
     bnd (brelse bp s) (\<lambda>_ s. Ret sb s))"

section \<open>Header and blocks\<close>

fun install_trans_loop :: "nat list \<Rightarrow> ('x) logst_scheme \<Rightarrow> (('x) logst_scheme, unit) outcome" where
  "install_trans_loop [] s = Ret () s"
| "install_trans_loop (tail # ts) s =
     bnd (bread (log_dev s) (log_start s + of_nat tail + 1) s) (\<lambda>lbuf s.
     bnd (bread (log_dev s) (lh_block s ! tail) s) (\<lambda>dbuf s.
     let s = upd_buf dbuf (\<lambda>k. k\<lparr>bdata := bdata (bufs s ! lbuf)\<rparr>) s in
     bnd (bwrite dbuf s) (\<lambda>_ s.
     bnd (brelse lbuf s) (\<lambda>_ s.
     bnd (brelse dbuf s) (\<lambda>_ s.
     install_trans_loop ts s)))))"

definition install_trans :: "('x) logst_scheme \<Rightarrow> (('x) logst_scheme, unit) outcome" where
  "install_trans s = install_trans_loop [0..<nat (lh_n s)] s"

text \<open>
  \<open>read_head\<close> trusts the header: a count over \<open>LOGSIZE\<close> makes it write
  behind the array.
\<close>

definition read_head :: "('x) logst_scheme \<Rightarrow> (('x) logst_scheme, unit) outcome" where
  "read_head s =
     bnd (bread (log_dev s) (log_start s) s) (\<lambda>b s.
     let lh = bdata (bufs s ! b);
         s = s\<lparr>lh_n := sint (un32 (seg 0 4 lh))\<rparr> in
     if lh_n s > LOGSIZE then Wild
     else
       let s = s\<lparr>lh_block := map (\<lambda>i. if int i < lh_n s then un32 (seg (4 + 4 * i) 4 lh) else lh_block s ! i)
                               [0..<nat LOGSIZE]\<rparr> in
       brelse b s)"

fun put_header_blocks :: "nat list \<Rightarrow> uint list \<Rightarrow> block \<Rightarrow> block" where
  "put_header_blocks [] bs d = d"
| "put_header_blocks (i # js) bs d = put_header_blocks js bs (blit (4 + 4 * i) (le32 (bs ! i)) d)"

definition put_header :: "int \<Rightarrow> uint list \<Rightarrow> block \<Rightarrow> block" where
  "put_header n bs d = put_header_blocks [0..<nat n] bs (blit 0 (le32 (of_int n)) d)"

definition write_head :: "('x) logst_scheme \<Rightarrow> (('x) logst_scheme, unit) outcome" where
  "write_head s =
     bnd (bread (log_dev s) (log_start s) s) (\<lambda>b s.
     let s = upd_buf b (\<lambda>k. k\<lparr>bdata := put_header (lh_n s) (lh_block s) (bdata k)\<rparr>) s in
     bnd (bwrite b s) (\<lambda>_ s.
     brelse b s))"

definition recover_from_log :: "('x) logst_scheme \<Rightarrow> (('x) logst_scheme, unit) outcome" where
  "recover_from_log s =
     bnd (read_head s) (\<lambda>_ s.
     bnd (install_trans s) (\<lambda>_ s.
     let s = s\<lparr>lh_n := 0\<rparr> in
     write_head s))"

definition initlog :: "uint \<Rightarrow> ('x) logst_scheme \<Rightarrow> (('x) logst_scheme, unit) outcome" where
  "initlog dev s =
     (if 4 + 4 * nat LOGSIZE \<ge> BSIZE then Panic ''initlog: too big logheader''
      else
        let s = initlock L_log ''log'' s in
        bnd (readsb dev s) (\<lambda>sb s.
        let s = s\<lparr>log_start := sb_logstart sb\<rparr>;
            s = s\<lparr>log_size := sb_nlog sb\<rparr>;
            s = s\<lparr>log_dev := dev\<rparr> in
        recover_from_log s))"

section \<open>Transactions\<close>

definition begin_op_loop :: "('x) logst_scheme \<Rightarrow> (('x) logst_scheme, unit) outcome" where
  "begin_op_loop s =
     (if committing s then bnd (sleep Ch_log L_log s) (\<lambda>_ s. OutOfFuel)
      else if lh_n s + (outstanding s + 1) * MAXOPBLOCKS > LOGSIZE
      then bnd (sleep Ch_log L_log s) (\<lambda>_ s. OutOfFuel)
      else
        let s = s\<lparr>outstanding := outstanding s + 1\<rparr> in
        release L_log s)"

definition begin_op :: "('x) logst_scheme \<Rightarrow> (('x) logst_scheme, unit) outcome" where
  "begin_op s = bnd (acquire L_log s) (\<lambda>_ s. begin_op_loop s)"

definition begin_op_resume :: "nat \<Rightarrow> bool \<Rightarrow> ('x) logst_scheme \<Rightarrow> (('x) logst_scheme, unit) outcome" where
  "begin_op_resume p ie s = bnd (sleep_resume p ie L_log s) (\<lambda>_ s. begin_op_loop s)"

fun write_log_loop :: "nat list \<Rightarrow> ('x) logst_scheme \<Rightarrow> (('x) logst_scheme, unit) outcome" where
  "write_log_loop [] s = Ret () s"
| "write_log_loop (tail # ts) s =
     bnd (bread (log_dev s) (log_start s + of_nat tail + 1) s) (\<lambda>to s.
     bnd (bread (log_dev s) (lh_block s ! tail) s) (\<lambda>from s.
     let s = upd_buf to (\<lambda>k. k\<lparr>bdata := bdata (bufs s ! from)\<rparr>) s in
     bnd (bwrite to s) (\<lambda>_ s.
     bnd (brelse from s) (\<lambda>_ s.
     bnd (brelse to s) (\<lambda>_ s.
     write_log_loop ts s)))))"

definition write_log :: "('x) logst_scheme \<Rightarrow> (('x) logst_scheme, unit) outcome" where
  "write_log s = write_log_loop [0..<nat (lh_n s)] s"

definition commit :: "('x) logst_scheme \<Rightarrow> (('x) logst_scheme, unit) outcome" where
  "commit s =
     (if lh_n s > 0
      then
        bnd (write_log s) (\<lambda>_ s.
        bnd (write_head s) (\<lambda>_ s.
        bnd (install_trans s) (\<lambda>_ s.
        let s = s\<lparr>lh_n := 0\<rparr> in
        write_head s)))
      else Ret () s)"

definition end_op :: "('x) logst_scheme \<Rightarrow> (('x) logst_scheme, unit) outcome" where
  "end_op s =
     bnd (acquire L_log s) (\<lambda>_ s.
     let s = s\<lparr>outstanding := outstanding s - 1\<rparr> in
     if committing s then Panic ''log.committing''
     else
       bnd (if outstanding s = 0 then Ret True (s\<lparr>committing := True\<rparr>)
            else bnd (wakeup Ch_log s) (\<lambda>_ s. Ret False s)) (\<lambda>do_commit s.
       bnd (release L_log s) (\<lambda>_ s.
       if do_commit
       then
         bnd (commit s) (\<lambda>_ s.
         bnd (acquire L_log s) (\<lambda>_ s.
         let s = s\<lparr>committing := False\<rparr> in
         bnd (wakeup Ch_log s) (\<lambda>_ s.
         release L_log s)))
       else Ret () s)))"

text \<open>The index the loop of \<open>log_write\<close> stops at.\<close>

definition log_slot :: "uint \<Rightarrow> ('x) logst_scheme \<Rightarrow> nat" where
  "log_slot bno s =
     (case List.find (\<lambda>i. lh_block s ! i = bno) [0..<nat (lh_n s)] of Some i \<Rightarrow> i | None \<Rightarrow> nat (lh_n s))"

definition log_write :: "nat \<Rightarrow> ('x) logst_scheme \<Rightarrow> (('x) logst_scheme, unit) outcome" where
  "log_write b s =
     (if lh_n s \<ge> LOGSIZE \<or> lh_n s \<ge> sint (log_size s) - 1 then Panic ''too big a transaction''
      else if outstanding s < 1 then Panic ''log_write outside of trans''
      else
        bnd (acquire L_log s) (\<lambda>_ s.
        let i = log_slot (blockno (bufs s ! b)) s;
            s = s\<lparr>lh_block := (lh_block s)[i := blockno (bufs s ! b)]\<rparr>;
            s = (if int i = lh_n s then s\<lparr>lh_n := lh_n s + 1\<rparr> else s);
            s = upd_buf b (\<lambda>k. k\<lparr>bdirty := True\<rparr>) s in
        release L_log s))"

end
