(* ===== verification/Logsafe.thy ===== *)
theory Logsafe
  imports Bcache Log
begin

text \<open>
  The write-ahead log over a disk that may stop after any write.

  The log's loops copy blocks through the cache, so their effect is read off the
  abstract cache (theory Bcache).  The disk after a crash is the disk before the
  commit with some prefix of the commit's writes applied; recovery on it restores
  either none or all of the transaction, and may itself be interrupted and repeated.
\<close>

section \<open>The state of the log and the cache\<close>

lemma log_upd [simp]:
  "bio_ok (s\<lparr>lh_n := a\<rparr>) = bio_ok s" "view (s\<lparr>lh_n := a\<rparr>) = view s"
  "bio_ok (s\<lparr>lh_block := b\<rparr>) = bio_ok s" "view (s\<lparr>lh_block := b\<rparr>) = view s"
  "bio_ok (s\<lparr>outstanding := c\<rparr>) = bio_ok s" "view (s\<lparr>outstanding := c\<rparr>) = view s"
  "bio_ok (s\<lparr>committing := d\<rparr>) = bio_ok s" "view (s\<lparr>committing := d\<rparr>) = view s"
  by (simp_all add: bio_ok_def calm_def cli_ok_def this_cpu_def readeflags_IF_def lk_free_def cur_def lru_def
      nxt_def[abs_def] prv_def[abs_def] cache_ok_def blk_locked_def view_def content_def[abs_def] dirty_blocks_def cong: if_cong option.case_cong)

lemma mach_upd_log:
  "cli_ok (s\<lparr>committing := d\<rparr>) = cli_ok s" "lk_free l (s\<lparr>committing := d\<rparr>) = lk_free l s"
  "cli_ok (s\<lparr>outstanding := c\<rparr>) = cli_ok s" "lk_free l (s\<lparr>outstanding := c\<rparr>) = lk_free l s"
  by (simp_all add: cli_ok_def this_cpu_def readeflags_IF_def lk_free_def)

lemma bframe_log:
  assumes "bframe s t"
  shows "log_dev t = log_dev s" "log_start t = log_start s" "log_size t = log_size s" "lh_n t = lh_n s"
    "lh_block t = lh_block s" "outstanding t = outstanding s" "committing t = committing s" "disksize t = disksize s"
  using assms by (auto simp: bframe_iff)

lemma view_sel: "vdisk (view s) = disk s" "vtrace (view s) = dtrace s" "vsize (view s) = disksize s" "vdirty (view s) = dirty_blocks s"
    "vcontent (view s) = content s"
  by (simp_all add: view_def)

text \<open>The state but for what the cache and the log's header change.\<close>

definition lframe :: "('x) logst_scheme \<Rightarrow> ('x) logst_scheme \<Rightarrow> bool" where
  "lframe s t \<longleftrightarrow> (\<exists>a b c d e n B. t = s\<lparr>lh_block := B, lh_n := n, procs := a, sleeps := b, bufs := c, disk := d, dtrace := e\<rparr>)"

lemma lframeI: "bframe (s\<lparr>lh_block := B, lh_n := n\<rparr>) t \<Longrightarrow> lframe s t"
  unfolding bframe_iff lframe_def by blast

lemma lframe_bframe: "bframe s t \<Longrightarrow> lframe s t"
  unfolding bframe_iff lframe_def
proof (elim exE)
  fix a b c d e assume "t = s\<lparr>procs := a, sleeps := b, bufs := c, disk := d, dtrace := e\<rparr>"
  then have "t = s\<lparr>lh_block := lh_block s, lh_n := lh_n s, procs := a, sleeps := b, bufs := c, disk := d, dtrace := e\<rparr>" by simp
  then show "\<exists>a b c d e n B. t = s\<lparr>lh_block := B, lh_n := n, procs := a, sleeps := b, bufs := c, disk := d, dtrace := e\<rparr>" by blast
qed

lemma lframe_trans: "lframe s t \<Longrightarrow> lframe t u \<Longrightarrow> lframe s u"
  unfolding lframe_def by (elim exE) (simp, blast)

lemma lframe_log:
  assumes "lframe s t"
  shows "log_dev t = log_dev s" "log_start t = log_start s" "log_size t = log_size s"
    "outstanding t = outstanding s" "committing t = committing s" "disksize t = disksize s"
  using assms by (auto simp: lframe_def)

section \<open>Copying blocks\<close>

text \<open>The effect of copying the blocks of a list of pairs of source and target.\<close>

fun copies :: "(uint \<times> uint) list \<Rightarrow> cview \<Rightarrow> cview" where
  "copies [] v = v"
| "copies ((src, dst) # ps) v = copies ps (stored dst (vcontent v src) v)"

definition apply_writes :: "(nat \<Rightarrow> block) \<Rightarrow> (nat \<times> block) list \<Rightarrow> nat \<Rightarrow> block" where
  "apply_writes d ws = foldl (\<lambda>d (n, x). d(n := x)) d ws"

lemma apply_writes_simps [simp]:
  "apply_writes d [] = d" "apply_writes d ((n, x) # ws) = apply_writes (d(n := x)) ws"
  "apply_writes d (ws @ ws') = apply_writes (apply_writes d ws) ws'"
  by (simp_all add: apply_writes_def)

lemma apply_writes_notin: "m \<notin> fst ` set ws \<Longrightarrow> apply_writes d ws m = d m"
  by (induction ws arbitrary: d) auto

lemma apply_writes_in: "distinct (map fst ws) \<Longrightarrow> (m, x) \<in> set ws \<Longrightarrow> apply_writes d ws m = x"
  by (induction ws arbitrary: d) (force simp: apply_writes_notin)+

lemma stored_sel [simp]:
  "vcontent (stored n x v) = (vcontent v)(n := x)" "vdirty (stored n x v) = vdirty v - {n}"
  "vdisk (stored n x v) = (vdisk v)(unat n := x)" "vtrace (stored n x v) = vtrace v @ [(unat n, x)]"
  "vown (stored n x v) = Map.empty" "vsize (stored n x v) = vsize v"
  by (simp_all add: stored_def)

text \<open>The writes such a copy makes, when no block is both source and target.\<close>

definition copy_writes :: "(uint \<times> uint) list \<Rightarrow> (uint \<Rightarrow> block) \<Rightarrow> (nat \<times> block) list" where
  "copy_writes ps c = map (\<lambda>(src, dst). (unat dst, c src)) ps"

lemma copy_writes_simps [simp]:
  "copy_writes [] c = []" "copy_writes ((src, dst) # ps) c = (unat dst, c src) # copy_writes ps c"
  by (simp_all add: copy_writes_def)

lemma copy_writes_cong: "(\<And>p. p \<in> set ps \<Longrightarrow> c (fst p) = c' (fst p)) \<Longrightarrow> copy_writes ps c = copy_writes ps c'"
  by (auto simp: copy_writes_def)

lemma copies_all:
  assumes "fst ` set ps \<inter> snd ` set ps = {}" "vown v = Map.empty"
  shows "vtrace (copies ps v) = vtrace v @ copy_writes ps (vcontent v) \<and>
    vdisk (copies ps v) = apply_writes (vdisk v) (copy_writes ps (vcontent v)) \<and>
    vdirty (copies ps v) = vdirty v - snd ` set ps \<and> vown (copies ps v) = Map.empty \<and> vsize (copies ps v) = vsize v \<and>
    (\<forall>n. n \<notin> snd ` set ps \<longrightarrow> vcontent (copies ps v) n = vcontent v n)"
  using assms
proof (induction ps arbitrary: v)
  case (Cons p ps)
  obtain src dst where p: "p = (src, dst)" by (cases p)
  have w: "copy_writes ps ((vcontent v)(dst := vcontent v src)) = copy_writes ps (vcontent v)"
    using Cons.prems by (intro copy_writes_cong) (auto simp: p)
  have "fst ` set ps \<inter> snd ` set ps = {}" using Cons.prems(1) by auto
  from Cons.IH[OF this, of "stored dst (vcontent v src) v", unfolded stored_sel w] show ?case
    by (auto simp: p fun_upd_def simp del: stored_sel)
qed simp

lemma copies_eq:
  assumes "fst ` set ps \<inter> snd ` set ps = {}" "vown v = Map.empty"
  shows "vtrace (copies ps v) = vtrace v @ copy_writes ps (vcontent v)"
    "vdisk (copies ps v) = apply_writes (vdisk v) (copy_writes ps (vcontent v))"
    "vdirty (copies ps v) = vdirty v - snd ` set ps" "vown (copies ps v) = Map.empty" "vsize (copies ps v) = vsize v"
    "n \<notin> snd ` set ps \<Longrightarrow> vcontent (copies ps v) n = vcontent v n"
  using copies_all[OF assms] by auto

lemma copies_content:
  assumes "fst ` set ps \<inter> snd ` set ps = {}" "vown v = Map.empty" "distinct (map snd ps)" "(src, dst) \<in> set ps"
  shows "vcontent (copies ps v) dst = vcontent v src"
  using assms
proof (induction ps arbitrary: v)
  case (Cons p ps)
  obtain s d where p: "p = (s, d)" by (cases p)
  have dis: "fst ` set ps \<inter> snd ` set ps = {}" using Cons.prems(1) by auto
  let ?v = "stored d (vcontent v s) v"
  show ?case
  proof (cases "(src, dst) = p")
    case True
    then have "dst \<notin> snd ` set ps" using Cons.prems(3) by (simp add: p)
    then show ?thesis using copies_eq(6)[OF dis, of ?v dst] True by (simp add: p)
  next
    case False
    then have m: "(src, dst) \<in> set ps" using Cons.prems(4) by auto
    then have "src \<noteq> d" using Cons.prems(1) p by force
    then show ?thesis using Cons.IH[OF dis _ _ m, of ?v] Cons.prems(3) by (simp add: p)
  qed
qed simp

text \<open>The two loops of the log that copy blocks.\<close>

definition fits :: "cview \<Rightarrow> uint \<times> uint \<Rightarrow> bool" where
  "fits v p \<longleftrightarrow> fst p \<noteq> snd p \<and> fst p < vsize v \<and> snd p < vsize v \<and> card (insert (fst p) (insert (snd p) (vdirty v))) \<le> NBUF"

lemma fits_stored: "fits v p \<Longrightarrow> finite (vdirty v) \<Longrightarrow> fits (stored n x v) p"
  by (auto simp: fits_def intro!: order_trans[OF card_mono[of "insert (fst p) (insert (snd p) (vdirty v))"]])

lemma finite_vdirty [simp]: "finite (vdirty (view s))" by (simp add: view_def)

lemma install_trans_loop_view:
  assumes "bio_ok s" "vown (view s) = Map.empty" "log_dev s = 1"
    "\<And>i. i \<in> set ts \<Longrightarrow> fits (view s) (log_start s + of_nat i + 1, lh_block s ! i)"
  shows "\<exists>t. install_trans_loop ts s = Ret () t \<and> bio_ok t \<and> bframe s t \<and>
    view t = copies (map (\<lambda>i. (log_start s + of_nat i + 1, lh_block s ! i)) ts) (view s)"
  using assms
proof (induction ts arbitrary: s)
  case (Cons i ts)
  let ?src = "log_start s + of_nat i + 1" and ?dst = "lh_block s ! i"
  have f: "?src \<noteq> ?dst" "?src < vsize (view s)" "?dst < vsize (view s)" "card (insert ?src (insert ?dst (vdirty (view s)))) \<le> NBUF"
    using Cons.prems(4)[of i] by (auto simp: fits_def)
  obtain b1 t1 b2 t where r: "bread 1 ?src s = Ret b1 t1" "bread 1 ?dst t1 = Ret b2 t" "b1 \<noteq> b2" "bio_ok t" "bframe s t1" "bframe t1 t"
    "view t = (view s)\<lparr>vown := [b1 \<mapsto> ?src, b2 \<mapsto> ?dst]\<rparr>"
    using bc.read_two[OF Cons.prems(1,2) f finite_vdirty] by auto
  have cl: "?src \<in> vdirty (view t) \<or> vcontent (view t) ?src = vdisk (view t) (unat ?src)"
    using clean_view[OF Cons.prems(1), of ?src] Cons.prems(2) r(7) by auto
  have ow: "vown (view t) = [b1 \<mapsto> ?src, b2 \<mapsto> ?dst]" using r(7) by simp
  obtain u where u: "bnd (bwrite b2 (upd_buf b2 (\<lambda>k. k\<lparr>bdata := bdata (bufs t ! b1)\<rparr>) t)) (\<lambda>_ s. bnd (brelse b1 s) (\<lambda>_ s. bnd (brelse b2 s) (\<lambda>_. install_trans_loop ts))) = install_trans_loop ts u"
    "bio_ok u" "bframe t u" "view u = stored ?dst (vcontent (view t) ?src) (view t)"
    using bc.copy_held[OF r(4) ow r(3) f(1) cl] by auto
  have su: "bframe s u" using r(5,6) u(3) bframe_trans by blast
  note lu = bframe_log[OF su] and l1 = bframe_log[OF r(5)]
  have vu: "view u = stored ?dst (vcontent (view s) ?src) (view s)" using u(4) r(7) by (simp add: stored_def)
  have step: "install_trans_loop (i # ts) s = install_trans_loop ts u"
    using Cons.prems(3) r(1,2) u(1) l1 by (simp add: Let_def)
  have "\<exists>v. install_trans_loop ts u = Ret () v \<and> bio_ok v \<and> bframe u v \<and>
    view v = copies (map (\<lambda>i. (log_start u + of_nat i + 1, lh_block u ! i)) ts) (view u)"
    by (rule Cons.IH) (use Cons.prems u(2) lu(1,2,5) in \<open>auto simp: vu intro!: fits_stored\<close>)
  then show ?case using step lu vu su bframe_trans by auto
qed simp

lemma write_log_loop_view:
  assumes "bio_ok s" "vown (view s) = Map.empty" "log_dev s = 1"
    "\<And>i. i \<in> set ts \<Longrightarrow> fits (view s) (lh_block s ! i, log_start s + of_nat i + 1)"
  shows "\<exists>t. write_log_loop ts s = Ret () t \<and> bio_ok t \<and> bframe s t \<and>
    view t = copies (map (\<lambda>i. (lh_block s ! i, log_start s + of_nat i + 1)) ts) (view s)"
  using assms
proof (induction ts arbitrary: s)
  case (Cons i ts)
  let ?dst = "log_start s + of_nat i + 1" and ?src = "lh_block s ! i"
  have f: "?dst \<noteq> ?src" "?dst < vsize (view s)" "?src < vsize (view s)" "card (insert ?dst (insert ?src (vdirty (view s)))) \<le> NBUF"
    using Cons.prems(4)[of i] by (auto simp: fits_def insert_commute)
  obtain b1 t1 b2 t where r: "bread 1 ?dst s = Ret b1 t1" "bread 1 ?src t1 = Ret b2 t" "b1 \<noteq> b2" "bio_ok t" "bframe s t1" "bframe t1 t"
    "view t = (view s)\<lparr>vown := [b1 \<mapsto> ?dst, b2 \<mapsto> ?src]\<rparr>"
    using bc.read_two[OF Cons.prems(1,2) f finite_vdirty] by auto
  have cl: "?src \<in> vdirty (view t) \<or> vcontent (view t) ?src = vdisk (view t) (unat ?src)"
    using clean_view[OF Cons.prems(1), of ?src] Cons.prems(2) r(7) by auto
  have ow: "vown (view t) = [b2 \<mapsto> ?src, b1 \<mapsto> ?dst]" using r(3,7) by (simp add: fun_upd_twist)
  obtain u where u: "bnd (bwrite b1 (upd_buf b1 (\<lambda>k. k\<lparr>bdata := bdata (bufs t ! b2)\<rparr>) t)) (\<lambda>_ s. bnd (brelse b2 s) (\<lambda>_ s. bnd (brelse b1 s) (\<lambda>_. write_log_loop ts))) = write_log_loop ts u"
    "bio_ok u" "bframe t u" "view u = stored ?dst (vcontent (view t) ?src) (view t)"
    using bc.copy_held[OF r(4) ow r(3)[symmetric] f(1)[symmetric] cl] by auto
  have su: "bframe s u" using r(5,6) u(3) bframe_trans by blast
  note lu = bframe_log[OF su] and l1 = bframe_log[OF r(5)]
  have vu: "view u = stored ?dst (vcontent (view s) ?src) (view s)" using u(4) r(7) by (simp add: stored_def)
  have step: "write_log_loop (i # ts) s = write_log_loop ts u"
    using Cons.prems(3) r(1,2) u(1) l1 by (simp add: Let_def)
  have "\<exists>v. write_log_loop ts u = Ret () v \<and> bio_ok v \<and> bframe u v \<and>
    view v = copies (map (\<lambda>i. (lh_block u ! i, log_start u + of_nat i + 1)) ts) (view u)"
    by (rule Cons.IH) (use Cons.prems u(2) lu(1,2,5) in \<open>auto simp: vu intro!: fits_stored\<close>)
  then show ?case using step lu vu su bframe_trans by auto
qed simp

section \<open>The header block\<close>

text \<open>The count and the block numbers a header block holds.\<close>

definition hdr_n :: "block \<Rightarrow> int" where
  "hdr_n x = sint (un32 (seg 0 4 x))"

definition hdr_block :: "block \<Rightarrow> nat \<Rightarrow> uint" where
  "hdr_block x i = un32 (seg (4 + 4 * i) 4 x)"

lemma put_header_blocks_seg:
  assumes "\<And>i. i \<in> set js \<Longrightarrow> 8 + 4 * i \<le> length d" "distinct js"
  shows "length (put_header_blocks js bs d) = length d \<and> seg 0 4 (put_header_blocks js bs d) = seg 0 4 d \<and>
    (\<forall>i. 8 + 4 * i \<le> length d \<longrightarrow> seg (4 + 4 * i) 4 (put_header_blocks js bs d) = (if i \<in> set js then le32 (bs ! i) else seg (4 + 4 * i) 4 d))"
  using assms
proof (induction js arbitrary: d)
  case (Cons j js)
  let ?d = "blit (4 + 4 * j) (le32 (bs ! j)) d"
  have j: "8 + 4 * j \<le> length d" using Cons.prems(1)[of j] by simp
  have l: "length ?d = length d" using j by simp
  have s0: "seg 0 4 ?d = seg 0 4 d" using j by (intro seg_blit_other) auto
  have sj: "seg (4 + 4 * j) 4 ?d = le32 (bs ! j)" using seg_blit_same[of "4 + 4 * j" "le32 (bs ! j)" d] j by simp
  have so: "seg (4 + 4 * i) 4 ?d = seg (4 + 4 * i) 4 d" if "i \<noteq> j" "8 + 4 * i \<le> length d" for i
    using that j by (intro seg_blit_other) auto
  have IH: "length (put_header_blocks js bs ?d) = length ?d \<and> seg 0 4 (put_header_blocks js bs ?d) = seg 0 4 ?d \<and>
    (\<forall>i. 8 + 4 * i \<le> length ?d \<longrightarrow> seg (4 + 4 * i) 4 (put_header_blocks js bs ?d) = (if i \<in> set js then le32 (bs ! i) else seg (4 + 4 * i) 4 ?d))"
    by (rule Cons.IH) (use Cons.prems l in auto)
  show ?case
  proof (intro conjI allI impI)
    show "length (put_header_blocks (j # js) bs d) = length d" "seg 0 4 (put_header_blocks (j # js) bs d) = seg 0 4 d"
      using IH l s0 by simp_all
    fix i assume i: "8 + 4 * i \<le> length d"
    show "seg (4 + 4 * i) 4 (put_header_blocks (j # js) bs d) = (if i \<in> set (j # js) then le32 (bs ! i) else seg (4 + 4 * i) 4 d)"
      using IH i l sj so[OF _ i] by (cases "i = j") auto
  qed
qed simp

lemma put_header_ok:
  assumes "length d = BSIZE" "0 \<le> n" "n \<le> LOGSIZE"
  shows "length (put_header n bs d) = BSIZE" "hdr_n (put_header n bs d) = n"
    "i < nat n \<Longrightarrow> hdr_block (put_header n bs d) i = bs ! i"
proof -
  let ?d = "blit 0 (le32 (of_int n)) d"
  have L: "n \<le> 30" using assms(3) by (simp add: LOGSIZE_def MAXOPBLOCKS_def)
  have l: "length ?d = BSIZE" using assms(1) by (simp add: BSIZE_def)
  have p: "length (put_header_blocks [0..<nat n] bs ?d) = length ?d \<and> seg 0 4 (put_header_blocks [0..<nat n] bs ?d) = seg 0 4 ?d \<and>
    (\<forall>i. 8 + 4 * i \<le> length ?d \<longrightarrow> seg (4 + 4 * i) 4 (put_header_blocks [0..<nat n] bs ?d) = (if i \<in> set [0..<nat n] then le32 (bs ! i) else seg (4 + 4 * i) 4 ?d))"
    by (rule put_header_blocks_seg) (use L l in \<open>auto simp: BSIZE_def\<close>)
  show "length (put_header n bs d) = BSIZE" using p l by (simp add: put_header_def)
  have "seg 0 4 ?d = le32 (of_int n)" using seg_blit_same[of 0 "le32 (of_int n)" d] assms(1) by (simp add: BSIZE_def)
  then have "hdr_n (put_header n bs d) = sint (of_int n :: uint)" using p by (simp add: hdr_n_def put_header_def)
  also have "\<dots> = n" using assms(2) L by (simp add: int_word_sint)
  finally show "hdr_n (put_header n bs d) = n" .
  show "hdr_block (put_header n bs d) i = bs ! i" if "i < nat n"
    using p that l L by (simp add: hdr_block_def put_header_def BSIZE_def)
qed

lemma write_head_view:
  assumes "bio_ok s" "vown (view s) = Map.empty" "log_dev s = 1" "log_start s < vsize (view s)"
    "card (insert (log_start s) (vdirty (view s))) \<le> NBUF" "0 \<le> lh_n s" "lh_n s \<le> LOGSIZE"
  shows "\<exists>t. write_head s = Ret () t \<and> bio_ok t \<and> bframe s t \<and>
    view t = stored (log_start s) (put_header (lh_n s) (lh_block s) (vcontent (view s) (log_start s))) (view s)"
proof -
  let ?h = "log_start s"
  let ?x = "put_header (lh_n s) (lh_block s) (vcontent (view s) ?h)"
  obtain b t where t: "bread 1 ?h s = Ret b t" "bio_ok t" "bframe s t" "view t = (view s)\<lparr>vown := [b \<mapsto> ?h]\<rparr>"
    using bread_view[OF assms(1), of ?h] assms(2,4,5) by auto
  note lt = bframe_log[OF t(3)]
  have o: "vown (view t) b = Some ?h" using t(4) by simp
  have d: "bdata (bufs t ! b) = vcontent (view s) ?h" "length (vcontent (view s) ?h) = BSIZE"
    using data_view[OF t(2) o] t(4) by simp_all
  have lx: "length ?x = BSIZE" by (rule put_header_ok(1)[OF d(2) assms(6,7)])
  define u where "u = upd_buf b (\<lambda>k. k\<lparr>bdata := ?x\<rparr>) t"
  have u: "bio_ok u" "bframe t u" "view u = (view t)\<lparr>vcontent := (vcontent (view t))(?h := ?x)\<rparr>"
    unfolding u_def by (rule set_view[OF t(2) o lx])+
  have ou: "vown (view u) b = Some ?h" using u(3) o by simp
  obtain v where v: "bwrite b u = Ret () v" "bio_ok v" "bframe u v" "view v = (view u)\<lparr>vdirty := vdirty (view u) - {?h},
      vdisk := (vdisk (view u))(unat ?h := vcontent (view u) ?h), vtrace := vtrace (view u) @ [(unat ?h, vcontent (view u) ?h)]\<rparr>"
    using bwrite_view[OF u(1) ou] by auto
  have ov: "vown (view v) b = Some ?h" "vcontent (view v) ?h = vdisk (view v) (unat ?h)" using v(4) ou by simp_all
  obtain w where w: "brelse b v = Ret () w" "bio_ok w" "bframe v w" "view w = (view v)\<lparr>vown := (vown (view v))(b := None)\<rparr>"
    using brelse_view[OF v(2) ov(1)] ov(2) by auto
  have e: "upd_buf b (\<lambda>k. k\<lparr>bdata := put_header (lh_n t) (lh_block t) (bdata k)\<rparr>) t = u"
    using d lt by (simp add: u_def upd_buf_def)
  have "write_head s = Ret () w"
    using assms(3) t(1) v(1) w(1) by (simp add: write_head_def Let_def e)
  moreover have "view w = stored ?h ?x (view s)" by (simp add: w(4) v(4) u(3) t(4) stored_def)
  moreover have "bframe s w" using t(3) u(2) v(3) w(3) bframe_trans by blast
  ultimately show ?thesis using w(2) by blast
qed

lemma read_head_view:
  assumes "bio_ok s" "vown (view s) = Map.empty" "vdirty (view s) = {}" "log_dev s = 1" "log_start s < vsize (view s)"
    "hdr_n (vdisk (view s) (unat (log_start s))) \<le> LOGSIZE"
  shows "\<exists>t B. read_head s = Ret () t \<and> bio_ok t \<and> view t = view s \<and>
    lh_n t = hdr_n (vdisk (view s) (unat (log_start s))) \<and> lh_block t = B \<and> length B = nat LOGSIZE \<and>
    (\<forall>i < nat (lh_n t). B ! i = hdr_block (vdisk (view s) (unat (log_start s))) i) \<and>
    log_dev t = log_dev s \<and> log_start t = log_start s \<and> log_size t = log_size s \<and> outstanding t = outstanding s \<and> committing t = committing s"
proof -
  let ?h = "log_start s"
  have c: "vcontent (view s) ?h = vdisk (view s) (unat ?h)" by (rule clean_view[OF assms(1)]) (use assms in simp_all)
  obtain b t where t: "bread 1 ?h s = Ret b t" "bio_ok t" "bframe s t" "view t = (view s)\<lparr>vown := [b \<mapsto> ?h]\<rparr>"
    using bread_view[OF assms(1), of ?h] assms(2,3,5) by (auto simp: NBUF_def)
  note lt = bframe_log[OF t(3)]
  have o: "vown (view t) b = Some ?h" using t(4) by simp
  let ?x = "vdisk (view s) (unat ?h)"
  have d: "bdata (bufs t ! b) = ?x" using data_view[OF t(2) o] t(4) c by simp
  define B where "B = map (\<lambda>i. if int i < hdr_n ?x then un32 (seg (4 + 4 * i) 4 ?x) else lh_block s ! i) [0..<nat LOGSIZE]"
  define u where "u = t\<lparr>lh_n := hdr_n ?x, lh_block := B\<rparr>"
  have u: "bio_ok u" "view u = view t" using t(2) by (simp_all add: u_def)
  have ou: "vown (view u) b = Some ?h" "vcontent (view u) ?h = vdisk (view u) (unat ?h)" using u(2) o t(4) c by simp_all
  obtain w where w: "brelse b u = Ret () w" "bio_ok w" "bframe u w" "view w = (view u)\<lparr>vown := (vown (view u))(b := None)\<rparr>"
    using brelse_view[OF u(1) ou(1)] ou(2) by auto
  note lw = bframe_log[OF w(3)]
  have "read_head s = brelse b u"
    using assms(4,6) t(1) lt by (simp add: read_head_def Let_def d hdr_n_def[symmetric] u_def B_def cong: if_cong)
  then have r: "read_head s = Ret () w" using w(1) by simp
  have "B ! i = hdr_block ?x i" if "i < nat (hdr_n ?x)" for i
  proof -
    have "int i < hdr_n ?x" "i < nat LOGSIZE" using that assms(6) by linarith+
    then show ?thesis by (simp add: B_def hdr_block_def)
  qed
  then show ?thesis
    using r w(2) lw lt by (intro exI[of _ w] exI[of _ B]) (auto simp: u_def B_def w(4) u(2) t(4) assms(2))
qed

section \<open>Disks that stand for an image\<close>

definition in_log :: "uint \<Rightarrow> nat \<Rightarrow> bool" where
  "in_log L m \<longleftrightarrow> unat L \<le> m \<and> m < unat L + nat LOGSIZE"

text \<open>
  \<open>stands L sz d img\<close>: the disk \<open>d\<close> is \<open>img\<close> outside the log, but for the
  blocks named in the log's header, whose contents are in the log.
\<close>

definition stands :: "uint \<Rightarrow> uint \<Rightarrow> (nat \<Rightarrow> block) \<Rightarrow> (nat \<Rightarrow> block) \<Rightarrow> bool" where
  "stands L sz d img \<longleftrightarrow>
     (let x = d (unat L); n = nat (hdr_n x); B = hdr_block x in
      0 \<le> hdr_n x \<and> hdr_n x < LOGSIZE \<and> distinct (map B [0..<n]) \<and>
      (\<forall>i<n. B i < sz \<and> \<not> in_log L (unat (B i)) \<and> d (unat L + i + 1) = img (unat (B i))) \<and>
      (\<forall>m. \<not> in_log L m \<longrightarrow> m \<notin> unat ` B ` {..<n} \<longrightarrow> d m = img m))"

definition install_writes :: "uint \<Rightarrow> (nat \<Rightarrow> block) \<Rightarrow> (nat \<times> block) list" where
  "install_writes L d = map (\<lambda>i. (unat (hdr_block (d (unat L)) i), d (unat L + i + 1))) [0..<nat (hdr_n (d (unat L)))]"

lemma standsD:
  assumes "stands L sz d img"
  shows "0 \<le> hdr_n (d (unat L))" "hdr_n (d (unat L)) < LOGSIZE"
    "distinct (map (hdr_block (d (unat L))) [0..<nat (hdr_n (d (unat L)))])"
    "i < nat (hdr_n (d (unat L))) \<Longrightarrow> hdr_block (d (unat L)) i < sz \<and> \<not> in_log L (unat (hdr_block (d (unat L)) i)) \<and>
      d (unat L + i + 1) = img (unat (hdr_block (d (unat L)) i))"
    "\<not> in_log L m \<Longrightarrow> m \<notin> unat ` hdr_block (d (unat L)) ` {..<nat (hdr_n (d (unat L)))} \<Longrightarrow> d m = img m"
  using assms by (auto simp: stands_def Let_def)

lemma stands_clean: "stands L sz d img \<Longrightarrow> hdr_n (d (unat L)) = 0 \<Longrightarrow> \<not> in_log L m \<Longrightarrow> d m = img m"
  using standsD(5) by fastforce

lemma in_log_head [simp]: "in_log L (unat L)" by (simp add: in_log_def LOGSIZE_def MAXOPBLOCKS_def)

lemma in_log_body: "Suc i < nat LOGSIZE \<Longrightarrow> in_log L (unat L + i + 1)" by (simp add: in_log_def)

text \<open>Installing the logged blocks, completely or in part, and erasing the header afterwards.\<close>

lemma stands_install:
  assumes "stands L sz d img" "hdr_n H = 0"
  shows "stands L sz (apply_writes d (take k (install_writes L d @ [(unat L, H)]))) img"
proof -
  define x where "x = d (unat L)"
  define n where "n = nat (hdr_n x)"
  define B where "B = hdr_block x"
  note D = standsD[OF assms(1), folded x_def, folded n_def, folded B_def]
  have n: "n < nat LOGSIZE" using D(1,2) by (simp add: n_def)
  let ?W = "install_writes L d"
  have W: "?W = map (\<lambda>i. (unat (B i), d (unat L + i + 1))) [0..<n]"
    by (simp add: install_writes_def x_def n_def B_def)
  have Win: "a \<in> unat ` B ` {..<n} \<and> y = img a" if "(a, y) \<in> set ?W" for a y
    using that D(4) by (auto simp: W)
  have dW: "distinct (map fst ?W)" using D(3) by (simp add: W o_def distinct_map inj_on_def flip: word_unat_eq_iff)
  have out: "\<not> in_log L a" if "a \<in> unat ` B ` {..<n}" for a using that D(4) by auto
  show ?thesis
  proof (cases "k \<le> n")
    case True
    let ?e = "apply_writes d (take k ?W)"
    have l: "?e m = d m" if "in_log L m" for m
      using that Win out by (intro apply_writes_notin) (auto dest!: in_set_takeD)
    have o: "?e m = d m" if "m \<notin> unat ` B ` {..<n}" for m
      using that Win by (intro apply_writes_notin) (auto dest!: in_set_takeD)
    have "?e (unat L) = x" using l by (simp add: x_def)
    moreover have "?e (unat L + i + 1) = d (unat L + i + 1)" if "i < n" for i using l in_log_body that n by simp
    ultimately have "stands L sz ?e img"
      unfolding stands_def Let_def using D o by (auto simp: n_def B_def)
    then show ?thesis using True by (simp add: W)
  next
    case False
    let ?e = "apply_writes d ?W"
    have "?e m = img m" if "\<not> in_log L m" for m
    proof (cases "m \<in> unat ` B ` {..<n}")
      case True
      then obtain i where i: "i < n" "m = unat (B i)" by auto
      have "?e m = d (unat L + i + 1)" by (rule apply_writes_in[OF dW]) (use i in \<open>auto simp: W\<close>)
      then show ?thesis using D(4)[OF i(1)] i by simp
    next
      case False
      then have "?e m = d m" using Win by (intro apply_writes_notin) auto
      then show ?thesis using D(5)[OF that False] by simp
    qed
    then have "stands L sz (?e(unat L := H)) img"
      unfolding stands_def Let_def using assms(2) by (auto simp: LOGSIZE_def MAXOPBLOCKS_def)
    then show ?thesis using False by (simp add: W)
  qed
qed

section \<open>Recovery\<close>

lemma lblk:
  assumes "unat L + nat LOGSIZE < unat (sz :: uint)" "Suc i < nat LOGSIZE"
  shows "unat (L + of_nat i + 1) = unat L + i + 1" "L + of_nat i + 1 < sz"
proof -
  have "unat L + i + 1 < 2 ^ 32" using assms unsigned_less[of sz, where ?'a = nat] by simp
  then show e: "unat (L + of_nat i + 1) = unat L + i + 1"
    using assms(2) by (simp add: unat_word_ariths unat_of_nat LOGSIZE_def MAXOPBLOCKS_def)
  show "L + of_nat i + 1 < sz" unfolding word_less_nat_alt e using assms by simp
qed

text \<open>A kernel that has just booted on disk \<open>d\<close> and knows where the log is.\<close>

definition rebooted :: "uint \<Rightarrow> uint \<Rightarrow> (nat \<Rightarrow> block) \<Rightarrow> ('x) logst_scheme \<Rightarrow> bool" where
  "rebooted L sz d u \<longleftrightarrow> bio_ok u \<and> vown (view u) = Map.empty \<and> vdirty (view u) = {} \<and> disk u = d \<and>
     disksize u = sz \<and> log_dev u = 1 \<and> log_start u = L"

lemma recover_view:
  assumes "rebooted L sz d u" "stands L sz d img" "unat L + nat LOGSIZE < unat sz"
  shows "\<exists>v H. recover_from_log u = Ret () v \<and> bio_ok v \<and> hdr_n H = 0 \<and> dtrace v = dtrace u @ install_writes L d @ [(unat L, H)] \<and>
    disk v = apply_writes d (install_writes L d @ [(unat L, H)])"
proof -
  note D = standsD[OF assms(2)]
  let ?x = "d (unat L)"
  let ?n = "nat (hdr_n ?x)"
  have r: "bio_ok u" "vown (view u) = Map.empty" "vdirty (view u) = {}" "vdisk (view u) = d" "vsize (view u) = sz"
    "vtrace (view u) = dtrace u" "log_dev u = 1" "log_start u = L"
    using assms(1) by (auto simp: rebooted_def view_def)
  have Ls: "L < sz" using assms(3) by (simp add: word_less_nat_alt)
  obtain t B where t: "read_head u = Ret () t" "bio_ok t" "view t = view u" "lh_n t = hdr_n ?x" "lh_block t = B"
    "\<forall>i<nat (hdr_n ?x). B ! i = hdr_block ?x i" "log_dev t = 1" "log_start t = L"
    using read_head_view[OF r(1,2,3,7)] r(4,5,7,8) Ls D(2) by auto
  let ?Q = "map (\<lambda>i. (L + of_nat i + 1, B ! i)) [0..<?n]"
  have i: "Suc i < nat LOGSIZE" if "i < ?n" for i using that D(1,2) by linarith
  have nl: "L + of_nat i + 1 \<noteq> B ! j" if "i < ?n" "j < ?n" for i j
    using D(4)[of j] that t(6) lblk(1)[OF assms(3) i[OF that(1)]] in_log_body[OF i[OF that(1)], of L] by metis
  have ft: "fits (view t) (log_start t + of_nat i + 1, lh_block t ! i)" if "i \<in> set [0..<?n]" for i
  proof -
    have "card (insert (L + of_nat i + 1) (insert (B ! i) {})) \<le> NBUF"
      by (rule order_trans[OF card_insert_le_m1[of 2]]) (simp_all add: NBUF_def)
    then show ?thesis
      using that nl D(4)[of i] lblk(2)[OF assms(3) i] t r by (auto simp: fits_def)
  qed
  have own: "vown (view t) = Map.empty" using t(3) r(2) by simp
  obtain v where v: "install_trans t = Ret () v" "bio_ok v" "bframe t v" "view v = copies ?Q (view u)"
    using install_trans_loop_view[of t "[0..<?n]", OF t(2) own t(7) ft] t(3,4,5,8) by (auto simp: install_trans_def)
  note lv = bframe_log[OF v(3)]
  have dis: "fst ` set ?Q \<inter> snd ` set ?Q = {}" using nl by auto
  note C = copies_eq[OF dis r(2)]
  let ?v = "v\<lparr>lh_n := 0\<rparr>"
  let ?H = "put_header 0 (lh_block v) (vcontent (view v) L)"
  have dv: "vdirty (view v) = {}" "vown (view v) = Map.empty" "vsize (view v) = sz" using v(4) C(3-5) r by simp_all
  have lc: "length (vcontent (view v) L) = BSIZE" by (rule length_view[OF v(2)]) (use dv Ls in simp)
  obtain w where w: "write_head ?v = Ret () w" "bio_ok w" "view w = stored L ?H (view v)"
    using write_head_view[of ?v] v(2) dv lv t(7,8) Ls by (auto simp: NBUF_def LOGSIZE_def MAXOPBLOCKS_def)
  have cl: "vcontent (view u) n = d (unat n)" for n using clean_view[OF r(1), of n] r by simp
  have W: "copy_writes ?Q (vcontent (view u)) = install_writes L d"
    using t(6) lblk(1)[OF assms(3) i] by (simp add: copy_writes_def install_writes_def cl)
  have "recover_from_log u = Ret () w"
    using t(1) v(1) w(1) by (simp add: recover_from_log_def Let_def)
  moreover have "hdr_n ?H = 0" by (rule put_header_ok(2)[OF lc]) (simp_all add: LOGSIZE_def MAXOPBLOCKS_def)
  moreover have "dtrace w = dtrace u @ install_writes L d @ [(unat L, ?H)]"
    unfolding view_sel(2)[symmetric] using C(1) W r(6) by (simp add: w(3) v(4) view_sel)
  moreover have "disk w = apply_writes d (install_writes L d @ [(unat L, ?H)])"
    unfolding view_sel(1)[symmetric] using C(2) W r(4) by (simp add: w(3) v(4))
  ultimately show ?thesis using w(2) by blast
qed

section \<open>Commit\<close>

definition logged :: "('x) logst_scheme \<Rightarrow> nat \<Rightarrow> uint" where
  "logged s i = lh_block s ! i"

text \<open>
  The invariant of an open transaction: the blocks in the in-memory header are the
  dirty ones, each once, none of them in the log; the header on disk is empty.
\<close>

definition log_shape :: "('x) logst_scheme \<Rightarrow> bool" where
  "log_shape s \<longleftrightarrow>
     bio_ok s \<and> log_dev s = 1 \<and> unat (log_start s) + nat LOGSIZE < unat (disksize s) \<and>
     0 \<le> lh_n s \<and> lh_n s < LOGSIZE \<and> length (lh_block s) = nat LOGSIZE \<and>
     distinct (map (logged s) [0..<nat (lh_n s)]) \<and>
     (\<forall>i<nat (lh_n s). logged s i < disksize s \<and> \<not> in_log (log_start s) (unat (logged s i))) \<and>
     dirty_blocks s = logged s ` {..<nat (lh_n s)}"

definition log_inv :: "('x) logst_scheme \<Rightarrow> bool" where
  "log_inv s \<longleftrightarrow> log_shape s \<and> hdr_n (disk s (unat (log_start s))) = 0"

lemma log_shapeD:
  assumes "log_shape s"
  shows "bio_ok s" "log_dev s = 1" "unat (log_start s) + nat LOGSIZE < unat (disksize s)" "0 \<le> lh_n s" "lh_n s < LOGSIZE"
    "length (lh_block s) = nat LOGSIZE" "distinct (map (logged s) [0..<nat (lh_n s)])"
    "i < nat (lh_n s) \<Longrightarrow> logged s i < disksize s \<and> \<not> in_log (log_start s) (unat (logged s i))"
    "dirty_blocks s = logged s ` {..<nat (lh_n s)}"
  using assms by (simp_all add: log_shape_def)

lemma log_shape_frame:
  assumes "log_shape s" "bframe s t" "bio_ok t" "dirty_blocks t = dirty_blocks s"
  shows "log_shape t"
  using assms bframe_log[OF assms(2)] by (simp add: log_shape_def logged_def[abs_def])

lemma card_logged:
  assumes "log_shape s"
  shows "card (dirty_blocks s) = nat (lh_n s)" "card (insert n (dirty_blocks s)) \<le> NBUF"
proof -
  have "card (set (map (logged s) [0..<nat (lh_n s)])) = nat (lh_n s)"
    using distinct_card[OF log_shapeD(7)[OF assms]] by simp
  moreover have "set (map (logged s) [0..<nat (lh_n s)]) = dirty_blocks s"
    using log_shapeD(9)[OF assms] by (auto simp: atLeast0LessThan)
  ultimately show c: "card (dirty_blocks s) = nat (lh_n s)" by simp
  have "nat (lh_n s) \<le> 29" using log_shapeD(5)[OF assms] by (simp add: LOGSIZE_def MAXOPBLOCKS_def)
  then show "card (insert n (dirty_blocks s)) \<le> NBUF"
    using card_insert_le_m1[of NBUF "dirty_blocks s" n] c by (simp add: NBUF_def)
qed

text \<open>The slot of the log for the \<open>i\<close>-th block, and the copies to and from the log.\<close>

definition slot :: "('x) logst_scheme \<Rightarrow> nat \<Rightarrow> uint" where
  "slot s i = log_start s + of_nat i + 1"

definition log_pairs :: "('x) logst_scheme \<Rightarrow> (uint \<times> uint) list" where
  "log_pairs s = map (\<lambda>i. (logged s i, slot s i)) [0..<nat (lh_n s)]"

definition home_pairs :: "('x) logst_scheme \<Rightarrow> (uint \<times> uint) list" where
  "home_pairs s = map (\<lambda>i. (slot s i, logged s i)) [0..<nat (lh_n s)]"

lemma slot_ok:
  assumes "log_shape s" "i < nat (lh_n s)"
  shows "unat (slot s i) = unat (log_start s) + i + 1" "slot s i < disksize s" "in_log (log_start s) (unat (slot s i))"
    "slot s i \<noteq> log_start s" "j < nat (lh_n s) \<Longrightarrow> logged s j \<noteq> slot s i" "j < nat (lh_n s) \<Longrightarrow> logged s j \<noteq> log_start s"
proof -
  note D = log_shapeD[OF assms(1)]
  have i: "Suc i < nat LOGSIZE" using assms(2) D(4,5) by linarith
  show u: "unat (slot s i) = unat (log_start s) + i + 1" and "slot s i < disksize s"
    using lblk[OF D(3) i] by (simp_all add: slot_def)
  show g: "in_log (log_start s) (unat (slot s i))" unfolding u by (rule in_log_body[OF i])
  show "slot s i \<noteq> log_start s" using u by auto
  show "logged s j \<noteq> slot s i" if "j < nat (lh_n s)" using D(8)[OF that] g by auto
  show "logged s j \<noteq> log_start s" if "j < nat (lh_n s)" using D(8)[OF that] by auto
qed

lemma pairs_ok:
  assumes "log_shape s"
  shows "fst ` set (log_pairs s) \<inter> snd ` set (log_pairs s) = {}" "fst ` set (home_pairs s) \<inter> snd ` set (home_pairs s) = {}"
    "snd ` set (log_pairs s) \<inter> dirty_blocks s = {}" "snd ` set (home_pairs s) = dirty_blocks s" "log_start s \<notin> dirty_blocks s"
    "distinct (map snd (log_pairs s))" "distinct (map snd (home_pairs s))"
    "n \<in> snd ` set (log_pairs s) \<Longrightarrow> in_log (log_start s) (unat n)"
proof -
  note D = log_shapeD[OF assms] and S = slot_ok[OF assms]
  have f: "fst ` set (log_pairs s) = dirty_blocks s" "snd ` set (home_pairs s) = dirty_blocks s"
    "snd ` set (log_pairs s) = slot s ` {..<nat (lh_n s)}" "fst ` set (home_pairs s) = slot s ` {..<nat (lh_n s)}"
    using D(9) by (simp_all add: log_pairs_def home_pairs_def image_image atLeast0LessThan)
  have x: "dirty_blocks s \<inter> slot s ` {..<nat (lh_n s)} = {}" unfolding D(9) using S(5) by auto
  show "fst ` set (log_pairs s) \<inter> snd ` set (log_pairs s) = {}" "fst ` set (home_pairs s) \<inter> snd ` set (home_pairs s) = {}"
    "snd ` set (log_pairs s) \<inter> dirty_blocks s = {}" using x by (auto simp: f)
  show "snd ` set (home_pairs s) = dirty_blocks s" by (rule f(2))
  show "log_start s \<notin> dirty_blocks s" unfolding D(9) using S(6) by (metis imageE lessThan_iff)
  show "distinct (map snd (home_pairs s))" using D(7) by (simp add: home_pairs_def o_def)
  show "distinct (map snd (log_pairs s))"
  proof -
    have "i = j" if "i < nat (lh_n s)" "j < nat (lh_n s)" "slot s i = slot s j" for i j
      using arg_cong[OF that(3), of unat] unfolding S(1)[OF that(1)] S(1)[OF that(2)] by simp
    then show ?thesis by (auto simp: log_pairs_def o_def distinct_map inj_on_def)
  qed
  show "in_log (log_start s) (unat n)" if "n \<in> snd ` set (log_pairs s)" using that S(3) by (auto simp: f)
qed

lemma pairs_fit:
  assumes "log_shape s" "i < nat (lh_n s)"
  shows "fits (view s) (logged s i, slot s i)" "fits (view s) (slot s i, logged s i)"
proof -
  have "logged s i \<in> dirty_blocks s" using log_shapeD(9)[OF assms(1)] assms(2) by auto
  then have "insert (logged s i) (insert (slot s i) (dirty_blocks s)) = insert (slot s i) (dirty_blocks s)" by auto
  then show "fits (view s) (logged s i, slot s i)" "fits (view s) (slot s i, logged s i)"
    using slot_ok(2)[OF assms] slot_ok(5)[OF assms assms(2)] log_shapeD(8)[OF assms] card_logged(2)[OF assms(1), of "slot s i"]
    by (auto simp: fits_def view_sel insert_commute)
qed

lemma write_log_view:
  assumes "log_shape s" "vown (view s) = Map.empty"
  shows "\<exists>t. write_log s = Ret () t \<and> bio_ok t \<and> bframe s t \<and> view t = copies (log_pairs s) (view s)"
  using write_log_loop_view[of s "[0..<nat (lh_n s)]"] assms log_shapeD(1,2)[OF assms(1)] pairs_fit(1)[OF assms(1)]
  by (simp add: write_log_def log_pairs_def logged_def slot_def)

lemma install_trans_view:
  assumes "log_shape s" "vown (view s) = Map.empty"
  shows "\<exists>t. install_trans s = Ret () t \<and> bio_ok t \<and> bframe s t \<and> view t = copies (home_pairs s) (view s)"
  using install_trans_loop_view[of s "[0..<nat (lh_n s)]"] assms log_shapeD(1,2)[OF assms(1)] pairs_fit(2)[OF assms(1)]
  by (simp add: install_trans_def home_pairs_def logged_def slot_def)

definition log_writes :: "('x) logst_scheme \<Rightarrow> (nat \<times> block) list" where
  "log_writes s = map (\<lambda>i. (unat (log_start s) + i + 1, content s (logged s i))) [0..<nat (lh_n s)]"

definition home_writes :: "('x) logst_scheme \<Rightarrow> (nat \<times> block) list" where
  "home_writes s = map (\<lambda>i. (unat (logged s i), content s (logged s i))) [0..<nat (lh_n s)]"

text \<open>The first half of a commit: the blocks and the header are in the log.\<close>

lemma commit_log:
  assumes "log_shape s" "vown (view s) = Map.empty" "0 < lh_n s"
  shows "\<exists>t H. bnd (write_log s) (\<lambda>_. write_head) = Ret () t \<and> log_shape t \<and> bframe s t \<and> vown (view t) = Map.empty \<and>
    length H = BSIZE \<and> hdr_n H = lh_n s \<and> (\<forall>i<nat (lh_n s). hdr_block H i = logged s i) \<and>
    dtrace t = dtrace s @ log_writes s @ [(unat (log_start s), H)] \<and>
    disk t = apply_writes (disk s) (log_writes s @ [(unat (log_start s), H)]) \<and>
    (\<forall>i<nat (lh_n s). content t (slot s i) = content s (logged s i)) \<and>
    (\<forall>n. \<not> in_log (log_start s) (unat n) \<longrightarrow> content t n = content s n)"
proof -
  note D = log_shapeD[OF assms(1)] and P = pairs_ok[OF assms(1)] and S = slot_ok[OF assms(1)]
  let ?L = "log_start s"
  obtain u where u: "write_log s = Ret () u" "bio_ok u" "bframe s u" "view u = copies (log_pairs s) (view s)"
    using write_log_view[OF assms(1,2)] by auto
  note C = copies_eq[OF P(1) assms(2), folded u(4), unfolded view_sel]
  note lu = bframe_log[OF u(3)]
  have du: "dirty_blocks u = dirty_blocks s" using C(3) P(3) by auto
  have Ls: "?L < disksize u" using D(3) lu by (simp add: word_less_nat_alt)
  let ?H = "put_header (lh_n s) (lh_block s) (content u ?L)"
  have lc: "length (content u ?L) = BSIZE" using length_view[OF u(2), of ?L] Ls by (simp add: view_sel)
  obtain t where t: "write_head u = Ret () t" "bio_ok t" "bframe u t" "view t = stored ?L ?H (view u)"
    using write_head_view[OF u(2) C(4)] lu D(2,4,5) Ls du card_logged(2)[OF assms(1)] by (auto simp: view_sel)
  have V: "dtrace t = dtrace u @ [(unat ?L, ?H)]" "disk t = (disk u)(unat ?L := ?H)" "content t = (content u)(?L := ?H)"
    "dirty_blocks t = dirty_blocks u - {?L}"
    using arg_cong[OF t(4), of vtrace] arg_cong[OF t(4), of vdisk] arg_cong[OF t(4), of vcontent] arg_cong[OF t(4), of vdirty]
    by (simp_all add: view_sel)
  have st: "bframe s t" using u(3) t(3) bframe_trans by blast
  have dt: "dirty_blocks t = dirty_blocks s" using V(4) du P(5) by auto
  have "log_shape t" by (rule log_shape_frame[OF assms(1) st t(2) dt])
  moreover have "copy_writes (log_pairs s) (content s) = log_writes s"
    using S(1) by (simp add: copy_writes_def log_pairs_def log_writes_def)
  then have "dtrace t = dtrace s @ log_writes s @ [(unat ?L, ?H)]" "disk t = apply_writes (disk s) (log_writes s @ [(unat ?L, ?H)])"
    using C(1,2) by (simp_all add: V)
  moreover have "content t (slot s i) = content s (logged s i)" if "i < nat (lh_n s)" for i
  proof -
    have "vcontent (copies (log_pairs s) (view s)) (slot s i) = vcontent (view s) (logged s i)"
      using that by (intro copies_content[OF P(1) assms(2) P(6)]) (auto simp: log_pairs_def)
    then show ?thesis using S(4)[OF that] by (simp add: V(3) view_sel flip: u(4))
  qed
  moreover have "content t n = content s n" if "\<not> in_log ?L (unat n)" for n
    using that C(6)[of n] P(8)[of n] by (auto simp: V(3))
  moreover have "length ?H = BSIZE" "hdr_n ?H = lh_n s" "\<And>i. i < nat (lh_n s) \<Longrightarrow> hdr_block ?H i = logged s i"
    using put_header_ok[OF lc D(4)] D(5) by (simp_all add: logged_def)
  moreover have "bnd (write_log s) (\<lambda>_. write_head) = Ret () t" "vown (view t) = Map.empty" using u(1) t(1,4) by simp_all
  ultimately show ?thesis using st by blast
qed

text \<open>The second half: the blocks go to their homes and the header is erased.\<close>

lemma commit_install:
  assumes "log_shape s" "vown (view s) = Map.empty" "\<And>i. i < nat (lh_n s) \<Longrightarrow> content s (slot s i) = content s (logged s i)"
  shows "\<exists>t H. bnd (install_trans s) (\<lambda>_ s. let s = s\<lparr>lh_n := 0\<rparr> in write_head s) = Ret () t \<and> bio_ok t \<and>
    bframe s (t\<lparr>lh_n := lh_n s\<rparr>) \<and> lh_n t = 0 \<and> vown (view t) = Map.empty \<and> dirty_blocks t = {} \<and> hdr_n H = 0 \<and>
    dtrace t = dtrace s @ home_writes s @ [(unat (log_start s), H)] \<and>
    disk t = apply_writes (disk s) (home_writes s @ [(unat (log_start s), H)]) \<and>
    (\<forall>n. \<not> in_log (log_start s) (unat n) \<longrightarrow> content t n = content s n)"
proof -
  note D = log_shapeD[OF assms(1)] and P = pairs_ok[OF assms(1)] and S = slot_ok[OF assms(1)]
  let ?L = "log_start s"
  obtain u where u: "install_trans s = Ret () u" "bio_ok u" "bframe s u" "view u = copies (home_pairs s) (view s)"
    using install_trans_view[OF assms(1,2)] by auto
  note C = copies_eq[OF P(2) assms(2), folded u(4), unfolded view_sel]
  note lu = bframe_log[OF u(3)]
  have du: "dirty_blocks u = {}" using C(3) P(4) by simp
  have Ls: "?L < disksize u" using D(3) lu by (simp add: word_less_nat_alt)
  let ?u = "u\<lparr>lh_n := 0\<rparr>"
  let ?H = "put_header 0 (lh_block s) (content u ?L)"
  have lc: "length (content u ?L) = BSIZE" using length_view[OF u(2), of ?L] Ls by (simp add: view_sel)
  obtain t where t: "write_head ?u = Ret () t" "bio_ok t" "bframe ?u t" "view t = stored ?L ?H (view u)"
    using write_head_view[of ?u] u(2) C(4) du lu D(2) Ls
    by (auto simp: view_sel NBUF_def LOGSIZE_def MAXOPBLOCKS_def)
  have V: "dtrace t = dtrace u @ [(unat ?L, ?H)]" "disk t = (disk u)(unat ?L := ?H)" "content t = (content u)(?L := ?H)"
    "dirty_blocks t = {}"
    using arg_cong[OF t(4), of vtrace] arg_cong[OF t(4), of vdisk] arg_cong[OF t(4), of vcontent] arg_cong[OF t(4), of vdirty] du
    by (simp_all add: view_sel)
  have "copy_writes (home_pairs s) (content s) = home_writes s"
    using assms(3) by (simp add: copy_writes_def home_pairs_def home_writes_def)
  then have "dtrace t = dtrace s @ home_writes s @ [(unat ?L, ?H)]" "disk t = apply_writes (disk s) (home_writes s @ [(unat ?L, ?H)])"
    using C(1,2) by (simp_all add: V)
  moreover have "content t n = content s n" if n: "\<not> in_log ?L (unat n)" for n
  proof (cases "n \<in> dirty_blocks s")
    case True
    then obtain i where i: "i < nat (lh_n s)" "n = logged s i" using D(9) by auto
    have "vcontent (copies (home_pairs s) (view s)) n = vcontent (view s) (slot s i)"
      using i by (intro copies_content[OF P(2) assms(2) P(7)]) (auto simp: home_pairs_def)
    then show ?thesis using assms(3)[OF i(1)] i n by (auto simp: V(3) view_sel simp flip: u(4))
  next
    case False
    then show ?thesis using C(6)[of n] P(4) n by (auto simp: V(3))
  qed
  moreover have "hdr_n ?H = 0" by (rule put_header_ok(2)[OF lc]) (simp_all add: LOGSIZE_def MAXOPBLOCKS_def)
  moreover have "bframe s (t\<lparr>lh_n := lh_n s\<rparr>)" "lh_n t = 0"
  proof -
    obtain a b c d e where 1: "u = s\<lparr>procs := a, sleeps := b, bufs := c, disk := d, dtrace := e\<rparr>"
      using u(3) unfolding bframe_iff by blast
    obtain a' b' c' d' e' where 2: "t = ?u\<lparr>procs := a', sleeps := b', bufs := c', disk := d', dtrace := e'\<rparr>"
      using t(3) unfolding bframe_iff by blast
    show "lh_n t = 0" by (simp add: 2)
    have "t\<lparr>lh_n := lh_n s\<rparr> = s\<lparr>procs := a', sleeps := b', bufs := c', disk := d', dtrace := e'\<rparr>" by (simp add: 1 2)
    then show "bframe s (t\<lparr>lh_n := lh_n s\<rparr>)" unfolding bframe_iff by blast
  qed
  moreover have "bnd (install_trans s) (\<lambda>_ s. let s = s\<lparr>lh_n := 0\<rparr> in write_head s) = Ret () t" "vown (view t) = Map.empty"
    using u(1) t(1,4) by simp_all
  ultimately show ?thesis using t(2) V(4) by blast
qed

lemma commit_view:
  assumes "log_shape s" "vown (view s) = Map.empty" "0 < lh_n s"
  shows "\<exists>t H1 H0. commit s = Ret () t \<and> bio_ok t \<and> bframe s (t\<lparr>lh_n := lh_n s\<rparr>) \<and> lh_n t = 0 \<and> vown (view t) = Map.empty \<and>
    dirty_blocks t = {} \<and> length H1 = BSIZE \<and> hdr_n H1 = lh_n s \<and> (\<forall>i<nat (lh_n s). hdr_block H1 i = logged s i) \<and> hdr_n H0 = 0 \<and>
    dtrace t = dtrace s @ log_writes s @ [(unat (log_start s), H1)] @ home_writes s @ [(unat (log_start s), H0)] \<and>
    disk t = apply_writes (disk s) (log_writes s @ [(unat (log_start s), H1)] @ home_writes s @ [(unat (log_start s), H0)]) \<and>
    (\<forall>n. \<not> in_log (log_start s) (unat n) \<longrightarrow> content t n = content s n)"
proof -
  obtain u H1 where u: "bnd (write_log s) (\<lambda>_. write_head) = Ret () u" "log_shape u" "bframe s u" "vown (view u) = Map.empty"
    "length H1 = BSIZE \<and> hdr_n H1 = lh_n s" "\<forall>i<nat (lh_n s). hdr_block H1 i = logged s i"
    "dtrace u = dtrace s @ log_writes s @ [(unat (log_start s), H1)]"
    "disk u = apply_writes (disk s) (log_writes s @ [(unat (log_start s), H1)])"
    "\<forall>i<nat (lh_n s). content u (slot s i) = content s (logged s i)"
    "\<forall>n. \<not> in_log (log_start s) (unat n) \<longrightarrow> content u n = content s n"
    using commit_log[OF assms] by blast
  note l = bframe_log[OF u(3)]
  have e: "logged u = logged s" "slot u = slot s" using l by (simp_all add: logged_def[abs_def] slot_def[abs_def])
  have c: "content u (logged s i) = content s (logged s i)" if "i < nat (lh_n s)" for i
    using u(10) log_shapeD(8)[OF assms(1) that] by simp
  then have hw: "home_writes u = home_writes s" using l by (simp add: home_writes_def e)
  obtain t H0 where t: "bnd (install_trans u) (\<lambda>_ s. let s = s\<lparr>lh_n := 0\<rparr> in write_head s) = Ret () t" "bio_ok t"
    "bframe u (t\<lparr>lh_n := lh_n u\<rparr>)" "lh_n t = 0" "vown (view t) = Map.empty" "dirty_blocks t = {}" "hdr_n H0 = 0"
    "dtrace t = dtrace u @ home_writes s @ [(unat (log_start s), H0)]"
    "disk t = apply_writes (disk u) (home_writes s @ [(unat (log_start s), H0)])"
    "\<forall>n. \<not> in_log (log_start s) (unat n) \<longrightarrow> content t n = content u n"
    using commit_install[OF u(2,4)] u(9) c l unfolding e hw by auto
  obtain v where v: "write_log s = Ret () v" "write_head v = Ret () u" using u(1) by auto
  have "commit s = Ret () t" using assms(3) v t(1) by (simp add: commit_def)
  moreover have "bframe s (t\<lparr>lh_n := lh_n s\<rparr>)" using bframe_trans[OF u(3) t(3)] l by simp
  moreover have "\<forall>n. \<not> in_log (log_start s) (unat n) \<longrightarrow> content t n = content s n" using t(10) u(10) by simp
  ultimately show ?thesis using t u(5-8) by (intro exI[of _ t] exI[of _ H1] exI[of _ H0]) simp
qed

section \<open>The end of an operation\<close>

lemma bio_calm: "bio_ok s \<Longrightarrow> calm s"
  by (simp add: bio_ok_def)

lemma end_op_commit:
  assumes "bio_ok s" "outstanding s = 1" "\<not> committing s" "commit (s\<lparr>outstanding := 0, committing := True\<rparr>) = Ret () v" "bio_ok v"
  shows "end_op s = Ret () (v\<lparr>procs := map (wk Ch_log) (procs v), committing := False\<rparr>)"
proof -
  note cs = calmD[OF bio_calm[OF assms(1)]] and cv = calmD[OF bio_calm[OF assms(5)]]
  let ?s = "s\<lparr>outstanding := 0, committing := True\<rparr>"
  have r: "release L_log ((acq L_log s)\<lparr>outstanding := 0, committing := True\<rparr>) = Ret () ?s"
    by (subst release_acq[OF cs]) (simp_all add: acq_def)
  have e1: "end_op s = bnd (commit ?s) (\<lambda>_ s. bnd (acquire L_log s) (\<lambda>_ s. let s = s\<lparr>committing := False\<rparr> in
         bnd (wakeup Ch_log s) (\<lambda>_ s. release L_log s)))"
    using assms(2,3) r by (simp add: end_op_def acquire_acq[OF cs] Let_def) (simp add: acq_def)
  let ?a = "(acq L_log v)\<lparr>committing := False\<rparr>"
  have f: "cli_ok ?a" "lk_free L_ptable ?a"
    using cv by (simp_all add: mach_upd_log)
  have w: "wakeup Ch_log ?a = Ret () (?a\<lparr>procs := map (wk Ch_log) (procs v)\<rparr>)"
    by (subst wakeup_eq[OF f]) (simp add: acq_def)
  have "release L_log (?a\<lparr>procs := map (wk Ch_log) (procs v)\<rparr>) = Ret () (v\<lparr>procs := map (wk Ch_log) (procs v), committing := False\<rparr>)"
    by (subst release_acq[OF cv]) (simp_all add: acq_def)
  then show ?thesis using e1 assms(4) w by (simp add: acquire_acq[OF cv] Let_def)
qed

lemma end_op_view:
  assumes "log_shape s" "vown (view s) = Map.empty" "0 < lh_n s" "outstanding s = 1" "\<not> committing s"
  shows "\<exists>t H1 H0. end_op s = Ret () t \<and> length H1 = BSIZE \<and> hdr_n H1 = lh_n s \<and> (\<forall>i<nat (lh_n s). hdr_block H1 i = logged s i) \<and> hdr_n H0 = 0 \<and>
    dtrace t = dtrace s @ log_writes s @ [(unat (log_start s), H1)] @ home_writes s @ [(unat (log_start s), H0)] \<and>
    disk t = apply_writes (disk s) (log_writes s @ [(unat (log_start s), H1)] @ home_writes s @ [(unat (log_start s), H0)]) \<and>
    lh_n t = 0 \<and> outstanding t = 0 \<and> \<not> committing t"
proof -
  let ?s = "s\<lparr>outstanding := 0, committing := True\<rparr>"
  note b = log_shapeD(1)[OF assms(1)]
  have vw: "view ?s = view s" by simp
  have same: "logged ?s = logged s" "content ?s = content s" "dirty_blocks ?s = dirty_blocks s"
    using arg_cong[OF vw, of vcontent] arg_cong[OF vw, of vdirty] by (simp_all only: view_sel) (simp add: logged_def[abs_def])
  have sh: "log_shape ?s" using assms(1) by (simp add: log_shape_def same)
  have w: "log_writes ?s = log_writes s" "home_writes ?s = home_writes s" by (simp_all add: log_writes_def home_writes_def same)
  obtain v H1 H0 where v: "commit ?s = Ret () v" "bio_ok v" "bframe ?s (v\<lparr>lh_n := lh_n s\<rparr>)" "lh_n v = 0"
    "length H1 = BSIZE \<and> hdr_n H1 = lh_n s" "\<forall>i<nat (lh_n s). hdr_block H1 i = logged s i" "hdr_n H0 = 0"
    "dtrace v = dtrace s @ log_writes s @ [(unat (log_start s), H1)] @ home_writes s @ [(unat (log_start s), H0)]"
    "disk v = apply_writes (disk s) (log_writes s @ [(unat (log_start s), H1)] @ home_writes s @ [(unat (log_start s), H0)])"
    using commit_view[OF sh] assms(2,3) unfolding w same by auto
  have "outstanding v = 0" using bframe_log(6)[OF v(3)] by simp
  then show ?thesis
    using end_op_commit[OF b assms(4,5) v(1,2)] v(4-9) by (intro exI[of _ "v\<lparr>procs := map (wk Ch_log) (procs v), committing := False\<rparr>"] exI[of _ H1] exI[of _ H0]) simp
qed

section \<open>Crashes\<close>

text \<open>
  The disk after a machine that had disk \<open>d0\<close> has been restarted any number of
  times, each restart stopping after some of the writes of its recovery.
\<close>

inductive crashed :: "uint \<Rightarrow> uint \<Rightarrow> (nat \<Rightarrow> block) \<Rightarrow> (nat \<Rightarrow> block) \<Rightarrow> bool" for L sz d0 where
  crash_start: "crashed L sz d0 d0"
| crash_again: "\<lbrakk>crashed L sz d0 d; rebooted L sz d (u :: logst); recover_from_log u = Ret () v; dtrace v = dtrace u @ ws\<rbrakk>
    \<Longrightarrow> crashed L sz d0 (apply_writes d (take k ws))"

lemma crashed_stands:
  assumes "crashed L sz d0 d" "stands L sz d0 img" "unat L + nat LOGSIZE < unat sz"
  shows "stands L sz d img"
  using assms(1)
proof induction
  case crash_start
  then show ?case by (rule assms(2))
next
  case (crash_again d u v ws k)
  obtain v' H where v: "recover_from_log u = Ret () v'" "hdr_n H = 0" "dtrace v' = dtrace u @ install_writes L d @ [(unat L, H)]"
    using recover_view[OF crash_again(2) crash_again.IH assms(3)] by auto
  then have "ws = install_writes L d @ [(unat L, H)]" using crash_again(3,4) by simp
  then show ?case using stands_install[OF crash_again.IH v(2)] by simp
qed

lemma recover_stands:
  assumes "rebooted L sz d u" "stands L sz d img" "unat L + nat LOGSIZE < unat sz"
  shows "\<exists>v. recover_from_log u = Ret () v \<and> hdr_n (disk v (unat L)) = 0 \<and> (\<forall>m. \<not> in_log L m \<longrightarrow> disk v m = img m)"
proof -
  obtain v H where v: "recover_from_log u = Ret () v" "hdr_n H = 0" "disk v = apply_writes d (install_writes L d @ [(unat L, H)])"
    using recover_view[OF assms] by auto
  have "stands L sz (disk v) img" using stands_install[OF assms(2) v(2), of "Suc (length (install_writes L d))"] v(3) by simp
  moreover have "hdr_n (disk v (unat L)) = 0" using v(2,3) by simp
  ultimately show ?thesis using v(1) stands_clean by blast
qed

text \<open>The disk in the middle of a commit.\<close>

lemma commit_stands:
  assumes "log_inv s" "hdr_n H1 = lh_n s" "\<forall>i<nat (lh_n s). hdr_block H1 i = logged s i" "hdr_n H0 = 0"
  defines "ws \<equiv> log_writes s @ [(unat (log_start s), H1)] @ home_writes s @ [(unat (log_start s), H0)]"
  defines "img \<equiv> \<lambda>k m. if k \<le> nat (lh_n s) \<or> m \<notin> unat ` dirty_blocks s then disk s m else content s (of_nat m)"
  shows "stands (log_start s) (disksize s) (apply_writes (disk s) (take k ws)) (img k)"
proof -
  have sh: "log_shape s" and h0: "hdr_n (disk s (unat (log_start s))) = 0" using assms(1) by (simp_all add: log_inv_def)
  note D = log_shapeD[OF sh]
  define L where "L = log_start s"
  define n where "n = nat (lh_n s)"
  have lw: "fst ` set (log_writes s) \<subseteq> {m. in_log L m \<and> m \<noteq> unat L}" "length (log_writes s) = n"
    using slot_ok(1,3)[OF sh] by (auto simp: log_writes_def L_def n_def)
  show ?thesis
  proof (cases "k \<le> n")
    case True
    let ?d = "apply_writes (disk s) (take k (log_writes s))"
    have o: "?d m = disk s m" if "\<not> in_log L m \<or> m = unat L" for m
      using that lw(1) by (intro apply_writes_notin) (auto dest!: in_set_takeD)
    have "stands L (disksize s) ?d (disk s)"
      unfolding stands_def Let_def using o h0 D(4,5) by (simp add: L_def LOGSIZE_def MAXOPBLOCKS_def)
    moreover have "img k = disk s" using True by (simp add: img_def n_def)
    ultimately show ?thesis using True lw(2) by (simp add: ws_def L_def)
  next
    case False
    let ?d = "(apply_writes (disk s) (log_writes s))(unat L := H1)"
    have im: "img k = (\<lambda>m. if m \<in> unat ` dirty_blocks s then content s (of_nat m) else disk s m)"
      using False by (auto simp: img_def n_def)
    have o: "?d m = disk s m" if "\<not> in_log L m" for m
      using that lw(1) apply_writes_notin[of m "log_writes s" "disk s"] by auto
    have dl: "distinct (map fst (log_writes s))" by (simp add: log_writes_def o_def distinct_map inj_on_def)
    have g: "?d (unat L + i + 1) = content s (logged s i)" if "i < n" for i
      using apply_writes_in[OF dl, of "unat L + i + 1" "content s (logged s i)" "disk s"] that
      by (auto simp: log_writes_def L_def n_def)
    have hb: "hdr_n (?d (unat L)) = lh_n s" "\<And>i. i < n \<Longrightarrow> hdr_block (?d (unat L)) i = logged s i"
      using assms(2,3) by (simp_all add: n_def)
    have dm: "distinct (map (hdr_block (?d (unat L))) [0..<n])" using D(7) hb(2) by (simp add: n_def distinct_map inj_on_def)
    have db: "hdr_block (?d (unat L)) ` {..<n} = dirty_blocks s" using D(9) hb(2) by (simp add: n_def)
    have st: "stands L (disksize s) ?d (img k)"
      unfolding stands_def Let_def hb(1) n_def[symmetric] db
    proof (intro conjI allI impI)
      show "0 \<le> lh_n s" "lh_n s < LOGSIZE" using D(4,5) by simp_all
      show "distinct (map (hdr_block (?d (unat L))) [0..<n])" by (rule dm)
      fix i assume i: "i < n"
      show "hdr_block (?d (unat L)) i < disksize s" "\<not> in_log L (unat (hdr_block (?d (unat L)) i))"
        using D(8)[of i] i hb(2)[OF i] by (simp_all add: n_def L_def)
      show "?d (unat L + i + 1) = img k (unat (hdr_block (?d (unat L)) i))"
        unfolding g[OF i] hb(2)[OF i] im using D(9) i by (auto simp: n_def)
    next
      fix m assume "\<not> in_log L m" "m \<notin> unat ` dirty_blocks s"
      then show "?d m = img k m" using o by (simp add: im)
    qed
    have "install_writes L ?d = home_writes s"
      unfolding install_writes_def hb(1) home_writes_def n_def[symmetric] using g hb(2) by simp
    then have "stands L (disksize s) (apply_writes ?d (take (k - Suc n) (home_writes s @ [(unat L, H0)]))) (img k)"
      using stands_install[OF st assms(4), of "k - Suc n"] by (simp only:)
    moreover have "apply_writes (disk s) (take k ws) = apply_writes ?d (take (k - Suc n) (home_writes s @ [(unat L, H0)]))"
      using False lw(2) by (cases "k - n") (simp_all add: ws_def L_def[symmetric] diff_Suc)
    ultimately show ?thesis by (simp add: L_def)
  qed
qed

section \<open>Building a transaction\<close>

text \<open>What \<open>log_write\<close> does to the header when the caller holds block \<open>n\<close>.\<close>

lemma log_slot_hit:
  assumes "distinct (map (logged s) [0..<nat (lh_n s)])" "i < nat (lh_n s)" "logged s i = n"
  shows "log_slot n s = i"
proof -
  have "List.find (\<lambda>i. lh_block s ! i = n) [0..<nat (lh_n s)] \<noteq> None"
    using assms by (auto simp: find_None_iff logged_def)
  then obtain j where j: "List.find (\<lambda>i. lh_block s ! i = n) [0..<nat (lh_n s)] = Some j" by auto
  have "j < nat (lh_n s)" "logged s j = n" using find_SomeD[OF j] by (simp_all add: logged_def)
  then have "j = i" using assms by (auto simp: distinct_map inj_on_def)
  then show ?thesis using j by (simp add: log_slot_def)
qed

lemma log_slot_miss:
  assumes "n \<notin> logged s ` {..<nat (lh_n s)}"
  shows "log_slot n s = nat (lh_n s)"
proof -
  have "List.find (\<lambda>i. lh_block s ! i = n) [0..<nat (lh_n s)] = None"
    using assms by (auto simp: find_None_iff logged_def)
  then show ?thesis by (simp add: log_slot_def)
qed

lemma log_write_eq:
  assumes "bio_ok s" "vown (view s) b = Some n" "lh_n s < LOGSIZE" "lh_n s < sint (log_size s) - 1" "1 \<le> outstanding s"
  shows "log_write b s = Ret () (upd_buf b (\<lambda>k. k\<lparr>bdirty := True\<rparr>)
    (s\<lparr>lh_block := (lh_block s)[log_slot n s := n], lh_n := (if int (log_slot n s) = lh_n s then lh_n s + 1 else lh_n s)\<rparr>))"
proof -
  note c = calmD[OF bio_calm[OF assms(1)]]
  have n: "blockno (bufs s ! b) = n" using ownsD(7)[OF own_cases(3,4)[OF assms(1,2)]] .
  define a where "a = acq L_log s"
  have a: "bufs a = bufs s" "lh_n a = lh_n s" "lh_block a = lh_block s" by (simp_all add: a_def acq_def)
  then have sl: "log_slot n a = log_slot n s" by (simp add: log_slot_def cong: option.case_cong)
  define c2 where "c2 = (if int (log_slot n s) = lh_n s then lh_n s + 1 else lh_n s)"
  let ?f = "\<lambda>s. upd_buf b (\<lambda>k. k\<lparr>bdirty := True\<rparr>) (s\<lparr>lh_block := (lh_block s)[log_slot n s := n], lh_n := c2\<rparr>)"
  have idn: "a\<lparr>lh_block := x, lh_n := lh_n s, bufs := y\<rparr> = a\<lparr>lh_block := x, bufs := y\<rparr>" for x y by (simp flip: a(2))
  have "log_write b s = release L_log (?f a)"
    using assms(3-5) by (simp add: log_write_def acquire_acq[OF c] n a_def[symmetric] a sl Let_def c2_def upd_buf_def idn)
  also have "\<dots> = Ret () (?f s)"
    using a sl by (subst release_acq[OF c]) (simp_all add: a_def upd_buf_def, simp_all add: acq_def)
  finally show ?thesis by (simp only: c2_def)
qed

lemma log_write_shape:
  assumes "log_inv s" "vown (view s) b = Some n" "\<not> in_log (log_start s) (unat n)" "lh_n s < sint (log_size s) - 1"
    "sint (log_size s) \<le> LOGSIZE" "1 \<le> outstanding s"
  shows "\<exists>t. log_write b s = Ret () t \<and> log_inv t \<and> view t = (view s)\<lparr>vdirty := insert n (vdirty (view s))\<rparr> \<and>
    lh_n t = (if n \<in> dirty_blocks s then lh_n s else lh_n s + 1) \<and> log_start t = log_start s \<and> log_size t = log_size s \<and>
    outstanding t = outstanding s \<and> committing t = committing s \<and> lframe s t"
proof -
  have sh: "log_shape s" and h0: "hdr_n (disk s (unat (log_start s))) = 0" using assms(1) by (simp_all add: log_inv_def)
  note D = log_shapeD[OF sh]
  have nd: "n < disksize s" by (rule ownsD(8)[OF own_cases(3,4)[OF D(1) assms(2)]])
  define u where "u = s\<lparr>lh_block := (lh_block s)[log_slot n s := n], lh_n := (if int (log_slot n s) = lh_n s then lh_n s + 1 else lh_n s)\<rparr>"
  have u: "bio_ok u" "view u = view s" using D(1) by (simp_all add: u_def)
  define t where "t = upd_buf b (\<lambda>k. k\<lparr>bdirty := True\<rparr>) u"
  have t: "bio_ok t" "bframe u t" "view t = (view s)\<lparr>vdirty := insert n (vdirty (view s))\<rparr>"
    using pin_view[OF u(1), of b n] u(2) assms(2) by (simp_all add: t_def)
  have lw: "log_write b s = Ret () t"
    using log_write_eq[OF D(1) assms(2) D(5) assms(4,6)] by (simp add: t_def u_def)
  note lt = bframe_log[OF t(2)]
  have dt: "dirty_blocks t = insert n (dirty_blocks s)" "disk t = disk s"
    using arg_cong[OF t(3), of vdirty] arg_cong[OF t(3), of vdisk] by (simp_all add: view_sel)
  have small: "lh_n s + 1 < LOGSIZE" using assms(4,5) by linarith
  let ?N = "nat (lh_n s)"
  have "log_shape t \<and> lh_n t = (if n \<in> dirty_blocks s then lh_n s else lh_n s + 1)"
  proof (cases "n \<in> dirty_blocks s")
    case True
    then obtain i where i: "i < ?N" "logged s i = n" using D(9) by auto
    have sl: "log_slot n s = i" by (rule log_slot_hit[OF D(7) i])
    have "(lh_block s)[i := n] = lh_block s" using i(2) list_update_id[of "lh_block s" i] by (simp add: logged_def)
    then have e: "lh_block t = lh_block s" "lh_n t = lh_n s"
      using lt(4,5) i(1) sl by (auto simp: u_def)
    then have "logged t = logged s" by (simp add: logged_def[abs_def])
    then show ?thesis
      using sh t(1) lt e True dt(1) by (auto simp: log_shape_def u_def insert_absorb)
  next
    case False
    then have ns: "log_slot n s = ?N" using D(9) by (intro log_slot_miss) auto
    have e: "lh_n t = lh_n s + 1" "lh_block t = (lh_block s)[?N := n]" using lt D(4) by (simp_all add: u_def ns)
    have N: "nat (lh_n t) = Suc ?N" "?N < length (lh_block s)" using D(4,6) small by (simp_all add: e nat_add_distrib)
    have lg: "logged t i = logged s i" if "i < ?N" for i using that by (simp add: logged_def e)
    have lgN: "logged t ?N = n" using N(2) by (simp add: logged_def e)
    have im: "logged t ` {..<?N} = dirty_blocks s" using lg D(9) by simp
    have "distinct (map (logged t) [0..<Suc ?N])"
      using D(7) lg lgN False im by (simp add: distinct_map inj_on_def atLeast0LessThan)
    moreover have "logged t i < disksize s \<and> \<not> in_log (log_start s) (unat (logged t i))" if "i < Suc ?N" for i
      using that D(8)[of i] lg lgN nd assms(3) by (cases "i = ?N") auto
    moreover have "dirty_blocks t = logged t ` {..<Suc ?N}" using dt(1) im lgN by (simp add: lessThan_Suc)
    ultimately have "log_shape t"
      unfolding log_shape_def N(1) using t(1) lt(1-3,8) D(2-4,6) small e by (simp add: u_def)
    then show ?thesis using False e(1) by simp
  qed
  moreover have "lframe s t" using t(2) unfolding u_def by (rule lframeI)
  ultimately show ?thesis using lw t(3) lt h0 dt(2) by (auto simp: log_inv_def u_def)
qed

section \<open>Properties\<close>

text \<open>
  C1.  Crash atomicity.  Ending the last operation of a transaction returns and makes
  a sequence of disk writes.  If the machine stops after any number \<open>k\<close> of
  them, and any number of recoveries are themselves interrupted at arbitrary points,
  then the next recovery returns with an empty log and, outside the log, with a disk
  that has none of the transaction when the header had not been written and all of
  it from then on.
\<close>

theorem end_op_atomic:
  assumes "log_inv s" "vown (view s) = Map.empty" "0 < lh_n s" "outstanding s = 1" "\<not> committing s"
  shows "\<exists>t ws. end_op s = Ret () t \<and> dtrace t = dtrace s @ ws \<and> length ws = 2 * nat (lh_n s) + 2 \<and>
    (\<forall>k d u. crashed (log_start s) (disksize s) (apply_writes (disk s) (take k ws)) d \<longrightarrow> rebooted (log_start s) (disksize s) d u \<longrightarrow>
      (\<exists>v. recover_from_log u = Ret () v \<and> hdr_n (disk v (unat (log_start s))) = 0 \<and>
        (\<forall>n. \<not> in_log (log_start s) (unat n) \<longrightarrow>
          disk v (unat n) = (if k \<le> nat (lh_n s) then disk s (unat n) else content s n))))"
proof -
  let ?L = "log_start s"
  have sh: "log_shape s" using assms(1) by (simp add: log_inv_def)
  note D = log_shapeD[OF sh]
  obtain t H1 H0 where t: "end_op s = Ret () t" "hdr_n H1 = lh_n s" "\<forall>i<nat (lh_n s). hdr_block H1 i = logged s i" "hdr_n H0 = 0"
    "dtrace t = dtrace s @ log_writes s @ [(unat ?L, H1)] @ home_writes s @ [(unat ?L, H0)]"
    using end_op_view[OF sh assms(2-5)] by blast
  define ws where "ws = log_writes s @ [(unat ?L, H1)] @ home_writes s @ [(unat ?L, H0)]"
  have len: "length ws = 2 * nat (lh_n s) + 2" by (simp add: ws_def log_writes_def home_writes_def)
  have "\<exists>v. recover_from_log u = Ret () v \<and> hdr_n (disk v (unat ?L)) = 0 \<and>
      (\<forall>n. \<not> in_log ?L (unat n) \<longrightarrow> disk v (unat n) = (if k \<le> nat (lh_n s) then disk s (unat n) else content s n))"
    if c: "crashed ?L (disksize s) (apply_writes (disk s) (take k ws)) d" "rebooted ?L (disksize s) d u" for k d and u :: "'b logst_scheme"
  proof -
    note st = crashed_stands[OF c(1) commit_stands[OF assms(1) t(2-4), of k, folded ws_def] D(3)]
    obtain v where v: "recover_from_log u = Ret () v" "hdr_n (disk v (unat ?L)) = 0"
      "\<forall>m. \<not> in_log ?L m \<longrightarrow> disk v m = (if k \<le> nat (lh_n s) \<or> m \<notin> unat ` dirty_blocks s then disk s m else content s (of_nat m))"
      using recover_stands[OF c(2) st D(3)] by blast
    have "content s n = disk s (unat n)" if "n \<notin> dirty_blocks s" for n
      using clean_view[OF D(1), of n] that assms(2) by (simp add: view_sel)
    moreover have "unat n \<in> unat ` dirty_blocks s \<longleftrightarrow> n \<in> dirty_blocks s" for n
      by (auto simp flip: word_unat_eq_iff)
    ultimately show ?thesis using v by (intro exI[of _ v]) auto
  qed
  then show ?thesis using t(1,5) len by (intro exI[of _ t] exI[of _ ws]) (auto simp: ws_def)
qed

text \<open>A booted machine with a log of 30 blocks after block 2 and one operation begun.\<close>

definition boot_log :: "(nat \<Rightarrow> block) \<Rightarrow> logst" where
  "boot_log d = binit (idle_state d 1000 (logst.fields 2 30 1 False 1 0 (replicate 30 0)))"

lemma boot_log_ok:
  assumes "\<And>i. i < 1000 \<Longrightarrow> length (d i) = BSIZE"
  shows "bio_ok (boot_log d)" "disk (boot_log d) = d" "disksize (boot_log d) = 1000" "dtrace (boot_log d) = []"
    "dirty_blocks (boot_log d) = {}" "vown (view (boot_log d)) = Map.empty"
    "log_start (boot_log d) = 2" "log_size (boot_log d) = 30" "log_dev (boot_log d) = 1" "lh_n (boot_log d) = 0"
    "outstanding (boot_log d) = 1" "\<not> committing (boot_log d)" "lh_block (boot_log d) = replicate 30 0"
proof -
  note b = boot_ok[of 1000 d "logst.fields 2 30 1 False 1 0 (replicate 30 0)", folded boot_log_def]
  have l: "i < unat (1000 :: uint) \<Longrightarrow> length (d i) = BSIZE" for i using assms by simp
  show "bio_ok (boot_log d)" using b(1)[OF l] .
  have v: "view (boot_log d) = \<lparr>vcontent = (\<lambda>n. d (unat n)), vdirty = {}, vown = Map.empty, vdisk = d, vtrace = [], vsize = 1000\<rparr>"
    using b(3)[OF l] .
  show "disk (boot_log d) = d" "disksize (boot_log d) = 1000" "dtrace (boot_log d) = []" "dirty_blocks (boot_log d) = {}"
    "vown (view (boot_log d)) = Map.empty"
    unfolding view_sel[symmetric] v by simp_all
  obtain K S B where e: "boot_log d = idle_state d 1000 (logst.fields 2 30 1 False 1 0 (replicate 30 0))\<lparr>locks := K, sleeps := S, bufs := B\<rparr>"
    using binit_frame[of "idle_state d 1000 (logst.fields 2 30 1 False 1 0 (replicate 30 0))"] by (auto simp: boot_log_def)
  show "log_start (boot_log d) = 2" "log_size (boot_log d) = 30" "log_dev (boot_log d) = 1" "lh_n (boot_log d) = 0"
    "outstanding (boot_log d) = 1" "\<not> committing (boot_log d)" "lh_block (boot_log d) = replicate 30 0"
    by (simp_all add: e idle_state_def logst.defs)
qed

lemma tx_example:
  "\<exists>s :: logst. log_inv s \<and> vown (view s) = Map.empty \<and> lh_n s = 1 \<and> outstanding s = 1 \<and> \<not> committing s \<and> log_start s = 2 \<and>
     disksize s = 1000 \<and> disk s = (\<lambda>_. replicate BSIZE 0) \<and> content s 40 = replicate BSIZE 1 \<and> log_size s = 30 \<and> 40 \<in> dirty_blocks s"
proof -
  let ?s = "boot_log (\<lambda>_. replicate BSIZE 0)"
  note b = boot_log_ok[of "\<lambda>_. replicate BSIZE 0", simplified]
  have un: "un32 (seg 0 4 (replicate BSIZE 0)) = 0"
    by (simp add: un32_def seg_def BSIZE_def numeral_eq_Suc)
  have inv: "log_inv ?s"
    by (simp add: log_inv_def log_shape_def b LOGSIZE_def MAXOPBLOCKS_def hdr_n_def un)
  obtain c t where t: "bread 1 40 ?s = Ret c t" "bio_ok t" "bframe ?s t" "view t = (view ?s)\<lparr>vown := [c \<mapsto> 40]\<rparr>"
    using bread_view[OF b(1), of 40] b by (auto simp: NBUF_def view_sel)
  have ot: "vown (view t) c = Some 40" using t(4) by simp
  let ?u = "upd_buf c (\<lambda>k. k\<lparr>bdata := replicate BSIZE 1\<rparr>) t"
  note u = set_view[OF t(2) ot, of "replicate BSIZE 1", simplified]
  have fu: "bframe ?s ?u" by (rule bframe_trans[OF t(3) u(2)])
  note lu = bframe_log[OF fu]
  have vu: "dirty_blocks ?u = {}" "disk ?u = (\<lambda>_. replicate BSIZE 0)" "content ?u 40 = replicate BSIZE 1" "vown (view ?u) = [c \<mapsto> 40]"
    unfolding view_sel[symmetric] u(3) using t(4) b by (simp_all add: view_sel)
  have invu: "log_inv ?u" using log_shape_frame[OF _ fu u(1)] inv vu lu b by (simp add: log_inv_def)
  have pre: "\<not> in_log (log_start ?u) (unat (40 :: uint))" "lh_n ?u < sint (log_size ?u) - 1" "sint (log_size ?u) \<le> LOGSIZE" "1 \<le> outstanding ?u"
    "vown (view ?u) c = Some 40"
    using lu b vu(4) by (simp_all add: in_log_def LOGSIZE_def MAXOPBLOCKS_def)
  obtain v :: logst where v': "log_inv v" "view v = (view ?u)\<lparr>vdirty := insert 40 (vdirty (view ?u))\<rparr>"
    "lh_n v = (if 40 \<in> dirty_blocks ?u then lh_n ?u else lh_n ?u + 1)" "log_start v = log_start ?u"
    "outstanding v = outstanding ?u" "committing v = committing ?u" "log_size v = log_size ?u"
    using log_write_shape[OF invu pre(5,1-4)] by blast
  have v: "log_inv v" "view v = (view ?u)\<lparr>vdirty := insert 40 (vdirty (view ?u))\<rparr>" "lh_n v = 1" "log_start v = 2"
    "outstanding v = 1" "\<not> committing v" "log_size v = 30"
    using v' lu b vu(1) by simp_all
  have bv: "bio_ok v" using v(1) by (simp add: log_inv_def log_shape_def)
  have ov: "vown (view v) c = Some 40" "40 \<in> vdirty (view v)" using v(2) vu by simp_all
  obtain w where w: "bio_ok w" "bframe v w" "view w = (view v)\<lparr>vown := (vown (view v))(c := None)\<rparr>"
    using brelse_view[OF bv ov(1)] ov(2) by auto
  note lw = bframe_log[OF w(2)]
  have vw: "dirty_blocks w = dirty_blocks v" "disk w = disk v" "content w 40 = content ?u 40" "disksize w = disksize ?u" "disk v = disk ?u"
    unfolding view_sel[symmetric] w(3) v(2) by simp_all
  have "log_inv w" using log_shape_frame[OF _ w(2,1) vw(1)] v(1) lw vw by (simp add: log_inv_def)
  moreover have "vown (view w) = Map.empty" "40 \<in> dirty_blocks w" unfolding view_sel[symmetric] w(3) v(2) using vu(4) by simp_all
  ultimately show ?thesis using lw v vw vu lu b by (intro exI[of _ w]) simp
qed

theorem end_op_atomic_witness:
  "\<exists>(s :: logst) (u :: logst) v. content s 40 \<noteq> disk s 40 \<and> recover_from_log u = Ret () v \<and> disk v 40 = content s 40"
proof -
  obtain s :: logst where s: "log_inv s" "vown (view s) = Map.empty" "lh_n s = 1" "outstanding s = 1" "\<not> committing s"
    "log_start s = 2" "disksize s = 1000" "disk s = (\<lambda>_. replicate BSIZE 0)" "content s 40 = replicate BSIZE 1"
    using tx_example by blast
  obtain t ws where ws: "\<forall>k d (u :: logst). crashed (log_start s) (disksize s) (apply_writes (disk s) (take k ws)) d \<longrightarrow>
      rebooted (log_start s) (disksize s) d u \<longrightarrow>
      (\<exists>v. recover_from_log u = Ret () v \<and> hdr_n (disk v (unat (log_start s))) = 0 \<and>
        (\<forall>n. \<not> in_log (log_start s) (unat n) \<longrightarrow>
          disk v (unat n) = (if k \<le> nat (lh_n s) then disk s (unat n) else content s n)))" "end_op s = Ret () t" "dtrace t = dtrace s @ ws"
    using end_op_atomic[OF s(1,2) _ s(4,5)] s(3) by auto
  have sh: "log_shape s" using s(1) by (simp add: log_inv_def)
  obtain H1 H0 where w: "ws = log_writes s @ [(2, H1)] @ home_writes s @ [(2, H0)]" "length H1 = BSIZE"
    using end_op_view[OF sh s(2) _ s(4,5)] s(3,6) ws(2,3) by auto
  define d where "d = apply_writes (disk s) (take 2 ws)"
  have "length (content s (logged s 0)) = BSIZE"
    using length_view[OF log_shapeD(1)[OF sh], of "logged s 0"] log_shapeD(8)[OF sh, of 0] s(3) by (simp add: view_sel)
  then have l: "length (d i) = BSIZE" if "i < 1000" for i
    using s(3,6,8) w by (simp add: d_def log_writes_def numeral_2_eq_2)
  note b = boot_log_ok[OF l]
  have "rebooted (log_start s) (disksize s) d (boot_log d)"
    using b s(6,7) by (simp add: rebooted_def view_sel)
  then obtain v where v: "recover_from_log (boot_log d) = Ret () v"
    "\<forall>n. \<not> in_log (log_start s) (unat n) \<longrightarrow> disk v (unat n) = (if 2 \<le> nat (lh_n s) then disk s (unat n) else content s n)"
    using ws(1) crash_start unfolding d_def by blast
  have "disk v (unat (40 :: uint)) = content s 40"
    using v(2)[rule_format, of 40] s(3,6) by (simp add: in_log_def LOGSIZE_def MAXOPBLOCKS_def)
  moreover have "content s 40 \<noteq> disk s 40" using s(8,9) by (simp add: BSIZE_def numeral_eq_Suc)
  ultimately show ?thesis using v(1) by auto
qed

text \<open>
  C17.  Building a transaction.  \<open>log_write\<close> on a held block keeps the invariant
  of the open transaction: the block is pinned in the cache and named in the header
  exactly once, however often it is written; the count grows only for a new block.
\<close>

theorem log_write_absorbs:
  assumes "log_inv s" "vown (view s) b = Some n" "\<not> in_log (log_start s) (unat n)" "lh_n s < sint (log_size s) - 1"
    "sint (log_size s) \<le> LOGSIZE" "1 \<le> outstanding s"
  shows "\<exists>t. log_write b s = Ret () t \<and> log_inv t \<and> view t = (view s)\<lparr>vdirty := insert n (vdirty (view s))\<rparr> \<and>
    lh_n t = (if n \<in> dirty_blocks s then lh_n s else lh_n s + 1)"
  using log_write_shape[OF assms] by blast

theorem log_write_absorbs_witness:
  "\<exists>(s :: logst) b t. log_write b s = Ret () t \<and> log_inv t \<and> lh_n t = 1 \<and> 40 \<in> dirty_blocks t"
proof -
  obtain s :: logst where s: "log_inv s" "vown (view s) = Map.empty" "lh_n s = 1" "outstanding s = 1"
    "log_start s = 2" "disksize s = 1000" "log_size s = 30" "40 \<in> dirty_blocks s"
    using tx_example by blast
  have sh: "log_shape s" using s(1) by (simp add: log_inv_def)
  note D = log_shapeD[OF sh]
  obtain c t where t: "bread 1 40 s = Ret c t" "bio_ok t" "bframe s t" "view t = (view s)\<lparr>vown := [c \<mapsto> 40]\<rparr>"
    using bread_view[OF D(1), of 40] s card_logged(2)[OF sh, of 40] by (auto simp: view_sel)
  note lt = bframe_log[OF t(3)]
  have vt: "dirty_blocks t = dirty_blocks s" "disk t = disk s" "vown (view t) c = Some 40"
    unfolding view_sel[symmetric] t(4) by simp_all
  have inv: "log_inv t" using log_shape_frame[OF sh t(3,2) vt(1)] s(1) lt vt by (simp add: log_inv_def)
  have pre: "\<not> in_log (log_start t) (unat (40 :: uint))" "lh_n t < sint (log_size t) - 1" "sint (log_size t) \<le> LOGSIZE" "1 \<le> outstanding t"
    using lt s by (simp_all add: in_log_def LOGSIZE_def MAXOPBLOCKS_def)
  obtain u where u: "log_write c t = Ret () u" "log_inv u" "view u = (view t)\<lparr>vdirty := insert 40 (vdirty (view t))\<rparr>"
    "lh_n u = (if 40 \<in> dirty_blocks t then lh_n t else lh_n t + 1)"
    using log_write_absorbs[OF inv vt(3) pre] by blast
  have "40 \<in> dirty_blocks u" unfolding view_sel[symmetric] u(3) by simp
  then show ?thesis using u lt s vt by auto
qed

end
