(* ===== verification/Inode.thy ===== *)
theory Inode
  imports Log
begin

text \<open>
  The block allocator and the inode layer of \<open>kernel/fs.c\<close>.

  An inode is named by its index in \<open>icache.inode\<close>.  On disk an inode is the
  64 bytes of \<open>struct dinode\<close>: four 16-bit fields, the size, and 13 block
  addresses, little-endian.
\<close>

section \<open>State\<close>

record inode =
  idev :: uint
  inum :: uint
  iref :: int
  ivalid :: bool
  itype :: ushort
  imajor :: ushort
  iminor :: ushort
  inlink :: ushort
  isize :: uint
  iaddrs :: "uint list"

record icst = logst +
  sb :: superblock
  inodes :: "inode list"

definition NINODE :: nat where "NINODE = 50"
definition NDIRECT :: nat where "NDIRECT = 12"
definition NINDIRECT :: nat where "NINDIRECT = 128"
definition MAXFILE :: nat where "MAXFILE = NDIRECT + NINDIRECT"
definition IPB :: uint where "IPB = 8"
definition BPB :: nat where "BPB = BSIZE * 8"

definition T_DIR :: ushort where "T_DIR = 1"
definition T_FILE :: ushort where "T_FILE = 2"
definition T_DEV :: ushort where "T_DEV = 3"

definition IBLOCK :: "uint \<Rightarrow> superblock \<Rightarrow> uint" where
  "IBLOCK i b = i div IPB + sb_inodestart b"

definition BBLOCK :: "uint \<Rightarrow> superblock \<Rightarrow> uint" where
  "BBLOCK b k = b div of_nat BPB + sb_bmapstart k"

definition upd_inode :: "nat \<Rightarrow> (inode \<Rightarrow> inode) \<Rightarrow> ('x) icst_scheme \<Rightarrow> ('x) icst_scheme" where
  "upd_inode i f s = s\<lparr>inodes := (inodes s)[i := f (inodes s ! i)]\<rparr>"

section \<open>Blocks\<close>

definition bzero :: "uint \<Rightarrow> uint \<Rightarrow> ('x) logst_scheme \<Rightarrow> (('x) logst_scheme, unit) outcome" where
  "bzero dev bno s =
     bnd (bread dev bno s) (\<lambda>bp s.
     let s = upd_buf bp (\<lambda>k. k\<lparr>bdata := replicate BSIZE 0\<rparr>) s in
     bnd (log_write bp s) (\<lambda>_ s.
     brelse bp s))"

definition bit_mask :: "nat \<Rightarrow> byte" where
  "bit_mask bi = push_bit (bi mod 8) 1"

text \<open>
  \<open>balloc\<close>: the outer loop over the first block of every bitmap block, the
  inner loop as the search for the first clear bit.
\<close>

fun balloc_loop :: "nat list \<Rightarrow> uint \<Rightarrow> ('x) icst_scheme \<Rightarrow> (('x) icst_scheme, uint) outcome" where
  "balloc_loop [] dev s = Panic ''balloc: out of blocks''"
| "balloc_loop (b # bs) dev s =
     bnd (bread dev (BBLOCK (of_nat b) (sb s)) s) (\<lambda>bp s.
     case List.find (\<lambda>bi. bdata (bufs s ! bp) ! (bi div 8) AND bit_mask bi = 0)
            [0..<min BPB (unat (sb_size (sb s)) - b)] of
       Some bi \<Rightarrow>
         let s = upd_buf bp (\<lambda>k. k\<lparr>bdata := (bdata k)[bi div 8 := bdata k ! (bi div 8) OR bit_mask bi]\<rparr>) s in
         bnd (log_write bp s) (\<lambda>_ s.
         bnd (brelse bp s) (\<lambda>_ s.
         bnd (bzero dev (of_nat (b + bi)) s) (\<lambda>_ s.
         Ret (of_nat (b + bi)) s)))
     | None \<Rightarrow> bnd (brelse bp s) (\<lambda>_ s. balloc_loop bs dev s))"

definition balloc :: "uint \<Rightarrow> ('x) icst_scheme \<Rightarrow> (('x) icst_scheme, uint) outcome" where
  "balloc dev s =
     balloc_loop (map (\<lambda>i. i * BPB) [0..<(unat (sb_size (sb s)) + BPB - 1) div BPB]) dev s"

definition bfree :: "uint \<Rightarrow> uint \<Rightarrow> ('x) icst_scheme \<Rightarrow> (('x) icst_scheme, unit) outcome" where
  "bfree dev b s =
     bnd (readsb dev s) (\<lambda>k s.
     let s = s\<lparr>sb := k\<rparr> in
     bnd (bread dev (BBLOCK b (sb s)) s) (\<lambda>bp s.
     let bi = unat b mod BPB in
     if bdata (bufs s ! bp) ! (bi div 8) AND bit_mask bi = 0 then Panic ''freeing free block''
     else
       let s = upd_buf bp (\<lambda>k. k\<lparr>bdata := (bdata k)[bi div 8 := bdata k ! (bi div 8) AND NOT (bit_mask bi)]\<rparr>) s in
       bnd (log_write bp s) (\<lambda>_ s.
       brelse bp s)))"

section \<open>Inodes\<close>

fun iinit_loop :: "nat list \<Rightarrow> ('x) icst_scheme \<Rightarrow> ('x) icst_scheme" where
  "iinit_loop [] s = s"
| "iinit_loop (i # js) s = iinit_loop js (initsleeplock (SL_inode i) ''inode'' s)"

definition iinit :: "uint \<Rightarrow> ('x) icst_scheme \<Rightarrow> (('x) icst_scheme, unit) outcome" where
  "iinit dev s =
     (let s = initlock L_icache ''icache'' s;
          s = iinit_loop [0..<NINODE] s in
      bnd (readsb dev s) (\<lambda>k s.
      Ret () (s\<lparr>sb := k\<rparr>)))"

text \<open>The fields of the inode in slot \<open>j\<close> of an inode block.\<close>

definition dinode_type :: "nat \<Rightarrow> block \<Rightarrow> ushort" where
  "dinode_type j d = un16 (seg (64 * j) 2 d)"

definition load_dinode :: "nat \<Rightarrow> block \<Rightarrow> inode \<Rightarrow> inode" where
  "load_dinode j d ip =
     ip\<lparr>itype := un16 (seg (64 * j) 2 d), imajor := un16 (seg (64 * j + 2) 2 d),
        iminor := un16 (seg (64 * j + 4) 2 d), inlink := un16 (seg (64 * j + 6) 2 d),
        isize := un32 (seg (64 * j + 8) 4 d),
        iaddrs := map (\<lambda>k. un32 (seg (64 * j + 12 + 4 * k) 4 d)) [0..<13]\<rparr>"

definition dinode_bytes :: "inode \<Rightarrow> byte list" where
  "dinode_bytes ip =
     le16 (itype ip) @ le16 (imajor ip) @ le16 (iminor ip) @ le16 (inlink ip) @ le32 (isize ip) @
     concat (map le32 (iaddrs ip))"

definition store_dinode :: "nat \<Rightarrow> inode \<Rightarrow> block \<Rightarrow> block" where
  "store_dinode j ip d = blit (64 * j) (dinode_bytes ip) d"

definition iget :: "uint \<Rightarrow> uint \<Rightarrow> ('x) icst_scheme \<Rightarrow> (('x) icst_scheme, nat) outcome" where
  "iget dev n s =
     bnd (acquire L_icache s) (\<lambda>_ s.
     case List.find (\<lambda>i. iref (inodes s ! i) > 0 \<and> idev (inodes s ! i) = dev \<and> inum (inodes s ! i) = n) [0..<NINODE] of
       Some ip \<Rightarrow>
         let s = upd_inode ip (\<lambda>k. k\<lparr>iref := iref k + 1\<rparr>) s in
         bnd (release L_icache s) (\<lambda>_ s. Ret ip s)
     | None \<Rightarrow>
         (case List.find (\<lambda>i. iref (inodes s ! i) = 0) [0..<NINODE] of
            None \<Rightarrow> Panic ''iget: no inodes''
          | Some ip \<Rightarrow>
              let s = upd_inode ip (\<lambda>k. k\<lparr>idev := dev, inum := n, iref := 1, ivalid := False\<rparr>) s in
              bnd (release L_icache s) (\<lambda>_ s. Ret ip s)))"

fun ialloc_loop :: "nat list \<Rightarrow> uint \<Rightarrow> ushort \<Rightarrow> ('x) icst_scheme \<Rightarrow> (('x) icst_scheme, nat) outcome" where
  "ialloc_loop [] dev ty s = Panic ''ialloc: no inodes''"
| "ialloc_loop (n # ns) dev ty s =
     bnd (bread dev (IBLOCK (of_nat n) (sb s)) s) (\<lambda>bp s.
     let j = n mod unat IPB in
     if dinode_type j (bdata (bufs s ! bp)) = 0
     then
       let s = upd_buf bp (\<lambda>k. k\<lparr>bdata := blit (64 * j) (replicate 64 0) (bdata k)\<rparr>) s;
           s = upd_buf bp (\<lambda>k. k\<lparr>bdata := blit (64 * j) (le16 ty) (bdata k)\<rparr>) s in
       bnd (log_write bp s) (\<lambda>_ s.
       bnd (brelse bp s) (\<lambda>_ s.
       iget dev (of_nat n) s))
     else bnd (brelse bp s) (\<lambda>_ s. ialloc_loop ns dev ty s))"

definition ialloc :: "uint \<Rightarrow> ushort \<Rightarrow> ('x) icst_scheme \<Rightarrow> (('x) icst_scheme, nat) outcome" where
  "ialloc dev ty s = ialloc_loop [1..<unat (sb_ninodes (sb s))] dev ty s"

definition iupdate :: "nat \<Rightarrow> ('x) icst_scheme \<Rightarrow> (('x) icst_scheme, unit) outcome" where
  "iupdate ip s =
     bnd (bread (idev (inodes s ! ip)) (IBLOCK (inum (inodes s ! ip)) (sb s)) s) (\<lambda>bp s.
     let s = upd_buf bp (\<lambda>k. k\<lparr>bdata := store_dinode (unat (inum (inodes s ! ip) mod IPB)) (inodes s ! ip) (bdata k)\<rparr>) s in
     bnd (log_write bp s) (\<lambda>_ s.
     brelse bp s))"

definition idup :: "nat \<Rightarrow> ('x) icst_scheme \<Rightarrow> (('x) icst_scheme, nat) outcome" where
  "idup ip s =
     bnd (acquire L_icache s) (\<lambda>_ s.
     let s = upd_inode ip (\<lambda>k. k\<lparr>iref := iref k + 1\<rparr>) s in
     bnd (release L_icache s) (\<lambda>_ s. Ret ip s))"

definition ilock :: "nat \<Rightarrow> ('x) icst_scheme \<Rightarrow> (('x) icst_scheme, unit) outcome" where
  "ilock ip s =
     (if iref (inodes s ! ip) < 1 then Panic ''ilock''
      else
        bnd (acquiresleep (SL_inode ip) s) (\<lambda>_ s.
        if \<not> ivalid (inodes s ! ip)
        then
          bnd (bread (idev (inodes s ! ip)) (IBLOCK (inum (inodes s ! ip)) (sb s)) s) (\<lambda>bp s.
          let s = upd_inode ip (load_dinode (unat (inum (inodes s ! ip) mod IPB)) (bdata (bufs s ! bp))) s in
          bnd (brelse bp s) (\<lambda>_ s.
          let s = upd_inode ip (\<lambda>k. k\<lparr>ivalid := True\<rparr>) s in
          if itype (inodes s ! ip) = 0 then Panic ''ilock: no type'' else Ret () s))
        else Ret () s))"

definition iunlock :: "nat \<Rightarrow> ('x) icst_scheme \<Rightarrow> (('x) icst_scheme, unit) outcome" where
  "iunlock ip s =
     bnd (holdingsleep (SL_inode ip) s) (\<lambda>h s.
     if \<not> h \<or> iref (inodes s ! ip) < 1 then Panic ''iunlock''
     else releasesleep (SL_inode ip) s)"

section \<open>Inode content\<close>

definition bmap :: "nat \<Rightarrow> uint \<Rightarrow> ('x) icst_scheme \<Rightarrow> (('x) icst_scheme, uint) outcome" where
  "bmap ip bn s =
     (if unat bn < NDIRECT
      then
        if iaddrs (inodes s ! ip) ! unat bn = 0
        then
          bnd (balloc (idev (inodes s ! ip)) s) (\<lambda>a s.
          Ret a (upd_inode ip (\<lambda>k. k\<lparr>iaddrs := (iaddrs k)[unat bn := a]\<rparr>) s))
        else Ret (iaddrs (inodes s ! ip) ! unat bn) s
      else
        let bn = unat bn - NDIRECT in
        if bn < NINDIRECT
        then
          bnd (if iaddrs (inodes s ! ip) ! NDIRECT = 0
               then
                 bnd (balloc (idev (inodes s ! ip)) s) (\<lambda>a s.
                 Ret a (upd_inode ip (\<lambda>k. k\<lparr>iaddrs := (iaddrs k)[NDIRECT := a]\<rparr>) s))
               else Ret (iaddrs (inodes s ! ip) ! NDIRECT) s) (\<lambda>ia s.
          bnd (bread (idev (inodes s ! ip)) ia s) (\<lambda>bp s.
          bnd (if un32 (seg (4 * bn) 4 (bdata (bufs s ! bp))) = 0
               then
                 bnd (balloc (idev (inodes s ! ip)) s) (\<lambda>a s.
                 let s = upd_buf bp (\<lambda>k. k\<lparr>bdata := blit (4 * bn) (le32 a) (bdata k)\<rparr>) s in
                 bnd (log_write bp s) (\<lambda>_ s. Ret a s))
               else Ret (un32 (seg (4 * bn) 4 (bdata (bufs s ! bp)))) s) (\<lambda>a s.
          bnd (brelse bp s) (\<lambda>_ s.
          Ret a s))))
        else Panic ''bmap: out of range'')"

fun itrunc_direct :: "nat list \<Rightarrow> nat \<Rightarrow> ('x) icst_scheme \<Rightarrow> (('x) icst_scheme, unit) outcome" where
  "itrunc_direct [] ip s = Ret () s"
| "itrunc_direct (i # js) ip s =
     (if iaddrs (inodes s ! ip) ! i \<noteq> 0
      then
        bnd (bfree (idev (inodes s ! ip)) (iaddrs (inodes s ! ip) ! i) s) (\<lambda>_ s.
        itrunc_direct js ip (upd_inode ip (\<lambda>k. k\<lparr>iaddrs := (iaddrs k)[i := 0]\<rparr>) s))
      else itrunc_direct js ip s)"

fun itrunc_indirect :: "nat list \<Rightarrow> nat \<Rightarrow> nat \<Rightarrow> ('x) icst_scheme \<Rightarrow> (('x) icst_scheme, unit) outcome" where
  "itrunc_indirect [] bp ip s = Ret () s"
| "itrunc_indirect (j # js) bp ip s =
     (let a = un32 (seg (4 * j) 4 (bdata (bufs s ! bp))) in
      if a \<noteq> 0
      then bnd (bfree (idev (inodes s ! ip)) a s) (\<lambda>_ s. itrunc_indirect js bp ip s)
      else itrunc_indirect js bp ip s)"

definition itrunc :: "nat \<Rightarrow> ('x) icst_scheme \<Rightarrow> (('x) icst_scheme, unit) outcome" where
  "itrunc ip s =
     bnd (itrunc_direct [0..<NDIRECT] ip s) (\<lambda>_ s.
     bnd (if iaddrs (inodes s ! ip) ! NDIRECT \<noteq> 0
          then
            bnd (bread (idev (inodes s ! ip)) (iaddrs (inodes s ! ip) ! NDIRECT) s) (\<lambda>bp s.
            bnd (itrunc_indirect [0..<NINDIRECT] bp ip s) (\<lambda>_ s.
            bnd (brelse bp s) (\<lambda>_ s.
            bnd (bfree (idev (inodes s ! ip)) (iaddrs (inodes s ! ip) ! NDIRECT) s) (\<lambda>_ s.
            Ret () (upd_inode ip (\<lambda>k. k\<lparr>iaddrs := (iaddrs k)[NDIRECT := 0]\<rparr>) s)))))
          else Ret () s) (\<lambda>_ s.
     let s = upd_inode ip (\<lambda>k. k\<lparr>isize := 0\<rparr>) s in
     iupdate ip s))"

definition iput :: "nat \<Rightarrow> ('x) icst_scheme \<Rightarrow> (('x) icst_scheme, unit) outcome" where
  "iput ip s =
     bnd (acquiresleep (SL_inode ip) s) (\<lambda>_ s.
     bnd (if ivalid (inodes s ! ip) \<and> inlink (inodes s ! ip) = 0
          then
            bnd (acquire L_icache s) (\<lambda>_ s.
            let r = iref (inodes s ! ip) in
            bnd (release L_icache s) (\<lambda>_ s.
            if r = 1
            then
              bnd (itrunc ip s) (\<lambda>_ s.
              let s = upd_inode ip (\<lambda>k. k\<lparr>itype := 0\<rparr>) s in
              bnd (iupdate ip s) (\<lambda>_ s.
              Ret () (upd_inode ip (\<lambda>k. k\<lparr>ivalid := False\<rparr>) s)))
            else Ret () s))
          else Ret () s) (\<lambda>_ s.
     bnd (releasesleep (SL_inode ip) s) (\<lambda>_ s.
     bnd (acquire L_icache s) (\<lambda>_ s.
     let s = upd_inode ip (\<lambda>k. k\<lparr>iref := iref k - 1\<rparr>) s in
     release L_icache s))))"

definition iunlockput :: "nat \<Rightarrow> ('x) icst_scheme \<Rightarrow> (('x) icst_scheme, unit) outcome" where
  "iunlockput ip s = bnd (iunlock ip s) (\<lambda>_ s. iput ip s)"

record stat =
  st_type :: ushort
  st_dev :: uint
  st_ino :: uint
  st_nlink :: ushort
  st_size :: uint

definition stati :: "nat \<Rightarrow> ('x) icst_scheme \<Rightarrow> stat" where
  "stati ip s =
     (let k = inodes s ! ip in
      \<lparr>st_type = itype k, st_dev = idev k, st_ino = inum k, st_nlink = inlink k, st_size = isize k\<rparr>)"

end
