(* ===== verification/Blocks.thy ===== *)
theory Blocks
  imports Logsafe Inode
begin

text \<open>
  What the block allocator and the inode layer do to the disk inside a transaction:
  the bitmap, and inodes stored and loaded again.
\<close>

section \<open>One access to a block\<close>

text \<open>\<open>tx_room s k\<close>: the open transaction can take \<open>k\<close> more blocks.\<close>

definition tx_room :: "('x) logst_scheme \<Rightarrow> nat \<Rightarrow> bool" where
  "tx_room s k \<longleftrightarrow> log_inv s \<and> lh_n s + int k \<le> sint (log_size s) - 1 \<and> sint (log_size s) \<le> LOGSIZE \<and> 1 \<le> outstanding s"

lemma tx_roomD:
  assumes "tx_room s k"
  shows "log_inv s" "log_shape s" "bio_ok s" "lh_n s + int k \<le> sint (log_size s) - 1" "sint (log_size s) \<le> LOGSIZE" "1 \<le> outstanding s"
  using assms log_shapeD(1) by (auto simp: tx_room_def log_inv_def)

lemma tx_room_le: "tx_room s k \<Longrightarrow> j \<le> k \<Longrightarrow> tx_room s j"
  by (simp add: tx_room_def)

lemma tx_room_frame:
  assumes "tx_room s k" "bframe s t" "bio_ok t" "dirty_blocks t = dirty_blocks s" "disk t = disk s"
  shows "tx_room t k"
  using assms log_shape_frame[OF tx_roomD(2)[OF assms(1)] assms(2-4)] bframe_log[OF assms(2)]
  by (simp add: tx_room_def log_inv_def)

lemma tx_card:
  assumes "tx_room s k" "card (held s) + 1 \<le> Suc k"
  shows "card (insert n (vdirty (view s) \<union> ran (vown (view s)))) \<le> NBUF"
proof -
  have "card (insert n (dirty_blocks s \<union> held s)) \<le> Suc (card (dirty_blocks s \<union> held s))" by (rule card_insert_le_m1) simp_all
  also have "\<dots> \<le> Suc (card (dirty_blocks s) + card (held s))" using card_Un_le by simp
  also have "\<dots> \<le> NBUF"
    using card_logged(1)[OF tx_roomD(2)[OF assms(1)]] tx_roomD(4,5)[OF assms(1)] log_shapeD(4)[OF tx_roomD(2)[OF assms(1)]] assms(2)
    by (simp add: NBUF_def LOGSIZE_def MAXOPBLOCKS_def)
  finally show ?thesis by (simp add: view_sel ran_vown)
qed

text \<open>Changing a locked block in the transaction and releasing it.\<close>

lemma held_write:
  assumes "tx_room t (Suc j)" "vown (view t) b = Some n" "length d = BSIZE" "\<not> in_log (log_start t) (unat n)"
  shows "\<exists>u v. log_write b (upd_buf b (\<lambda>k. k\<lparr>bdata := d\<rparr>) t) = Ret () u \<and> brelse b u = Ret () v \<and> tx_room v j \<and> lframe t v \<and>
    view v = (view t)\<lparr>vcontent := (vcontent (view t))(n := d), vdirty := insert n (vdirty (view t)), vown := (vown (view t))(b := None)\<rparr>"
proof -
  let ?w = "upd_buf b (\<lambda>k. k\<lparr>bdata := d\<rparr>) t"
  note w = set_view[OF tx_roomD(3)[OF assms(1)] assms(2,3)]
  have "dirty_blocks ?w = dirty_blocks t" "disk ?w = disk t" unfolding view_sel[symmetric] w(3) by simp_all
  then have rw: "tx_room ?w (Suc j)" by (rule tx_room_frame[OF assms(1) w(2,1)])
  note W = tx_roomD[OF rw] and L = bframe_log[OF w(2)]
  have ow: "vown (view ?w) b = Some n" using w(3) assms(2) by simp
  obtain u where u: "log_write b ?w = Ret () u" "log_inv u" "view u = (view ?w)\<lparr>vdirty := insert n (vdirty (view ?w))\<rparr>"
    "lh_n u = (if n \<in> dirty_blocks ?w then lh_n ?w else lh_n ?w + 1)" "log_size u = log_size ?w" "outstanding u = outstanding ?w" "lframe ?w u"
    using log_write_shape[OF W(1) ow] W(4-6) assms(4) L(2) by auto
  have ru: "tx_room u j" using u(2,4,5,6) W(4-6) by (simp add: tx_room_def)
  have ou: "vown (view u) b = Some n" "n \<in> vdirty (view u)" using u(3) ow by simp_all
  obtain v where v: "brelse b u = Ret () v" "bio_ok v" "bframe u v" "view v = (view u)\<lparr>vown := (vown (view u))(b := None)\<rparr>"
    using brelse_view[OF tx_roomD(3)[OF ru] ou(1)] ou(2) by auto
  have "dirty_blocks v = dirty_blocks u" "disk v = disk u" unfolding view_sel[symmetric] v(4) by simp_all
  then have "tx_room v j" by (rule tx_room_frame[OF ru v(3,2)])
  moreover have "lframe t v" using lframe_bframe[OF w(2)] u(7) lframe_bframe[OF v(3)] lframe_trans by blast
  moreover have "view v = (view t)\<lparr>vcontent := (vcontent (view t))(n := d), vdirty := insert n (vdirty (view t)), vown := (vown (view t))(b := None)\<rparr>"
    by (simp add: v(4) u(3) w(3))
  ultimately show ?thesis using u(1) v(1) by blast
qed

text \<open>
  Reading block \<open>n\<close>; then either releasing it, or changing it in the transaction
  and releasing it.
\<close>

lemma block_access:
  assumes r: "tx_room s k" "card (held s) + 1 \<le> Suc k" and n: "n < disksize s" "n \<notin> held s"
  obtains b t where "bread 1 n s = Ret b t" "bdata (bufs t ! b) = content s n" "length (content s n) = BSIZE"
    "tx_room t k" "bframe s t" "view t = (view s)\<lparr>vown := (vown (view s))(b \<mapsto> n)\<rparr>" "vown (view s) b = None"
    "\<exists>u. brelse b t = Ret () u \<and> tx_room u k \<and> bframe s u \<and> view u = view s"
    "\<And>d j. length d = BSIZE \<Longrightarrow> \<not> in_log (log_start s) (unat n) \<Longrightarrow> k = Suc j \<Longrightarrow>
       \<exists>u v. log_write b (upd_buf b (\<lambda>k. k\<lparr>bdata := d\<rparr>) t) = Ret () u \<and> brelse b u = Ret () v \<and>
         tx_room v j \<and> lframe s v \<and> view v = (view s)\<lparr>vcontent := (vcontent (view s))(n := d), vdirty := insert n (vdirty (view s))\<rparr>"
proof -
  note T = tx_roomD[OF r(1)]
  obtain b t where t: "bread 1 n s = Ret b t" "bio_ok t" "bframe s t" "vown (view s) b = None"
    "view t = (view s)\<lparr>vown := (vown (view s))(b \<mapsto> n)\<rparr>"
    using bread_view[OF T(3), of n] n tx_card[OF r, of n] by (auto simp: view_sel ran_vown)
  have ot: "vown (view t) b = Some n" using t(5) by simp
  note dt = data_view[OF t(2) ot]
  have bk: "(vown (view s))(b := None) = vown (view s)" using t(4) by (simp add: fun_upd_idem)
  have same: "dirty_blocks t = dirty_blocks s" "disk t = disk s" unfolding view_sel[symmetric] t(5) by simp_all
  have rt: "tx_room t k" by (rule tx_room_frame[OF r(1) t(3,2) same])
  have cl: "n \<in> vdirty (view t) \<or> vcontent (view t) n = vdisk (view t) (unat n)"
    using clean_view[OF T(3), of n] n(2) t(5) by (auto simp: ran_vown)
  obtain u where u: "brelse b t = Ret () u" "bio_ok u" "bframe t u" "view u = (view t)\<lparr>vown := (vown (view t))(b := None)\<rparr>"
    using brelse_view[OF t(2) ot cl] by auto
  have vu: "view u = view s" using u(4) t(5) bk by simp
  have su: "bframe s u" using t(3) u(3) bframe_trans by blast
  have "dirty_blocks u = dirty_blocks s" "disk u = disk s" unfolding view_sel[symmetric] vu by simp_all
  then have ru: "tx_room u k" by (rule tx_room_frame[OF r(1) su u(2)])
  have upd: "\<exists>u v. log_write b (upd_buf b (\<lambda>k. k\<lparr>bdata := d\<rparr>) t) = Ret () u \<and> brelse b u = Ret () v \<and>
         tx_room v j \<and> lframe s v \<and> view v = (view s)\<lparr>vcontent := (vcontent (view s))(n := d), vdirty := insert n (vdirty (view s))\<rparr>"
    if d: "length d = BSIZE" "\<not> in_log (log_start s) (unat n)" "k = Suc j" for d j
  proof -
    obtain u v where v: "log_write b (upd_buf b (\<lambda>k. k\<lparr>bdata := d\<rparr>) t) = Ret () u" "brelse b u = Ret () v" "tx_room v j" "lframe t v"
      "view v = (view t)\<lparr>vcontent := (vcontent (view t))(n := d), vdirty := insert n (vdirty (view t)), vown := (vown (view t))(b := None)\<rparr>"
      using held_write[OF rt[unfolded d(3)] ot d(1)] d(2) bframe_log(2)[OF t(3)] by auto
    have "lframe s v" using lframe_bframe[OF t(3)] v(4) lframe_trans by blast
    moreover have "view v = (view s)\<lparr>vcontent := (vcontent (view s))(n := d), vdirty := insert n (vdirty (view s))\<rparr>"
      using bk by (simp add: v(5) t(5))
    ultimately show ?thesis using v(1-3) by blast
  qed
  show ?thesis
    by (rule that[OF t(1) _ _ rt t(3,5,4) _ upd]) (use dt t(5) u(1) ru su vu in \<open>simp_all add: view_sel\<close>)
qed

section \<open>Inodes on disk\<close>

lemma icst_upd [simp]:
  "bio_ok (s\<lparr>inodes := a\<rparr>) = bio_ok s" "view (s\<lparr>inodes := a\<rparr>) = view s"
  "bio_ok (s\<lparr>sb := b\<rparr>) = bio_ok s" "view (s\<lparr>sb := b\<rparr>) = view s"
  "bio_ok (t\<lparr>sleeps := (sleeps t)(SL_inode i := k)\<rparr>) = bio_ok t" "view (t\<lparr>sleeps := (sleeps t)(SL_inode i := k)\<rparr>) = view t"
  by (simp_all add: bio_ok_def calm_def cli_ok_def this_cpu_def readeflags_IF_def lk_free_def cur_def lru_def
      nxt_def[abs_def] prv_def[abs_def] cache_ok_def blk_locked_def view_def content_def[abs_def] dirty_blocks_def cong: if_cong option.case_cong)

lemma log_upd_inv:
  assumes "bio_ok t = bio_ok s" "view t = view s" "log_dev t = log_dev s" "log_start t = log_start s" "lh_n t = lh_n s" "lh_block t = lh_block s"
    "log_size t = log_size s" "outstanding t = outstanding s"
  shows "tx_room t k = tx_room s k"
proof -
  have "disksize t = disksize s" "dirty_blocks t = dirty_blocks s" "disk t = disk s" unfolding view_sel[symmetric] assms(2) by simp_all
  then show ?thesis using assms by (simp add: tx_room_def log_inv_def log_shape_def logged_def[abs_def])
qed

lemma tx_room_upd [simp]:
  "tx_room (s\<lparr>inodes := a\<rparr>) k = tx_room s k" "tx_room (s\<lparr>sb := b\<rparr>) k = tx_room s k"
  "tx_room (t\<lparr>sleeps := (sleeps t)(SL_inode i := l)\<rparr>) k = tx_room t k"
  by (rule log_upd_inv; simp)+

lemma frame_icst:
  assumes "lframe s t"
  shows "inodes t = inodes s" "sb t = sb s"
  using assms by (auto simp: lframe_def)

lemma seg_blit_in:
  assumes "off + length xs \<le> length ys" "off \<le> i" "i + n \<le> off + length xs"
  shows "seg i n (blit off xs ys) = seg (i - off) n xs"
proof (rule nth_equalityI)
  show "length (seg i n (blit off xs ys)) = length (seg (i - off) n xs)" using assms by simp
  fix j assume "j < length (seg i n (blit off xs ys))"
  then have "j < n" using assms by simp
  then show "seg i n (blit off xs ys) ! j = seg (i - off) n xs ! j" using assms by (simp add: nth_seg nth_blit)
qed

lemma seg_append: "length a = k \<Longrightarrow> seg (k + i) n (a @ b) = seg i n b"
  by (simp add: seg_def)

lemma seg_take: "n = length a \<Longrightarrow> seg 0 n (a @ b) = a"
  by (simp add: seg_def)

lemma length_addr_bytes: "length (concat (map le32 as)) = 4 * length as"
  by (induction as) auto

lemma seg_addrs:
  "k < length as \<Longrightarrow> seg (4 * k) 4 (concat (map le32 as)) = le32 (as ! k)"
proof (induction as arbitrary: k)
  case (Cons a as)
  then show ?case
  proof (cases k)
    case 0
    then show ?thesis by (simp add: seg_take)
  next
    case (Suc j)
    then have "seg (4 * k) 4 (concat (map le32 (a # as))) = seg (4 + 4 * j) 4 (le32 a @ concat (map le32 as))" by simp
    also have "\<dots> = seg (4 * j) 4 (concat (map le32 as))" by (rule seg_append) simp
    finally show ?thesis using Cons Suc by simp
  qed
qed simp

definition dinode_ok :: "inode \<Rightarrow> bool" where
  "dinode_ok k \<longleftrightarrow> length (iaddrs k) = 13"

lemma length_dinode: "dinode_ok k \<Longrightarrow> length (dinode_bytes k) = 64"
  by (simp add: dinode_ok_def dinode_bytes_def length_addr_bytes)

lemma dinode_fields:
  assumes "dinode_ok k"
  shows "seg 0 2 (dinode_bytes k) = le16 (itype k)" "seg 2 2 (dinode_bytes k) = le16 (imajor k)"
    "seg 4 2 (dinode_bytes k) = le16 (iminor k)" "seg 6 2 (dinode_bytes k) = le16 (inlink k)" "seg 8 4 (dinode_bytes k) = le32 (isize k)"
    "i < 13 \<Longrightarrow> seg (12 + 4 * i) 4 (dinode_bytes k) = le32 (iaddrs k ! i)"
proof -
  let ?r = "concat (map le32 (iaddrs k))"
  have e: "dinode_bytes k = le16 (itype k) @ le16 (imajor k) @ le16 (iminor k) @ le16 (inlink k) @ le32 (isize k) @ ?r"
    by (simp add: dinode_bytes_def)
  show "seg 0 2 (dinode_bytes k) = le16 (itype k)" unfolding e by (simp add: seg_take)
  show "seg 2 2 (dinode_bytes k) = le16 (imajor k)" unfolding e using seg_append[of "le16 (itype k)" 2 0] by (simp add: seg_take)
  show "seg 4 2 (dinode_bytes k) = le16 (iminor k)" unfolding e using seg_append[of "le16 (itype k) @ le16 (imajor k)" 4 0] by (simp add: seg_take)
  show "seg 6 2 (dinode_bytes k) = le16 (inlink k)"
    unfolding e using seg_append[of "le16 (itype k) @ le16 (imajor k) @ le16 (iminor k)" 6 0] by (simp add: seg_take)
  show "seg 8 4 (dinode_bytes k) = le32 (isize k)"
    unfolding e using seg_append[of "le16 (itype k) @ le16 (imajor k) @ le16 (iminor k) @ le16 (inlink k)" 8 0] by (simp add: seg_take)
  show "seg (12 + 4 * i) 4 (dinode_bytes k) = le32 (iaddrs k ! i)" if "i < 13"
    unfolding e using seg_append[of "le16 (itype k) @ le16 (imajor k) @ le16 (iminor k) @ le16 (inlink k) @ le32 (isize k)" 12 "4 * i" 4 ?r]
      seg_addrs[of i "iaddrs k"] that assms by (simp add: dinode_ok_def)
qed

lemma load_store_dinode:
  assumes "dinode_ok k" "length d = BSIZE" "j < 8"
  shows "load_dinode j (store_dinode j k d) k0 =
    k0\<lparr>itype := itype k, imajor := imajor k, iminor := iminor k, inlink := inlink k, isize := isize k, iaddrs := iaddrs k\<rparr>"
proof -
  have s: "seg (64 * j + i) n (store_dinode j k d) = seg i n (dinode_bytes k)" if "i + n \<le> 64" for i n
    using seg_blit_in[of "64 * j" "dinode_bytes k" d "64 * j + i" n] length_dinode[OF assms(1)] that assms(2,3)
    by (simp add: store_dinode_def BSIZE_def)
  have a: "map (\<lambda>i. un32 (seg (64 * j + 12 + 4 * i) 4 (store_dinode j k d))) [0..<13] = iaddrs k"
  proof (rule nth_equalityI)
    fix i assume "i < length (map (\<lambda>i. un32 (seg (64 * j + 12 + 4 * i) 4 (store_dinode j k d))) [0..<13])"
    then have i: "i < 13" by simp
    then show "map (\<lambda>i. un32 (seg (64 * j + 12 + 4 * i) 4 (store_dinode j k d))) [0..<13] ! i = iaddrs k ! i"
      using s[of "12 + 4 * i" 4] dinode_fields(6)[OF assms(1) i] by (simp add: add.assoc)
  qed (use assms(1) in \<open>simp add: dinode_ok_def\<close>)
  show ?thesis
    unfolding load_dinode_def a using s[of 0 2] s[of 2 2] s[of 4 2] s[of 6 2] s[of 8 4] dinode_fields(1-5)[OF assms(1)] by simp
qed

lemma load_store_other:
  assumes "dinode_ok k" "length d = BSIZE" "j < 8" "i < 8" "i \<noteq> j"
  shows "load_dinode i (store_dinode j k d) k0 = load_dinode i d k0" "dinode_type i (store_dinode j k d) = dinode_type i d"
proof -
  have s: "seg (64 * i + o') n (store_dinode j k d) = seg (64 * i + o') n d" if "o' + n \<le> 64" for o' n
    unfolding store_dinode_def using that assms length_dinode[OF assms(1)]
    by (intro seg_blit_other) (auto simp: BSIZE_def)
  show "dinode_type i (store_dinode j k d) = dinode_type i d" using s[of 0 2] by (simp add: dinode_type_def)
  have "seg (64 * i + 12 + 4 * l) 4 (store_dinode j k d) = seg (64 * i + 12 + 4 * l) 4 d" if "l < 13" for l
    using s[of "12 + 4 * l" 4] that by (simp add: add.assoc)
  then show "load_dinode i (store_dinode j k d) k0 = load_dinode i d k0"
    unfolding load_dinode_def using s[of 0 2] s[of 2 2] s[of 4 2] s[of 6 2] s[of 8 4] by simp
qed

lemma length_store_dinode: "dinode_ok k \<Longrightarrow> length d = BSIZE \<Longrightarrow> j < 8 \<Longrightarrow> length (store_dinode j k d) = BSIZE"
  using length_dinode by (simp add: store_dinode_def BSIZE_def)

text \<open>The block and the slot of an inode.\<close>

definition iblk :: "nat \<Rightarrow> ('x) icst_scheme \<Rightarrow> uint" where
  "iblk ip s = IBLOCK (inum (inodes s ! ip)) (sb s)"

definition islot :: "nat \<Rightarrow> ('x) icst_scheme \<Rightarrow> nat" where
  "islot ip s = unat (inum (inodes s ! ip) mod IPB)"

lemma islot_less: "islot ip s < 8"
proof -
  have "unat (inum (inodes s ! ip) mod 8) = unat (inum (inodes s ! ip)) mod 8" by (simp add: unat_mod)
  then show ?thesis by (simp add: islot_def IPB_def)
qed

lemma iupdate_view:
  assumes "tx_room s (Suc k)" "card (held s) + 1 \<le> Suc (Suc k)" "idev (inodes s ! ip) = 1" "dinode_ok (inodes s ! ip)"
    "iblk ip s < disksize s" "iblk ip s \<notin> held s" "\<not> in_log (log_start s) (unat (iblk ip s))"
  shows "\<exists>t. iupdate ip s = Ret () t \<and> tx_room t k \<and> lframe s t \<and>
    view t = (view s)\<lparr>vcontent := (vcontent (view s))(iblk ip s := store_dinode (islot ip s) (inodes s ! ip) (content s (iblk ip s))),
      vdirty := insert (iblk ip s) (vdirty (view s))\<rparr>"
proof -
  let ?n = "iblk ip s"
  let ?d = "store_dinode (islot ip s) (inodes s ! ip) (content s ?n)"
  obtain b t where t: "bread 1 ?n s = Ret b t" "bdata (bufs t ! b) = content s ?n" "length (content s ?n) = BSIZE" "bframe s t"
    "\<And>d j. length d = BSIZE \<Longrightarrow> \<not> in_log (log_start s) (unat ?n) \<Longrightarrow> Suc k = Suc j \<Longrightarrow>
       \<exists>u v. log_write b (upd_buf b (\<lambda>k. k\<lparr>bdata := d\<rparr>) t) = Ret () u \<and> brelse b u = Ret () v \<and>
         tx_room v j \<and> lframe s v \<and> view v = (view s)\<lparr>vcontent := (vcontent (view s))(?n := d), vdirty := insert ?n (vdirty (view s))\<rparr>"
    by (rule block_access[OF assms(1,2,5,6)]) blast
  note f = frame_icst[OF lframe_bframe[OF t(4)]]
  have ld: "length ?d = BSIZE" by (rule length_store_dinode[OF assms(4) t(3) islot_less])
  obtain u v where uv: "log_write b (upd_buf b (\<lambda>k. k\<lparr>bdata := ?d\<rparr>) t) = Ret () u" "brelse b u = Ret () v" "tx_room v k" "lframe s v"
    "view v = (view s)\<lparr>vcontent := (vcontent (view s))(?n := ?d), vdirty := insert ?n (vdirty (view s))\<rparr>"
    using t(5)[OF ld assms(7) refl] by blast
  have "upd_buf b (\<lambda>k. k\<lparr>bdata := store_dinode (unat (inum (inodes t ! ip) mod IPB)) (inodes t ! ip) (bdata k)\<rparr>) t
      = upd_buf b (\<lambda>k. k\<lparr>bdata := ?d\<rparr>) t"
    using t(2) f by (simp add: upd_buf_def islot_def)
  then have "iupdate ip s = Ret () v"
    using t(1) uv(1,2) assms(3) by (simp add: iupdate_def iblk_def[symmetric] Let_def)
  then show ?thesis using uv by blast
qed

lemma ilock_view:
  assumes "tx_room s k" "held s = {}" "idev (inodes s ! ip) = 1" "ip < length (inodes s)" "1 \<le> iref (inodes s ! ip)"
    "\<not> ivalid (inodes s ! ip)" "\<not> sl_locked (sleeps s (SL_inode ip))" "iblk ip s < disksize s"
  defines "k' \<equiv> load_dinode (islot ip s) (content s (iblk ip s)) (inodes s ! ip)"
  assumes "itype k' \<noteq> 0"
  shows "\<exists>t. ilock ip s = Ret () t \<and> tx_room t k \<and> view t = view s \<and> inodes t = (inodes s)[ip := k'\<lparr>ivalid := True\<rparr>]"
proof -
  let ?n = "iblk ip s"
  note T = tx_roomD[OF assms(1)]
  have calm: "calm s" using T(3) by (simp add: bio_ok_def)
  define u where "u = s\<lparr>sleeps := (sleeps s)(SL_inode ip := (sleeps s (SL_inode ip))\<lparr>sl_locked := True, sl_pid := pid (procs s ! the (cur s))\<rparr>)\<rparr>"
  have u: "tx_room u k" "view u = view s" "inodes u = inodes s" "sb u = sb s" using assms(1) by (simp_all add: u_def)
  have un: "disksize u = disksize s" "content u = content s" "held u = {}" "log_start u = log_start s"
    using assms(2) ran_vown[of u] ran_vown[of s] unfolding view_sel[symmetric] u(2) by (simp_all add: u_def)
  have a: "acquiresleep (SL_inode ip) s = Ret () u" unfolding u_def by (rule acquiresleep_eq[OF calm assms(7)])
  have pre: "card (held u) + 1 \<le> Suc k" "?n < disksize u" "?n \<notin> held u" using un assms(8) by simp_all
  obtain b t where t: "bread 1 ?n u = Ret b t" "bdata (bufs t ! b) = content s ?n" "bframe u t" "tx_room t k"
    "view t = (view u)\<lparr>vown := (vown (view u))(b \<mapsto> ?n)\<rparr>" "vown (view u) b = None"
    by (rule block_access[OF u(1) pre]) (use un in auto)
  note f = frame_icst[OF lframe_bframe[OF t(3)]]
  define v where "v = upd_inode ip (load_dinode (islot ip s) (content s ?n)) t"
  have v: "tx_room v k" "view v = view t" "inodes v = (inodes s)[ip := k']" "sb v = sb s"
    using t(4) f u by (simp_all add: v_def upd_inode_def k'_def)
  have ov: "vown (view v) b = Some ?n" using v(2) t(5) by simp
  have cl: "?n \<in> vdirty (view v) \<or> vcontent (view v) ?n = vdisk (view v) (unat ?n)"
    using clean_view[OF tx_roomD(3)[OF u(1)], of ?n] un(3) ran_vown[of u] v(2) t(5) by auto
  obtain w where w: "brelse b v = Ret () w" "bio_ok w" "bframe v w" "view w = (view v)\<lparr>vown := (vown (view v))(b := None)\<rparr>"
    using brelse_view[OF tx_roomD(3)[OF v(1)] ov cl] by auto
  note g = frame_icst[OF lframe_bframe[OF w(3)]]
  have vw: "view w = view s" using w(4) v(2) t(5,6) u(2) by (simp add: fun_upd_idem)
  have "dirty_blocks w = dirty_blocks v" "disk w = disk v" unfolding view_sel[symmetric] w(4) by simp_all
  then have rw: "tx_room w k" by (rule tx_room_frame[OF v(1) w(3,2)])
  let ?x = "upd_inode ip (\<lambda>k. k\<lparr>ivalid := True\<rparr>) w"
  have x: "inodes ?x = (inodes s)[ip := k'\<lparr>ivalid := True\<rparr>]" "tx_room ?x k" "view ?x = view s"
    using g v(3) rw vw assms(4) by (simp_all add: upd_inode_def)
  have "ilock ip s = (if itype (inodes ?x ! ip) = 0 then Panic ''ilock: no type'' else Ret () ?x)"
    using assms(3,5,6) t(1,2) w(1) f u(3,4)
    by (simp add: ilock_def a iblk_def[symmetric] islot_def[symmetric] Let_def)
       (auto simp: iblk_def islot_def v_def upd_inode_def)
  also have "\<dots> = Ret () ?x" using x(1) assms(4,10) by simp
  finally show ?thesis using x by blast
qed

text \<open>A file system on a blank disk, for examples: one cached inode, 33, in block 36.\<close>

definition fs_example :: "(nat \<Rightarrow> block) \<Rightarrow> superblock \<Rightarrow> inode list \<Rightarrow> icst" where
  "fs_example d b ks = logst.extend (boot_log d) (icst.fields b ks)"

lemma log_extend:
  "bio_ok (logst.extend s e) = bio_ok s" "view (logst.extend s e) = view s" "held (logst.extend s e) = held s"
  "log_start (logst.extend s e) = log_start s" "log_size (logst.extend s e) = log_size s" "log_dev (logst.extend s e) = log_dev s"
  "lh_n (logst.extend s e) = lh_n s" "outstanding (logst.extend s e) = outstanding s" "committing (logst.extend s e) = committing s"
  "lh_block (logst.extend s e) = lh_block s" "sleeps (logst.extend s e) = sleeps s"
  by (simp_all add: logst.defs bio_ok_def calm_def cli_ok_def this_cpu_def readeflags_IF_def lk_free_def cur_def lru_def held_def
      nxt_def[abs_def] prv_def[abs_def] cache_ok_def blk_locked_def view_def content_def[abs_def] dirty_blocks_def cong: if_cong option.case_cong)

lemma fs_example_ok:
  assumes "\<And>i. i < 1000 \<Longrightarrow> length (d i) = BSIZE" "hdr_n (d 2) = 0"
  shows "tx_room (fs_example d b ks) 29" "view (fs_example d b ks) = view (boot_log d)" "held (fs_example d b ks) = {}"
    "log_start (fs_example d b ks) = 2" "disksize (fs_example d b ks) = 1000" "content (fs_example d b ks) n = d (unat n)"
    "sb (fs_example d b ks) = b" "inodes (fs_example d b ks) = ks"
proof -
  note L = boot_log_ok[OF assms(1)]
  let ?s = "fs_example d b ks"
  show v: "view ?s = view (boot_log d)" by (simp add: fs_example_def log_extend)
  show "held ?s = {}" using L(6) ran_vown[of "boot_log d"] by (simp add: fs_example_def log_extend)
  show "log_start ?s = 2" using L(7) by (simp add: fs_example_def log_extend)
  show "disksize ?s = 1000" using v L(3) unfolding view_sel[symmetric] by simp
  have "vcontent (view (boot_log d)) = (\<lambda>n. d (unat n))"
    using boot_ok(3)[of 1000 d "logst.fields 2 30 1 False 1 0 (replicate 30 0)"] assms(1) by (simp add: boot_log_def)
  then show "content ?s n = d (unat n)" using v unfolding view_sel[symmetric] by simp
  show "sb ?s = b" "inodes ?s = ks" by (simp_all add: fs_example_def logst.defs icst.defs)
  have x: "dirty_blocks ?s = {}" "disk ?s = d" unfolding view_sel[symmetric] v using L(2,5) by (simp_all add: view_sel)
  have y: "bio_ok ?s" "lh_n ?s = 0" "log_size ?s = 30" "log_dev ?s = 1" "outstanding ?s = 1" "lh_block ?s = replicate 30 0" "\<not> committing ?s"
    using L by (simp_all add: fs_example_def log_extend)
  show "tx_room ?s 29"
    using x y assms(2) \<open>log_start ?s = 2\<close> \<open>disksize ?s = 1000\<close>
    by (simp add: tx_room_def log_inv_def log_shape_def LOGSIZE_def MAXOPBLOCKS_def logged_def)
qed

text \<open>
  C13.  An inode survives a trip through the disk image.  \<open>iupdate\<close> returns, and
  when the cache slot is later recycled for the same inode, holding anything at all,
  \<open>ilock\<close> fills it with exactly the type, device numbers, link count, size and
  block addresses that \<open>iupdate\<close> was given.  The seven other inodes stored in the
  same block, and every other block, are untouched.
\<close>

theorem iupdate_ilock_roundtrip:
  assumes "tx_room s 1" "held s = {}" "ip < length (inodes s)" "idev (inodes s ! ip) = 1" "dinode_ok (inodes s ! ip)"
    "itype (inodes s ! ip) \<noteq> 0" "iblk ip s < disksize s" "\<not> in_log (log_start s) (unat (iblk ip s))"
  shows "\<exists>t. iupdate ip s = Ret () t \<and>
    (\<forall>n. n \<noteq> iblk ip s \<longrightarrow> content t n = content s n) \<and>
    (\<forall>j < 8. j \<noteq> islot ip s \<longrightarrow> load_dinode j (content t (iblk ip s)) = load_dinode j (content s (iblk ip s))) \<and>
    (\<forall>g l. idev g = 1 \<longrightarrow> inum g = inum (inodes s ! ip) \<longrightarrow> 1 \<le> iref g \<longrightarrow> \<not> ivalid g \<longrightarrow> \<not> sl_locked l \<longrightarrow>
      (\<exists>u. ilock ip (t\<lparr>inodes := (inodes t)[ip := g], sleeps := (sleeps t)(SL_inode ip := l)\<rparr>) = Ret () u \<and>
        inodes u = (inodes s)[ip := (inodes s ! ip)\<lparr>iref := iref g, ivalid := True\<rparr>]))"
proof -
  let ?n = "iblk ip s" and ?d = "store_dinode (islot ip s) (inodes s ! ip) (content s (iblk ip s))"
  obtain t where t: "iupdate ip s = Ret () t" "tx_room t 0" "lframe s t"
    "view t = (view s)\<lparr>vcontent := (vcontent (view s))(?n := ?d), vdirty := insert ?n (vdirty (view s))\<rparr>"
    using iupdate_view[of s 0 ip] assms by auto
  note f = frame_icst[OF t(3)]
  have ct: "content t = (content s)(?n := ?d)" "disksize t = disksize s" "held t = {}"
    using t(4) ran_vown[of s] ran_vown[of t] assms(2) unfolding view_sel[symmetric] by simp_all
  have len: "length (content s ?n) = BSIZE"
    using length_view[OF tx_roomD(3)[OF assms(1)]] assms(7) unfolding view_sel[symmetric] by simp
  have "\<exists>u. ilock ip (t\<lparr>inodes := (inodes t)[ip := g], sleeps := (sleeps t)(SL_inode ip := l)\<rparr>) = Ret () u \<and>
        inodes u = (inodes s)[ip := (inodes s ! ip)\<lparr>iref := iref g, ivalid := True\<rparr>]"
    if g: "idev g = 1" "inum g = inum (inodes s ! ip)" "1 \<le> iref g" "\<not> ivalid g" "\<not> sl_locked l" for g l
  proof -
    let ?t = "t\<lparr>inodes := (inodes t)[ip := g], sleeps := (sleeps t)(SL_inode ip := l)\<rparr>"
    have r: "tx_room ?t 0" using tx_room_upd(3)[of "t\<lparr>inodes := (inodes t)[ip := g]\<rparr>" ip l 0] t(2) by simp
    have v: "view ?t = view t" using icst_upd(6)[of "t\<lparr>inodes := (inodes t)[ip := g]\<rparr>" ip l] by simp
    have h: "held ?t = {}" "content ?t = content t" "disksize ?t = disksize t"
      using v ran_vown[of ?t] ran_vown[of t] ct(3) unfolding view_sel[symmetric] by simp_all
    have i: "inodes ?t ! ip = g" "iblk ip ?t = ?n" "islot ip ?t = islot ip s"
      using assms(3) f g(2) by (simp_all add: iblk_def islot_def)
    have e: "load_dinode (islot ip ?t) (content ?t (iblk ip ?t)) g = (inodes s ! ip)\<lparr>iref := iref g, ivalid := False\<rparr>"
      unfolding i(2,3) h(2) ct(1) using load_store_dinode[OF assms(5) len islot_less, of ip s g] g assms(4) by simp
    show ?thesis using ilock_view[OF r h(1), of ip] i e h(3) ct(2) g f assms(3,6,7) by auto
  qed
  moreover have "\<forall>j < 8. j \<noteq> islot ip s \<longrightarrow> load_dinode j (content t ?n) = load_dinode j (content s ?n)"
    using load_store_other(1)[OF assms(5) len islot_less] by (auto simp: ct(1) fun_eq_iff)
  ultimately show ?thesis using t(1) ct(1) by auto
qed

lemma iupdate_ilock_roundtrip_witness:
  "\<exists>(s :: icst) t u. iupdate 0 s = Ret () t \<and> inodes s = [\<lparr>idev = 1, inum = 33, iref = 1, ivalid = True, itype = 2, imajor = 0, iminor = 0,
      inlink = 1, isize = 700, iaddrs = replicate 13 90\<rparr>] \<and>
    ilock 0 (t\<lparr>inodes := [\<lparr>idev = 1, inum = 33, iref = 2, ivalid = False, itype = 9, imajor = 9, iminor = 9, inlink = 9, isize = 9, iaddrs = []\<rparr>],
      sleeps := (sleeps t)(SL_inode 0 := \<lparr>sl_locked = False, sl_name = ''inode'', sl_pid = 0\<rparr>)\<rparr>) = Ret () u \<and>
    inodes u = [\<lparr>idev = 1, inum = 33, iref = 2, ivalid = True, itype = 2, imajor = 0, iminor = 0, inlink = 1, isize = 700, iaddrs = replicate 13 90\<rparr>]"
proof -
  let ?k = "\<lparr>idev = 1, inum = 33, iref = 1, ivalid = True, itype = 2, imajor = 0, iminor = 0, inlink = 1, isize = 700, iaddrs = replicate 13 90\<rparr>"
  let ?g = "\<lparr>idev = 1, inum = 33, iref = 2, ivalid = False, itype = 9, imajor = 9, iminor = 9, inlink = 9, isize = 9, iaddrs = []\<rparr>"
  let ?b = "\<lparr>sb_size = 1000, sb_nblocks = 941, sb_ninodes = 200, sb_nlog = 30, sb_logstart = 2, sb_inodestart = 32, sb_bmapstart = 58\<rparr>"
  let ?s = "fs_example (\<lambda>_. replicate BSIZE 0) ?b [?k]"
  have z: "hdr_n (replicate BSIZE 0) = 0" by (simp add: hdr_n_def un32_def seg_def BSIZE_def numeral_eq_Suc)
  note F = fs_example_ok[of "\<lambda>_. replicate BSIZE 0" ?b "[?k]", simplified z, simplified]
  have n: "iblk 0 ?s = 36" using F by (simp add: iblk_def IBLOCK_def IPB_def)
  have pre: "tx_room ?s 1" "held ?s = {}" "0 < length (inodes ?s)" "idev (inodes ?s ! 0) = 1" "dinode_ok (inodes ?s ! 0)"
    "itype (inodes ?s ! 0) \<noteq> 0" "iblk 0 ?s < disksize ?s" "\<not> in_log (log_start ?s) (unat (iblk 0 ?s))"
    using tx_room_le[OF F(1), of 1] F n by (simp_all add: dinode_ok_def in_log_def LOGSIZE_def MAXOPBLOCKS_def)
  obtain t where t: "iupdate 0 ?s = Ret () t" and
    u: "\<forall>g l. idev g = 1 \<longrightarrow> inum g = inum (inodes ?s ! 0) \<longrightarrow> 1 \<le> iref g \<longrightarrow> \<not> ivalid g \<longrightarrow> \<not> sl_locked l \<longrightarrow>
      (\<exists>u. ilock 0 (t\<lparr>inodes := (inodes t)[0 := g], sleeps := (sleeps t)(SL_inode 0 := l)\<rparr>) = Ret () u \<and>
        inodes u = (inodes ?s)[0 := (inodes ?s ! 0)\<lparr>iref := iref g, ivalid := True\<rparr>])"
    using iupdate_ilock_roundtrip[OF pre] by blast
  obtain t' where "iupdate 0 ?s = Ret () t'" "lframe ?s t'"
    using iupdate_view[of ?s 0 0] pre by auto
  then have "inodes t = [?k]" using t frame_icst(1)[of ?s t] F by simp
  then show ?thesis using t u[rule_format, of ?g "\<lparr>sl_locked = False, sl_name = ''inode'', sl_pid = 0\<rparr>"] F(8) by auto
qed

section \<open>The free block bitmap\<close>

text \<open>Block \<open>b\<close> is in use when its bit is set in the bitmap.\<close>

definition used :: "('x) icst_scheme \<Rightarrow> nat \<Rightarrow> bool" where
  "used s b \<longleftrightarrow> bit (content s (BBLOCK (of_nat b) (sb s)) ! (b mod BPB div 8)) (b mod 8)"

definition fs_blocks :: "('x) icst_scheme \<Rightarrow> nat" where
  "fs_blocks s = unat (sb_size (sb s))"

text \<open>
  The bitmap lies on the disk outside the log, and it marks itself and the log as in use.
\<close>

definition bitmap_ok :: "('x) icst_scheme \<Rightarrow> bool" where
  "bitmap_ok s \<longleftrightarrow> sb_size (sb s) \<le> disksize s \<and>
     (\<forall>b < fs_blocks s. unat (BBLOCK (of_nat b) (sb s)) < fs_blocks s \<and>
        \<not> in_log (log_start s) (unat (BBLOCK (of_nat b) (sb s))) \<and>
        used s (unat (BBLOCK (of_nat b) (sb s))) \<and> (in_log (log_start s) b \<longrightarrow> used s b))"

lemma fs_blocks_less: "fs_blocks s < 2 ^ 32"
  using unsigned_less[of "sb_size (sb s)", where ?'a = nat] by (simp add: fs_blocks_def)

lemma unat_nat32: "b < 2 ^ 32 \<Longrightarrow> unat (of_nat b :: uint) = b"
  by (simp add: unat_of_nat take_bit_nat_eq_self_iff)

lemma fs_block_disk: "bitmap_ok s \<Longrightarrow> unat n < fs_blocks s \<Longrightarrow> n < disksize s"
  by (simp add: bitmap_ok_def fs_blocks_def word_less_nat_alt word_le_nat_alt)

lemma BBLOCK_nat: "b < 2 ^ 32 \<Longrightarrow> BBLOCK (of_nat b) k = of_nat (b div BPB) + sb_bmapstart k"
proof -
  assume b: "b < 2 ^ 32"
  have "(of_nat b :: uint) div of_nat BPB = of_nat (b div BPB)"
    unfolding word_arith_nat_div using b by (simp add: BPB_def BSIZE_def unat_of_nat take_bit_nat_eq_self_iff)
  then show ?thesis by (simp add: BBLOCK_def)
qed

lemma bit_mask_bit: "bit (bit_mask i) j \<longleftrightarrow> j = i mod 8"
  by (auto simp: bit_mask_def bit_exp_iff)

lemma bit_mask_and: "(x AND bit_mask i = 0) = (\<not> bit x (i mod 8))"
  by (auto simp: bit_eq_iff[where ?'a = "8 word"] bit_and_iff bit_mask_bit dest: spec[of _ "i mod 8"])

lemma div8: "i < BPB \<Longrightarrow> j < BPB \<Longrightarrow> (i div 8 = j div 8 \<and> i mod 8 = j mod 8) = (i = j)"
  by (metis div_mult_mod_eq)

text \<open>The bitmap block with one bit set or cleared.\<close>

lemma set_bit_in:
  assumes "length d = BSIZE" "i < BPB" "j < BPB"
  shows "bit (d[i div 8 := d ! (i div 8) OR bit_mask i] ! (j div 8)) (j mod 8) \<longleftrightarrow> j = i \<or> bit (d ! (j div 8)) (j mod 8)"
    "bit (d[i div 8 := d ! (i div 8) AND NOT (bit_mask i)] ! (j div 8)) (j mod 8) \<longleftrightarrow> j \<noteq> i \<and> bit (d ! (j div 8)) (j mod 8)"
proof -
  have l: "i div 8 < length d" "j mod 8 < 8" using assms by (auto simp: BPB_def BSIZE_def)
  show "bit (d[i div 8 := d ! (i div 8) OR bit_mask i] ! (j div 8)) (j mod 8) \<longleftrightarrow> j = i \<or> bit (d ! (j div 8)) (j mod 8)"
    using div8[OF assms(2,3)] l by (auto simp: nth_list_update bit_or_iff bit_mask_bit)
  show "bit (d[i div 8 := d ! (i div 8) AND NOT (bit_mask i)] ! (j div 8)) (j mod 8) \<longleftrightarrow> j \<noteq> i \<and> bit (d ! (j div 8)) (j mod 8)"
    using div8[OF assms(2,3)] l by (auto simp: nth_list_update bit_and_iff bit_not_iff bit_mask_bit)
qed

lemma BPB_8: "b mod BPB mod 8 = b mod (8 :: nat)"
  by (simp add: BPB_def BSIZE_def mod_mod_cancel)

lemma used_frame: "view t = view s \<Longrightarrow> sb t = sb s \<Longrightarrow> used t = used s"
  unfolding used_def[abs_def] view_sel[symmetric] by simp

text \<open>What a state with one block of the bitmap changed marks as in use.\<close>

lemma used_upd:
  assumes "content t (BBLOCK (of_nat b) (sb s)) = d" "\<And>c. c < fs_blocks s \<Longrightarrow>
      BBLOCK (of_nat c) (sb s) \<noteq> BBLOCK (of_nat b) (sb s) \<Longrightarrow> content t (BBLOCK (of_nat c) (sb s)) = content s (BBLOCK (of_nat c) (sb s))"
    "sb t = sb s" "b < fs_blocks s" "c < fs_blocks s"
    "\<And>j. j < BPB \<Longrightarrow> bit (d ! (j div 8)) (j mod 8) = (if j = b mod BPB then v else bit (content s (BBLOCK (of_nat b) (sb s)) ! (j div 8)) (j mod 8))"
  shows "used t c = (if c = b then v else used s c)"
proof -
  have lt: "b < 2 ^ 32" "c < 2 ^ 32" using assms(4,5) fs_blocks_less[of s] by simp_all
  have m: "c mod BPB < BPB" by (simp add: BPB_def BSIZE_def)
  show ?thesis
  proof (cases "BBLOCK (of_nat c) (sb s) = BBLOCK (of_nat b) (sb s)")
    case True
    then have "(of_nat (c div BPB) :: uint) = of_nat (b div BPB)" using lt by (simp add: BBLOCK_nat)
    moreover have "c div BPB < 2 ^ 32" "b div BPB < 2 ^ 32"
      using lt div_le_dividend[of c BPB] div_le_dividend[of b BPB] by linarith+
    ultimately have "c div BPB = b div BPB" by (metis unat_nat32)
    then have "(c mod BPB = b mod BPB) = (c = b)" by (metis div_mult_mod_eq)
    then show ?thesis using assms(6)[OF m] assms(1,3) True by (simp add: used_def BPB_8)
  next
    case False
    then have "c \<noteq> b" by auto
    then show ?thesis using assms(2)[OF assms(5) False] assms(3) by (simp add: used_def)
  qed
qed

lemma bzero_view:
  assumes "tx_room s (Suc k)" "card (held s) \<le> Suc k" "n \<notin> held s" "n < disksize s" "\<not> in_log (log_start s) (unat n)"
  shows "\<exists>t. bzero 1 n s = Ret () t \<and> tx_room t k \<and> lframe s t \<and>
    view t = (view s)\<lparr>vcontent := (vcontent (view s))(n := replicate BSIZE 0), vdirty := insert n (vdirty (view s))\<rparr>"
proof -
  have pre: "card (held s) + 1 \<le> Suc (Suc k)" using assms(2) by simp
  obtain b t where t: "bread 1 n s = Ret b t"
    "\<And>d j. length d = BSIZE \<Longrightarrow> \<not> in_log (log_start s) (unat n) \<Longrightarrow> Suc k = Suc j \<Longrightarrow>
       \<exists>u v. log_write b (upd_buf b (\<lambda>k. k\<lparr>bdata := d\<rparr>) t) = Ret () u \<and> brelse b u = Ret () v \<and>
         tx_room v j \<and> lframe s v \<and> view v = (view s)\<lparr>vcontent := (vcontent (view s))(n := d), vdirty := insert n (vdirty (view s))\<rparr>"
    by (rule block_access[OF assms(1) pre assms(4,3)]) blast
  show ?thesis using t(2)[of "replicate BSIZE 0" k] t(1) assms(5) by (auto simp: bzero_def)
qed

text \<open>
  \<open>balloc\<close> may be called with one block locked, the indirect block of a file: a block in
  use that is not of the bitmap.
\<close>

definition may_hold :: "('x) icst_scheme \<Rightarrow> bool" where
  "may_hold s \<longleftrightarrow> card (held s) \<le> 1 \<and>
     (\<forall>n \<in> held s. used s (unat n) \<and> (\<forall>b < fs_blocks s. BBLOCK (of_nat b) (sb s) \<noteq> n))"

lemma may_hold_none: "held s = {} \<Longrightarrow> may_hold s"
  by (simp add: may_hold_def)

text \<open>The bits that \<open>balloc\<close> tests in the block of the bitmap that starts with \<open>b\<close>.\<close>

lemma chunk_bit:
  assumes "BPB dvd b" "j < BPB" "b + j < 2 ^ 32"
  shows "content s (BBLOCK (of_nat b) (sb s)) ! (j div 8) AND bit_mask j = 0 \<longleftrightarrow> \<not> used s (b + j)"
    "BBLOCK (of_nat (b + j)) k = BBLOCK (of_nat b) k"
proof -
  have m: "(b + j) mod BPB = j" "(b + j) div BPB = b div BPB" using assms(1,2) by (auto elim!: dvdE)
  then show e: "BBLOCK (of_nat (b + j)) k = BBLOCK (of_nat b) k" for k using assms(3) BBLOCK_nat[of "b + j"] BBLOCK_nat[of b] by simp
  have "(b + j) mod 8 = j mod 8" using BPB_8[of "b + j"] m by simp
  then show "content s (BBLOCK (of_nat b) (sb s)) ! (j div 8) AND bit_mask j = 0 \<longleftrightarrow> \<not> used s (b + j)"
    by (simp add: used_def e m bit_mask_and del: of_nat_add)
qed

lemma balloc_skip:
  assumes "tx_room s (Suc k)" "may_hold s" "bitmap_ok s" "BPB dvd b" "b < fs_blocks s"
    "\<And>c. b \<le> c \<Longrightarrow> c < fs_blocks s \<Longrightarrow> c < b + BPB \<Longrightarrow> used s c"
  shows "\<exists>t. balloc_loop (b # bs) 1 s = balloc_loop bs 1 t \<and> tx_room t (Suc k) \<and> bframe s t \<and> view t = view s"
proof -
  let ?n = "BBLOCK (of_nat b) (sb s)"
  have pre: "card (held s) + 1 \<le> Suc (Suc k)" "?n < disksize s" "?n \<notin> held s"
    using assms(2,3,5) fs_block_disk[OF assms(3)] by (auto simp: bitmap_ok_def may_hold_def)
  obtain p t u where t: "bread 1 ?n s = Ret p t" "bdata (bufs t ! p) = content s ?n" "bframe s t"
    and u: "brelse p t = Ret () u" "tx_room u (Suc k)" "bframe s u" "view u = view s"
    by (rule block_access[OF assms(1) pre]) blast
  have "sb t = sb s" using frame_icst[OF lframe_bframe[OF t(3)]] by simp
  moreover have "List.find (\<lambda>bi. content s ?n ! (bi div 8) AND bit_mask bi = 0) [0..<min BPB (fs_blocks s - b)] = None"
    using assms(6) chunk_bit(1)[OF assms(4), of _ s] fs_blocks_less[of s] by (auto simp: find_None_iff)
  ultimately show ?thesis using t u by (auto simp: fs_blocks_def)
qed

lemma find_first: "i < n \<Longrightarrow> P i \<Longrightarrow> (\<And>j. j < i \<Longrightarrow> \<not> P j) \<Longrightarrow> List.find P [0..<n] = Some i"
  by (auto simp: find_Some_iff intro!: exI[of _ i])

lemma balloc_hit:
  assumes "tx_room s (Suc (Suc k))" "may_hold s" "bitmap_ok s" "BPB dvd b" "j < BPB" "b + j < fs_blocks s"
    "\<not> used s (b + j)" "\<And>i. i < j \<Longrightarrow> used s (b + i)"
  defines "c \<equiv> b + j"
  shows "\<exists>t. balloc_loop (b # bs) 1 s = Ret (of_nat c) t \<and> tx_room t k \<and> lframe s t \<and> vown (view t) = vown (view s) \<and>
    content t (of_nat c) = replicate BSIZE 0 \<and>
    (\<forall>n. n \<noteq> of_nat c \<longrightarrow> n \<noteq> BBLOCK (of_nat c) (sb s) \<longrightarrow> content t n = content s n) \<and>
    (\<forall>x < fs_blocks s. used t x = (x = c \<or> used s x))"
proof -
  let ?n = "BBLOCK (of_nat b) (sb s)"
  let ?d = "(content s ?n)[j div 8 := content s ?n ! (j div 8) OR bit_mask j]"
  have lt: "b + j < 2 ^ 32" "c < 2 ^ 32" using assms(6) fs_blocks_less[of s] by (simp_all add: c_def)
  have c: "c < fs_blocks s" "\<not> used s c" using assms(6,7) by (simp_all add: c_def)
  have B: "?n < disksize s" "\<not> in_log (log_start s) (unat ?n)" "used s (unat ?n)" "\<not> in_log (log_start s) c" "sb_size (sb s) \<le> disksize s"
    using assms(3,6,7) fs_block_disk[OF assms(3)] by (auto simp: bitmap_ok_def c_def)
  have "b < fs_blocks s" using assms(6) by simp
  then have pre: "card (held s) + 1 \<le> Suc (Suc (Suc k))" "?n \<notin> held s" "of_nat c \<notin> held s"
    using assms(2) c(2) lt(2) unat_nat32[of c] by (auto simp: may_hold_def)
  obtain p t where t: "bread 1 ?n s = Ret p t" "bdata (bufs t ! p) = content s ?n" "length (content s ?n) = BSIZE" "bframe s t"
    "\<And>d j. length d = BSIZE \<Longrightarrow> \<not> in_log (log_start s) (unat ?n) \<Longrightarrow> Suc (Suc k) = Suc j \<Longrightarrow>
       \<exists>u v. log_write p (upd_buf p (\<lambda>k. k\<lparr>bdata := d\<rparr>) t) = Ret () u \<and> brelse p u = Ret () v \<and>
         tx_room v j \<and> lframe s v \<and> view v = (view s)\<lparr>vcontent := (vcontent (view s))(?n := d), vdirty := insert ?n (vdirty (view s))\<rparr>"
    by (rule block_access[OF assms(1) pre(1) B(1) pre(2)]) blast
  obtain u v where v: "log_write p (upd_buf p (\<lambda>k. k\<lparr>bdata := ?d\<rparr>) t) = Ret () u" "brelse p u = Ret () v" "tx_room v (Suc k)" "lframe s v"
    "view v = (view s)\<lparr>vcontent := (vcontent (view s))(?n := ?d), vdirty := insert ?n (vdirty (view s))\<rparr>"
    using t(5)[of ?d "Suc k"] t(3) B(2) by auto
  have cv: "content v = (content s)(?n := ?d)" "disksize v = disksize s" "held v = held s" "log_start v = log_start s" "sb t = sb s" "sb v = sb s"
    using v(5) ran_vown[of s] ran_vown[of v] frame_icst[OF v(4)] frame_icst[OF lframe_bframe[OF t(4)]] lframe_log[OF v(4)]
    unfolding view_sel[symmetric] by simp_all
  have nc: "(of_nat c :: uint) \<noteq> ?n" using B(3) c(2) lt unat_nat32[of c] by auto
  have dc: "of_nat c < disksize v"
    using c(1) B(5) lt by (simp add: cv word_less_nat_alt word_le_nat_alt unat_nat32 fs_blocks_def)
  have lc: "\<not> in_log (log_start v) (unat (of_nat c :: uint))" using B(4) lt by (simp add: cv unat_nat32)
  obtain w where w: "bzero 1 (of_nat c) v = Ret () w" "tx_room w k" "lframe v w"
    "view w = (view v)\<lparr>vcontent := (vcontent (view v))(of_nat c := replicate BSIZE 0), vdirty := insert (of_nat c) (vdirty (view v))\<rparr>"
    using bzero_view[OF v(3) _ _ dc lc] cv(3) pre(3) assms(2) by (auto simp: may_hold_def)
  have cw: "content w = ((content s)(?n := ?d))(of_nat c := replicate BSIZE 0)" "vown (view w) = vown (view s)" "sb w = sb s" "lframe s w"
    using w(4) v(5) cv frame_icst[OF w(3)] v(4) w(3) lframe_trans unfolding view_sel[symmetric] by auto
  have "List.find (\<lambda>bi. content s ?n ! (bi div 8) AND bit_mask bi = 0) [0..<min BPB (fs_blocks s - b)] = Some j"
  proof (rule find_first)
    show "j < min BPB (fs_blocks s - b)" using assms(5,6) by simp
    show "content s ?n ! (j div 8) AND bit_mask j = 0" using chunk_bit(1)[OF assms(4,5) lt(1), of s] assms(7) by simp
    show "content s ?n ! (i div 8) AND bit_mask i \<noteq> 0" if "i < j" for i
      using chunk_bit(1)[OF assms(4), of i s] assms(5,8) lt(1) that by simp
  qed
  moreover have "upd_buf p (\<lambda>k. k\<lparr>bdata := (bdata k)[j div 8 := bdata k ! (j div 8) OR bit_mask j]\<rparr>) t = upd_buf p (\<lambda>k. k\<lparr>bdata := ?d\<rparr>) t"
    using t(2) by (simp add: upd_buf_def)
  ultimately have e: "balloc_loop (b # bs) 1 s = Ret (of_nat c) w"
    using t(1,2) v(1,2) w(1) cv(5) by (simp add: fs_blocks_def c_def)
  have nb: "BBLOCK (of_nat c) (sb s) = ?n" using chunk_bit(2)[OF assms(4,5) lt(1)] by (simp add: c_def)
  have mc: "c mod BPB = j" using assms(4,5) by (auto simp: c_def elim!: dvdE)
  have "used w x = (x = c \<or> used s x)" if x: "x < fs_blocks s" for x
  proof -
    have nx: "BBLOCK (of_nat y) (sb s) \<noteq> of_nat c" if "y < fs_blocks s" for y
      using assms(3) c(2) that lt(2) unat_nat32[of c] by (auto simp: bitmap_ok_def)
    have "used w x = (if x = c then True else used s x)"
      by (rule used_upd[where d = ?d and b = c])
         (use nx cw nb nc c(1) x set_bit_in(1)[OF t(3) assms(5)] in \<open>auto simp: mc\<close>)
    then show ?thesis by simp
  qed
  then show ?thesis using e w(2) cw nb by auto
qed

lemma bitmap_frame:
  assumes "view t = view s" "bframe s t"
  shows "bitmap_ok t = bitmap_ok s" "fs_blocks t = fs_blocks s" "used t = used s" "held t = held s"
proof -
  note f = frame_icst[OF lframe_bframe[OF assms(2)]]
  show u: "used t = used s" by (rule used_frame[OF assms(1) f(2)])
  have "disksize t = disksize s" "log_start t = log_start s"
    using assms(1) lframe_log[OF lframe_bframe[OF assms(2)]] unfolding view_sel[symmetric] by simp_all
  then show "bitmap_ok t = bitmap_ok s" "fs_blocks t = fs_blocks s" using u f by (simp_all add: bitmap_ok_def fs_blocks_def)
  show "held t = held s" using assms(1) ran_vown[of s] ran_vown[of t] by simp
qed

lemma may_hold_frame: "view t = view s \<Longrightarrow> bframe s t \<Longrightarrow> may_hold t = may_hold s"
  using bitmap_frame[of t s] frame_icst(2)[OF lframe_bframe[of s t]] by (simp add: may_hold_def)

lemma chunks_less: "i < (n + BPB - 1) div BPB \<Longrightarrow> i * BPB < n"
  by (simp add: BPB_def BSIZE_def)

lemma balloc_from:
  assumes "i \<le> j" "j \<le> (fs_blocks s + BPB - 1) div BPB" "tx_room s (Suc k)" "may_hold s" "bitmap_ok s"
    "\<And>c. i * BPB \<le> c \<Longrightarrow> c < j * BPB \<Longrightarrow> c < fs_blocks s \<Longrightarrow> used s c"
  shows "\<exists>t. balloc_loop (map (\<lambda>i. i * BPB) [i..<(fs_blocks s + BPB - 1) div BPB]) 1 s =
      balloc_loop (map (\<lambda>i. i * BPB) [j..<(fs_blocks s + BPB - 1) div BPB]) 1 t \<and> tx_room t (Suc k) \<and> bframe s t \<and> view t = view s"
  using assms
proof (induction "j - i" arbitrary: i s)
  case 0
  then have "i = j" by simp
  moreover have "bframe s s" by (simp add: bframe_iff)
  ultimately show ?case using 0 by blast
next
  case (Suc n)
  let ?m = "(fs_blocks s + BPB - 1) div BPB"
  have i: "i < ?m" "i < j" "i * BPB < fs_blocks s" using Suc.hyps(2) Suc.prems(1,2) chunks_less[of i "fs_blocks s"] by simp_all
  then have e: "map (\<lambda>i. i * BPB) [i..<?m] = i * BPB # map (\<lambda>i. i * BPB) [Suc i..<?m]" by (simp add: upt_conv_Cons)
  have "i * BPB + BPB \<le> j * BPB" using mult_le_mono1[of "Suc i" j BPB] i(2) by simp
  then have "\<And>c. i * BPB \<le> c \<Longrightarrow> c < fs_blocks s \<Longrightarrow> c < i * BPB + BPB \<Longrightarrow> used s c" using Suc.prems(6) by simp
  from balloc_skip[OF Suc.prems(3-5) _ i(3) this, of "map (\<lambda>i. i * BPB) [Suc i..<?m]"] obtain t where t:
    "balloc_loop (map (\<lambda>i. i * BPB) [i..<?m]) 1 s = balloc_loop (map (\<lambda>i. i * BPB) [Suc i..<?m]) 1 t" "tx_room t (Suc k)" "bframe s t" "view t = view s"
    unfolding e by auto
  note f = bitmap_frame[OF t(4,3)]
  have n: "n = j - Suc i" using Suc.hyps(2) by simp
  obtain u where u: "balloc_loop (map (\<lambda>i. i * BPB) [Suc i..<?m]) 1 t = balloc_loop (map (\<lambda>i. i * BPB) [j..<?m]) 1 u" "tx_room u (Suc k)" "bframe t u" "view u = view t"
    using Suc.hyps(1)[of "Suc i" t] n Suc.prems i t(2) f may_hold_frame[OF t(4,3)] by auto
  then show ?case using t bframe_trans[OF t(3) u(3)] by auto
qed

lemma balloc_view:
  assumes "tx_room s (Suc (Suc k))" "may_hold s" "bitmap_ok s"
  shows "(\<forall>b < fs_blocks s. used s b) \<Longrightarrow> balloc 1 s = Panic ''balloc: out of blocks''"
    "c < fs_blocks s \<Longrightarrow> \<not> used s c \<Longrightarrow> \<forall>b < c. used s b \<Longrightarrow>
      \<exists>t. balloc 1 s = Ret (of_nat c) t \<and> tx_room t k \<and> lframe s t \<and> vown (view t) = vown (view s) \<and> bitmap_ok t \<and>
        content t (of_nat c) = replicate BSIZE 0 \<and>
        (\<forall>n. n \<noteq> of_nat c \<longrightarrow> n \<noteq> BBLOCK (of_nat c) (sb s) \<longrightarrow> content t n = content s n) \<and>
        (\<forall>x < fs_blocks s. used t x = (x = c \<or> used s x))"
proof -
  let ?m = "(fs_blocks s + BPB - 1) div BPB"
  have B: "balloc 1 s = balloc_loop (map (\<lambda>i. i * BPB) [0..<?m]) 1 s" by (simp add: balloc_def fs_blocks_def)
  show "(\<forall>b < fs_blocks s. used s b) \<Longrightarrow> balloc 1 s = Panic ''balloc: out of blocks''"
    using balloc_from[OF _ _ assms, of 0 ?m] B by auto
  assume c: "c < fs_blocks s" "\<not> used s c" "\<forall>b < c. used s b"
  let ?j = "c div BPB"
  have j: "?j < ?m" "?j * BPB + c mod BPB = c" "c mod BPB < BPB" "?j * BPB \<le> c"
    using c(1) by (simp_all add: BPB_def BSIZE_def)
  obtain t where t: "balloc 1 s = balloc_loop (map (\<lambda>i. i * BPB) [?j..<?m]) 1 t" "tx_room t (Suc (Suc k))" "bframe s t" "view t = view s"
    using balloc_from[OF _ _ assms, of 0 ?j] j c(3) B by auto
  note f = bitmap_frame[OF t(4,3)]
  have e: "map (\<lambda>i. i * BPB) [?j..<?m] = ?j * BPB # map (\<lambda>i. i * BPB) [Suc ?j..<?m]" using j(1) by (simp add: upt_conv_Cons)
  have st: "sb t = sb s" "content t = content s" using frame_icst[OF lframe_bframe[OF t(3)]] t(4) unfolding view_sel[symmetric] by simp_all
  have pre: "may_hold t" "bitmap_ok t" "BPB dvd ?j * BPB" "?j * BPB + c mod BPB < fs_blocks t"
    "\<not> used t (?j * BPB + c mod BPB)"
    using f assms(2,3) j c may_hold_frame[OF t(4,3)] by simp_all
  have low: "used t (?j * BPB + i)" if "i < c mod BPB" for i
    using c(3) f(3) that j(2) by (metis add_strict_left_mono)
  obtain u where u: "balloc 1 s = Ret (of_nat c) u" "tx_room u k" "lframe t u" "vown (view u) = vown (view t)" "content u (of_nat c) = replicate BSIZE 0"
    "\<forall>n. n \<noteq> of_nat c \<longrightarrow> n \<noteq> BBLOCK (of_nat c) (sb t) \<longrightarrow> content u n = content t n"
    "\<forall>x < fs_blocks t. used u x = (x = c \<or> used t x)"
    using balloc_hit[OF t(2) pre(1-3) j(3) pre(4,5) low, of "map (\<lambda>i. i * BPB) [Suc ?j..<?m]"] t(1) unfolding e j(2) by auto
  have su: "lframe s u" using lframe_trans[OF lframe_bframe[OF t(3)] u(3)] .
  have "fs_blocks u = fs_blocks s" "disksize u = disksize s" "log_start u = log_start s" "sb u = sb s"
    using frame_icst[OF su] lframe_log[OF su] by (simp_all add: fs_blocks_def)
  then have "bitmap_ok u" using assms(3) u(7) f by (auto simp: bitmap_ok_def)
  then show "\<exists>t. balloc 1 s = Ret (of_nat c) t \<and> tx_room t k \<and> lframe s t \<and> vown (view t) = vown (view s) \<and> bitmap_ok t \<and>
        content t (of_nat c) = replicate BSIZE 0 \<and>
        (\<forall>n. n \<noteq> of_nat c \<longrightarrow> n \<noteq> BBLOCK (of_nat c) (sb s) \<longrightarrow> content t n = content s n) \<and>
        (\<forall>x < fs_blocks s. used t x = (x = c \<or> used s x))"
    using u st f su t(4) by auto
qed

text \<open>
  C14.  Block allocation.  Inside a transaction with room for two blocks, \<open>balloc\<close>
  always returns, with the lowest free block: the block's bit is then set and no other bit
  changes, the block reads as zeroes, every other block but the bitmap's is as it was, and
  the bitmap still marks itself and the log.  When no block is free it panics.
\<close>

theorem balloc_first_free:
  assumes "tx_room s 2" "held s = {}" "bitmap_ok s"
  shows "((\<forall>b < fs_blocks s. used s b) \<longrightarrow> balloc 1 s = Panic ''balloc: out of blocks'') \<and>
    (\<forall>c < fs_blocks s. \<not> used s c \<longrightarrow> (\<forall>b < c. used s b) \<longrightarrow>
      (\<exists>t. balloc 1 s = Ret (of_nat c) t \<and> tx_room t 0 \<and> bitmap_ok t \<and> content t (of_nat c) = replicate BSIZE 0 \<and>
        (\<forall>n. n \<noteq> of_nat c \<longrightarrow> n \<noteq> BBLOCK (of_nat c) (sb s) \<longrightarrow> content t n = content s n) \<and>
        (\<forall>x < fs_blocks s. used t x = (x = c \<or> used s x))))"
proof -
  have pre: "tx_room s (Suc (Suc 0))" "may_hold s" using assms(1) may_hold_none[OF assms(2)] by (simp_all add: numeral_2_eq_2)
  show ?thesis using balloc_view[OF pre assms(3)] by blast
qed

text \<open>The example disk as \<open>mkfs\<close> lays it out: blocks 0 to 58 are in use, 58 is the bitmap.\<close>

definition fs_sb :: superblock where
  "fs_sb = \<lparr>sb_size = 1000, sb_nblocks = 941, sb_ninodes = 200, sb_nlog = 30, sb_logstart = 2, sb_inodestart = 32, sb_bmapstart = 58\<rparr>"

definition fs_disk :: "nat \<Rightarrow> block" where
  "fs_disk i = (if i = 58 then replicate 7 (- 1) @ 7 # replicate 504 0
     else if i = 1 then concat (map le32 [1000, 941, 200, 30, 2, 32, 58]) @ replicate 484 0 else replicate BSIZE 0)"

lemma fs_disk_ok:
  fixes ks :: "inode list"
  defines "s \<equiv> fs_example fs_disk fs_sb ks"
  shows "tx_room s 29" "held s = {}" "bitmap_ok s" "fs_blocks s = 1000" "b < 1000 \<Longrightarrow> used s b = (b < 59)" "sb s = fs_sb"
    "inodes s = ks" "content s n = fs_disk (unat n)" "log_start s = 2"
    "1 < disksize s" "read_superblock (content s 1) = sb s"
proof -
  have l: "length (fs_disk i) = BSIZE" for i by (simp add: fs_disk_def BSIZE_def)
  have z: "hdr_n (fs_disk 2) = 0" by (simp add: fs_disk_def hdr_n_def un32_def seg_def BSIZE_def numeral_eq_Suc)
  note F = fs_example_ok[of fs_disk, OF l z, of fs_sb ks, folded s_def]
  show "tx_room s 29" "held s = {}" "sb s = fs_sb" "inodes s = ks" "content s n = fs_disk (unat n)" "log_start s = 2" "1 < disksize s" using F by simp_all
  show n: "fs_blocks s = 1000" using F(7) by (simp add: fs_blocks_def fs_sb_def)
  have B: "BBLOCK (of_nat b) (sb s) = 58" if "b < 1000" for b
    using BBLOCK_nat[of b "sb s"] that F(7) by (simp add: fs_sb_def BPB_def BSIZE_def)
  show u: "used s b = (b < 59)" if "b < 1000" for b
  proof -
    have e: "used s b = bit (fs_disk 58 ! (b div 8)) (b mod 8)"
      using B[OF that] F(6) that by (simp add: used_def BPB_def BSIZE_def)
    consider "b < 56" | "56 \<le> b" "b < 64" | "64 \<le> b" by linarith
    then show ?thesis
    proof cases
      case 1
      then show ?thesis by (simp add: e fs_disk_def nth_append)
    next
      case 2
      then have "b div 8 = 7" "b mod 8 = b - 56" by presburger+
      moreover have "fs_disk 58 ! 7 = mask 3" by (simp add: fs_disk_def nth_append mask_eq_exp_minus_1)
      ultimately show ?thesis using 2 by (auto simp: e bit_mask_iff)
    next
      case 3
      then have "7 < b div 8" "b div 8 - 8 < 504" using that by simp_all
      then show ?thesis using 3 by (simp add: e fs_disk_def nth_append nth_Cons')
    qed
  qed
  show "bitmap_ok s" using F(4,5,7) B u by (simp add: bitmap_ok_def n in_log_def LOGSIZE_def MAXOPBLOCKS_def) (simp add: fs_sb_def)
  show "read_superblock (content s 1) = sb s"
    using F(6,7) by (simp add: fs_disk_def read_superblock_def fs_sb_def seg_def)
qed

lemma balloc_first_free_witness:
  "\<exists>t. balloc 1 (fs_example fs_disk fs_sb []) = Ret 59 t \<and> used t 59 \<and> \<not> used t 60 \<and> content t 59 = replicate BSIZE 0"
proof -
  note F = fs_disk_ok[where ks = "[]"] and A = balloc_first_free[OF tx_room_le[OF fs_disk_ok(1)[where ks = "[]"], of 2] fs_disk_ok(2,3)]
  show ?thesis using conjunct2[OF A, rule_format, of 59] F(4,5) by auto
qed

text \<open>
  C15.  Freeing a block.  \<open>bfree\<close> of a block in use returns and clears its bit and
  no other, changing no block but the bitmap's; freeing a block that is free already is a
  panic, never a silent second clearing.
\<close>

theorem bfree_clears:
  assumes "tx_room s 1" "held s = {}" "bitmap_ok s" "unat b < fs_blocks s" "1 < disksize s" "read_superblock (content s 1) = sb s"
  shows "if used s (unat b) then \<exists>t. bfree 1 b s = Ret () t \<and> tx_room t 0 \<and>
        (\<forall>n. n \<noteq> BBLOCK b (sb s) \<longrightarrow> content t n = content s n) \<and>
        (\<forall>x < fs_blocks s. used t x = (used s x \<and> x \<noteq> unat b))
    else bfree 1 b s = Panic ''freeing free block''"
proof -
  let ?n = "BBLOCK b (sb s)" and ?i = "unat b mod BPB"
  have pre: "card (held s) + 1 \<le> Suc 1" "1 \<notin> held s" using assms(2) by simp_all
  obtain p r s' where r: "bread 1 1 s = Ret p r" "bdata (bufs r ! p) = content s 1" "brelse p r = Ret () s'" "tx_room s' 1" "bframe s s'" "view s' = view s"
    by (rule block_access[OF assms(1) pre(1) assms(5) pre(2)]) blast
  note f = bitmap_frame[OF r(6,5)]
  have s': "sb s' = sb s" "content s' = content s" "log_start s' = log_start s" "s'\<lparr>sb := sb s\<rparr> = s'"
    using frame_icst[OF lframe_bframe[OF r(5)]] lframe_log[OF lframe_bframe[OF r(5)]] r(6) unfolding view_sel[symmetric] by simp_all
  have rs: "readsb 1 s = Ret (sb s) s'" using r(1-3) assms(6) by (simp add: readsb_def Let_def)
  have B: "?n < disksize s'" "\<not> in_log (log_start s) (unat ?n)"
    using assms(3,4) f(1,2) fs_block_disk[of s' ?n] bitmap_ok_def[of s] by (auto dest!: spec[of _ "unat b"])
  have pre': "card (held s') + 1 \<le> Suc 1" "?n \<notin> held s'" using assms(2) f by simp_all
  obtain q t where t: "bread 1 ?n s' = Ret q t" "bdata (bufs t ! q) = content s ?n" "length (content s ?n) = BSIZE"
    "\<And>d j. length d = BSIZE \<Longrightarrow> \<not> in_log (log_start s') (unat ?n) \<Longrightarrow> 1 = Suc j \<Longrightarrow>
       \<exists>u v. log_write q (upd_buf q (\<lambda>k. k\<lparr>bdata := d\<rparr>) t) = Ret () u \<and> brelse q u = Ret () v \<and>
         tx_room v j \<and> lframe s' v \<and> view v = (view s')\<lparr>vcontent := (vcontent (view s'))(?n := d), vdirty := insert ?n (vdirty (view s'))\<rparr>"
    by (rule block_access[OF r(4) pre'(1) B(1) pre'(2)]) (use s' in auto)
  have u: "content s ?n ! (?i div 8) AND bit_mask ?i = 0 \<longleftrightarrow> \<not> used s (unat b)"
    by (simp add: used_def bit_mask_and BPB_8)
  let ?d = "(content s ?n)[?i div 8 := content s ?n ! (?i div 8) AND NOT (bit_mask ?i)]"
  obtain w v where v: "log_write q (upd_buf q (\<lambda>k. k\<lparr>bdata := ?d\<rparr>) t) = Ret () w" "brelse q w = Ret () v" "tx_room v 0" "lframe s' v"
    "view v = (view s')\<lparr>vcontent := (vcontent (view s'))(?n := ?d), vdirty := insert ?n (vdirty (view s'))\<rparr>"
    using t(4)[of ?d 0] t(3) B(2) s' by auto
  have e: "upd_buf q (\<lambda>k. k\<lparr>bdata := (bdata k)[?i div 8 := bdata k ! (?i div 8) AND NOT (bit_mask ?i)]\<rparr>) t = upd_buf q (\<lambda>k. k\<lparr>bdata := ?d\<rparr>) t"
    using t(2) by (simp add: upd_buf_def)
  have cv: "content v = (content s)(?n := ?d)" "sb v = sb s" using v(5) s' frame_icst[OF v(4)] unfolding view_sel[symmetric] by simp_all
  have i: "?i < BPB" by (simp add: BPB_def BSIZE_def)
  have bf: "bfree 1 b s = (if used s (unat b) then Ret () v else Panic ''freeing free block'')"
    unfolding bfree_def Let_def rs bnd.simps s' using u t(1,2) v(1,2) by (simp add: s' e)
  have "used v x = (if x = unat b then False else used s x)" if "x < fs_blocks s" for x
    by (rule used_upd[where d = ?d]) (use cv assms(4) that set_bit_in(2)[OF t(3) i] in auto)
  then show ?thesis using bf v(3) cv by auto
qed

lemma bfree_clears_witness:
  "bfree 1 60 (fs_example fs_disk fs_sb []) = Panic ''freeing free block'' \<and>
   (\<exists>t. bfree 1 57 (fs_example fs_disk fs_sb []) = Ret () t \<and> \<not> used t 57 \<and> used t 58)"
proof -
  note F = fs_disk_ok[where ks = "[]"] and A = bfree_clears[OF tx_room_le[OF fs_disk_ok(1)[where ks = "[]"], of 1] fs_disk_ok(2,3) _ fs_disk_ok(10,11)]
  show ?thesis using A[of 60] A[of 57] F(4,5) by auto
qed

end
