(* ===== verification/Apic.thy ===== *)
theory Apic
  imports Inode
begin

text \<open>
  Interrupt controllers and processor detection: \<open>kernel/lapic.c\<close> (the local
  APIC part), \<open>kernel/ioapic.c\<close>, \<open>kernel/picirq.c\<close>,
  \<open>kernel/mp.c\<close>.

  The memory-mapped registers are functions from register index to word;
  \<open>io_out\<close> records the bytes sent to I/O ports, oldest first, and
  \<open>io_in\<close> is what the devices answer when a port is read.  The BIOS tables
  that \<open>mpinit\<close> searches are bytes of memory.
\<close>

section \<open>State\<close>

record apicst = icst +
  lapic :: uint
  lapic_reg :: "nat \<Rightarrow> uint"
  ioapicid :: byte
  ioapic_data :: "nat \<Rightarrow> uint"
  io_out :: "(ushort \<times> byte) list"
  io_in :: "ushort \<Rightarrow> byte"

definition outb :: "ushort \<Rightarrow> byte \<Rightarrow> ('x) apicst_scheme \<Rightarrow> ('x) apicst_scheme" where
  "outb port v s = s\<lparr>io_out := io_out s @ [(port, v)]\<rparr>"

definition inb :: "ushort \<Rightarrow> ('x) apicst_scheme \<Rightarrow> byte" where
  "inb port s = io_in s port"

definition T_IRQ0 :: uint where "T_IRQ0 = 32"
definition IRQ_TIMER :: uint where "IRQ_TIMER = 0"
definition IRQ_KBD :: uint where "IRQ_KBD = 1"
definition IRQ_COM1 :: uint where "IRQ_COM1 = 4"
definition IRQ_COM2 :: uint where "IRQ_COM2 = 3"
definition IRQ_IDE :: uint where "IRQ_IDE = 14"
definition IRQ_ERROR :: uint where "IRQ_ERROR = 19"
definition IRQ_SPURIOUS :: uint where "IRQ_SPURIOUS = 31"
definition IRQ_SPURIOUS1 :: uint where "IRQ_SPURIOUS1 = 87"

section \<open>The local APIC\<close>

definition lapicw :: "nat \<Rightarrow> uint \<Rightarrow> ('x) apicst_scheme \<Rightarrow> ('x) apicst_scheme" where
  "lapicw index v s = s\<lparr>lapic_reg := (lapic_reg s)(index := v)\<rparr>"

text \<open>
  The wait for \<open>DELIVS\<close> to clear: a bit that stays set keeps the loop
  running.
\<close>

definition lapicinit :: "('x) apicst_scheme \<Rightarrow> (('x) apicst_scheme, unit) outcome" where
  "lapicinit s =
     (if lapic s = 0 then Ret () s
      else
        let s = lapicw (0xF0 div 4) (0x100 OR (T_IRQ0 + IRQ_SPURIOUS)) s;
            s = lapicw (0x3E0 div 4) 0xB s;
            s = lapicw (0x320 div 4) (0x20000 OR (T_IRQ0 + IRQ_TIMER)) s;
            s = lapicw (0x380 div 4) 10000000 s;
            s = lapicw (0x350 div 4) 0x10000 s;
            s = lapicw (0x360 div 4) 0x10000 s;
            s = (if drop_bit 16 (lapic_reg s (0x30 div 4)) AND 0xFF \<ge> 4 then lapicw (0x340 div 4) 0x10000 s else s);
            s = lapicw (0x370 div 4) (T_IRQ0 + IRQ_ERROR) s;
            s = lapicw (0x280 div 4) 0 s;
            s = lapicw (0x280 div 4) 0 s;
            s = lapicw (0xB0 div 4) 0 s;
            s = lapicw (0x310 div 4) 0 s;
            s = lapicw (0x300 div 4) (0x80000 OR 0x500 OR 0x8000) s in
        if lapic_reg s (0x300 div 4) AND 0x1000 \<noteq> 0 then OutOfFuel
        else
          let s = lapicw (0x80 div 4) 0 s in
          Ret () (initlock L_cmos ''cmostime'' s))"

definition lapicid :: "('x) apicst_scheme \<Rightarrow> uint" where
  "lapicid s = (if lapic s = 0 then 0 else drop_bit 24 (lapic_reg s (0x20 div 4)))"

definition lapiceoi :: "('x) apicst_scheme \<Rightarrow> ('x) apicst_scheme" where
  "lapiceoi s = (if lapic s \<noteq> 0 then lapicw (0xB0 div 4) 0 s else s)"

text \<open>\<open>lapicstartap\<close>; \<open>microdelay\<close> has an empty body.\<close>

definition lapicstartap :: "byte \<Rightarrow> uint \<Rightarrow> ('x) apicst_scheme \<Rightarrow> ('x) apicst_scheme" where
  "lapicstartap apic addr s =
     (let s = outb 0x70 0xF s;
          s = outb 0x71 0x0A s;
          wrv = P2V (push_bit 4 0x40 OR 0x67);
          s = s\<lparr>mem := write_bytes wrv (le16 0) (mem s)\<rparr>;
          s = s\<lparr>mem := write_bytes (wrv + 2) (le16 (ucast (drop_bit 4 addr))) (mem s)\<rparr>;
          s = lapicw (0x310 div 4) (push_bit 24 (ucast apic)) s;
          s = lapicw (0x300 div 4) (0x500 OR 0x8000 OR 0x4000) s;
          s = lapicw (0x300 div 4) (0x500 OR 0x8000) s;
          s = lapicw (0x310 div 4) (push_bit 24 (ucast apic)) s;
          s = lapicw (0x300 div 4) (0x600 OR drop_bit 12 addr) s;
          s = lapicw (0x310 div 4) (push_bit 24 (ucast apic)) s in
      lapicw (0x300 div 4) (0x600 OR drop_bit 12 addr) s)"

section \<open>The I/O APIC and the legacy controller\<close>

definition ioapicread :: "nat \<Rightarrow> ('x) apicst_scheme \<Rightarrow> uint" where
  "ioapicread reg s = ioapic_data s reg"

definition ioapicwrite :: "nat \<Rightarrow> uint \<Rightarrow> ('x) apicst_scheme \<Rightarrow> ('x) apicst_scheme" where
  "ioapicwrite reg v s = s\<lparr>ioapic_data := (ioapic_data s)(reg := v)\<rparr>"

definition REG_TABLE :: nat where "REG_TABLE = 0x10"
definition INT_DISABLED :: uint where "INT_DISABLED = 0x10000"

fun ioapicinit_loop :: "nat list \<Rightarrow> ('x) apicst_scheme \<Rightarrow> ('x) apicst_scheme" where
  "ioapicinit_loop [] s = s"
| "ioapicinit_loop (i # js) s =
     (let s = ioapicwrite (REG_TABLE + 2 * i) (INT_DISABLED OR (T_IRQ0 + of_nat i)) s;
          s = ioapicwrite (REG_TABLE + 2 * i + 1) 0 s in
      ioapicinit_loop js s)"

text \<open>Without the message about an unexpected identifier.\<close>

definition ioapicinit :: "('x) apicst_scheme \<Rightarrow> ('x) apicst_scheme" where
  "ioapicinit s =
     (let maxintr = unat (drop_bit 16 (ioapicread 1 s) AND 0xFF) in
      ioapicinit_loop [0..<Suc maxintr] s)"

definition ioapicenable :: "uint \<Rightarrow> uint \<Rightarrow> ('x) apicst_scheme \<Rightarrow> ('x) apicst_scheme" where
  "ioapicenable irq cpunum s =
     (let s = ioapicwrite (REG_TABLE + 2 * unat irq) (T_IRQ0 + irq) s in
      ioapicwrite (REG_TABLE + 2 * unat irq + 1) (push_bit 24 cpunum) s)"

definition picinit :: "('x) apicst_scheme \<Rightarrow> ('x) apicst_scheme" where
  "picinit s = outb 0xA1 0xFF (outb 0x21 0xFF s)"

section \<open>Detecting processors\<close>

definition NCPU :: nat where "NCPU = 8"

definition mem_bytes :: "memory \<Rightarrow> uint \<Rightarrow> nat \<Rightarrow> byte list" where
  "mem_bytes m a n = map (\<lambda>i. m (a + of_nat i)) [0..<n]"

definition mp_sum :: "memory \<Rightarrow> uint \<Rightarrow> nat \<Rightarrow> byte" where
  "mp_sum m a n = sum_list (mem_bytes m a n)"

text \<open>The floating pointer structure has 16 bytes.\<close>

definition mpsearch1 :: "memory \<Rightarrow> uint \<Rightarrow> nat \<Rightarrow> uint option" where
  "mpsearch1 m a len =
     List.find (\<lambda>p. mem_bytes m p 4 = [95, 77, 80, 95] \<and> mp_sum m p 16 = 0)
       (map (\<lambda>i. P2V a + 16 * of_nat i) [0..<(len + 15) div 16])"

definition mpsearch :: "memory \<Rightarrow> uint option" where
  "mpsearch m =
     (let bda = P2V 0x400;
          p = push_bit 4 (push_bit 8 (ucast (m (bda + 0x0F))) OR ucast (m (bda + 0x0E))) :: uint;
          q = (push_bit 8 (ucast (m (bda + 0x14))) OR ucast (m (bda + 0x13))) * 1024 :: uint;
          r = (if p \<noteq> 0 then mpsearch1 m p 1024 else mpsearch1 m (q - 1024) 1024) in
      case r of Some mp \<Rightarrow> Some mp | None \<Rightarrow> mpsearch1 m 0xF0000 0x10000)"

text \<open>\<open>mpconfig\<close>: the addresses of the pointer structure and of the table.\<close>

definition mpconfig :: "memory \<Rightarrow> (uint \<times> uint) option" where
  "mpconfig m =
     (case mpsearch m of None \<Rightarrow> None
      | Some mp \<Rightarrow>
        if load32 (mp + 4) m = 0 then None
        else
          let conf = P2V (load32 (mp + 4) m) in
          if mem_bytes m conf 4 \<noteq> [80, 67, 77, 80] then None
          else if m (conf + 6) \<noteq> 1 \<and> m (conf + 6) \<noteq> 4 then None
          else if mp_sum m conf (unat (un16 (mem_bytes m (conf + 4) 2))) \<noteq> 0 then None
          else Some (mp, conf))"

text \<open>
  The walk over the table entries from \<open>p\<close> to \<open>e\<close>.  An entry of an
  unknown type does not move \<open>p\<close>: the \<open>break\<close> leaves the
  \<open>switch\<close> only.  The table is at most \<open>2 ^ 16\<close> bytes long and every
  known entry has 8 bytes or more, so \<open>2 ^ 13\<close> iterations reach its end.
\<close>

fun mpinit_loop :: "nat \<Rightarrow> uint \<Rightarrow> uint \<Rightarrow> bool \<Rightarrow> ('x) apicst_scheme \<Rightarrow> (('x) apicst_scheme, bool) outcome" where
  "mpinit_loop 0 p e ismp s = (if p < e then OutOfFuel else Ret ismp s)"
| "mpinit_loop (Suc n) p e ismp s =
     (if p < e
      then
        let ty = mem s p in
        if ty = 0
        then
          let s = (if ncpu s < NCPU
                   then let s = upd_cpu (ncpu s) (\<lambda>c. c\<lparr>apicid := mem s (p + 1)\<rparr>) s in s\<lparr>ncpu := ncpu s + 1\<rparr>
                   else s) in
          mpinit_loop n (p + 20) e ismp s
        else if ty = 2 then mpinit_loop n (p + 8) e ismp (s\<lparr>ioapicid := mem s (p + 1)\<rparr>)
        else if ty = 1 \<or> ty = 3 \<or> ty = 4 then mpinit_loop n (p + 8) e ismp s
        else mpinit_loop n p e False s
      else Ret ismp s)"

definition mpinit :: "('x) apicst_scheme \<Rightarrow> (('x) apicst_scheme, unit) outcome" where
  "mpinit s =
     (case mpconfig (mem s) of None \<Rightarrow> Panic ''Expect to run on an SMP''
      | Some (mp, conf) \<Rightarrow>
        let s = s\<lparr>lapic := load32 (conf + 36) (mem s)\<rparr>;
            e = conf + ucast (un16 (mem_bytes (mem s) (conf + 4) 2)) in
        bnd (mpinit_loop (2 ^ 13) (conf + 44) e True s) (\<lambda>ismp s.
        if \<not> ismp then Panic (''Didn'' @ [CHR 0x27] @ ''t find a suitable machine'')
        else
          let s = (if mem s (mp + 12) \<noteq> 0
                   then let s = outb 0x22 0x70 s in outb 0x23 (inb 0x23 s OR 1) s
                   else s) in
          Ret () s))"

end
