(* ===== verification/Console.thy ===== *)
theory Console
  imports Apic
begin

text \<open>
  The console: \<open>kernel/console.c\<close>, \<open>kernel/kbd.c\<close> and
  \<open>uartputc\<close> of \<open>kernel/uart.c\<close>, in the configuration of
  \<open>hwinit.h\<close> (\<open>HW3\<close> off).

  Output goes to the CGA screen (\<open>crt\<close> and the cursor register
  \<open>crt_pos\<close>) and to the serial line (\<open>uart_out\<close>, what was sent, oldest
  first).  Input arrives as the list of characters \<open>getc\<close> returns before it
  returns -1.  Kernel code that fills a user buffer returns the bytes; the caller
  stores them.

  Not modelled: the wait for the serial line to drain, what \<open>panic\<close> prints.
\<close>

section \<open>State\<close>

datatype devfn = DEV_CONSOLE

record consst = apicst +
  cons_locking :: bool
  panicked :: bool
  in_buf :: "byte list"
  in_r :: uint
  in_w :: uint
  in_e :: uint
  crt :: "ushort list"
  crt_pos :: ushort
  uart_on :: bool
  uart_out :: "byte list"
  devsw :: "devfn option list"

definition INPUT_BUF :: uint where "INPUT_BUF = 128"
definition BACKSPACE :: nat where "BACKSPACE = 0x100"
definition CONSOLE :: nat where "CONSOLE = 1"
definition NDEV :: nat where "NDEV = 10"

section \<open>Output\<close>

definition uartputc :: "nat \<Rightarrow> ('x) consst_scheme \<Rightarrow> ('x) consst_scheme" where
  "uartputc c s = (if \<not> uart_on s then s else s\<lparr>uart_out := uart_out s @ [of_nat c]\<rparr>)"

definition COM1 :: ushort where "COM1 = 0x3F8"

fun uartputs :: "byte list \<Rightarrow> ('x) consst_scheme \<Rightarrow> ('x) consst_scheme" where
  "uartputs [] s = s"
| "uartputs (c # cs) s = uartputs cs (uartputc (unat c) s)"

definition uartinit :: "('x) consst_scheme \<Rightarrow> ('x) consst_scheme" where
  "uartinit s =
     (let s = outb (COM1 + 2) 0 s;
          s = outb (COM1 + 3) 0x80 s;
          s = outb (COM1 + 0) 12 s;
          s = outb (COM1 + 1) 0 s;
          s = outb (COM1 + 3) 0x03 s;
          s = outb (COM1 + 4) 0 s;
          s = outb (COM1 + 1) 0x01 s in
      if inb (COM1 + 5) s = 0xFF then s
      else
        let s = s\<lparr>uart_on := True\<rparr>;
            s = ioapicenable IRQ_COM1 0 s in
        uartputs [120, 118, 54, 46, 46, 46, 10] s)"

definition cgaputc :: "nat \<Rightarrow> ('x) consst_scheme \<Rightarrow> (('x) consst_scheme, unit) outcome" where
  "cgaputc c s =
     (let pos = unat (crt_pos s);
          (pos, s) = (if c = 10 then (pos + (80 - pos mod 80), s)
                      else if c = BACKSPACE then (if pos > 0 then pos - 1 else pos, s)
                      else (pos + 1, s\<lparr>crt := (crt s)[pos := (of_nat c AND 0xFF) OR 0x0700]\<rparr>)) in
      if pos > 25 * 80 then Panic ''pos under/overflow''
      else
        let (pos, s) = (if pos div 80 \<ge> 24
                        then let s = s\<lparr>crt := blit 0 (seg 80 (23 * 80) (crt s)) (crt s)\<rparr>;
                                 pos = pos - 80 in
                             (pos, s\<lparr>crt := blit pos (replicate (24 * 80 - pos) 0) (crt s)\<rparr>)
                        else (pos, s));
            s = s\<lparr>crt_pos := of_nat pos\<rparr> in
        Ret () (s\<lparr>crt := (crt s)[pos := 0x20 OR 0x0700]\<rparr>))"

definition consputc :: "nat \<Rightarrow> ('x) consst_scheme \<Rightarrow> (('x) consst_scheme, unit) outcome" where
  "consputc c s =
     (if panicked s then OutOfFuel
      else
        let s = (if c = BACKSPACE then uartputc 8 (uartputc 0x20 (uartputc 8 s)) else uartputc c s) in
        cgaputc c s)"

fun consputs :: "nat list \<Rightarrow> ('x) consst_scheme \<Rightarrow> (('x) consst_scheme, unit) outcome" where
  "consputs [] s = Ret () s"
| "consputs (c # cs) s = bnd (consputc c s) (\<lambda>_ s. consputs cs s)"

text \<open>
  \<open>printint\<close> collects digits in \<open>buf\<close>, least significant first, and
  prints them backwards; \<open>printint_digits\<close> is what it prints.
\<close>

definition digit :: "nat \<Rightarrow> byte" where
  "digit d = (if d < 10 then 48 + of_nat d else 97 + of_nat (d - 10))"

function digits_rev :: "nat \<Rightarrow> nat \<Rightarrow> byte list" where
  "digits_rev base x =
     digit (x mod base) # (if x div base = 0 \<or> base < 2 then [] else digits_rev base (x div base))"
  by pat_completeness auto
termination
  by (relation "measure snd") (auto simp: not_less intro!: div_less_dividend intro: gr_zeroI)

declare digits_rev.simps [simp del]

definition printint_digits :: "uint \<Rightarrow> nat \<Rightarrow> bool \<Rightarrow> byte list" where
  "printint_digits xx base sign =
     (let neg = (sign \<and> sint xx < 0);
          x = (if neg then - xx else xx) in
      rev (digits_rev base (unat x) @ (if neg then [45] else [])))"

definition printint :: "uint \<Rightarrow> nat \<Rightarrow> bool \<Rightarrow> ('x) consst_scheme \<Rightarrow> (('x) consst_scheme, unit) outcome" where
  "printint xx base sign s = consputs (map unat (printint_digits xx base sign)) s"

datatype parg = PInt uint | PStr "byte list option"

definition parg_int :: "parg list \<Rightarrow> uint" where
  "parg_int as = (case as of PInt v # _ \<Rightarrow> v | _ \<Rightarrow> 0)"

definition parg_str :: "parg list \<Rightarrow> byte list" where
  "parg_str as = (case as of PStr (Some t) # _ \<Rightarrow> cstr t | _ \<Rightarrow> [40, 110, 117, 108, 108, 41])"

fun cprintf_body :: "byte list \<Rightarrow> parg list \<Rightarrow> ('x) consst_scheme \<Rightarrow> (('x) consst_scheme, unit) outcome" where
  "cprintf_body [] as s = Ret () s"
| "cprintf_body (c # fmt) as s =
     (if c = 0 then Ret () s
      else if c \<noteq> 37 then bnd (consputc (unat c) s) (\<lambda>_ s. cprintf_body fmt as s)
      else case fmt of
          [] \<Rightarrow> Ret () s
        | d # fmt \<Rightarrow>
          if d = 0 then Ret () s
          else if d = 100 then bnd (printint (parg_int as) 10 True s) (\<lambda>_ s. cprintf_body fmt (tl as) s)
          else if d = 120 \<or> d = 112 then bnd (printint (parg_int as) 16 False s) (\<lambda>_ s. cprintf_body fmt (tl as) s)
          else if d = 115 then bnd (consputs (map unat (parg_str as)) s) (\<lambda>_ s. cprintf_body fmt (tl as) s)
          else if d = 37 then bnd (consputc 37 s) (\<lambda>_ s. cprintf_body fmt as s)
          else bnd (consputc 37 s) (\<lambda>_ s. bnd (consputc (unat d) s) (\<lambda>_ s. cprintf_body fmt as s)))"

definition cprintf :: "byte list \<Rightarrow> parg list \<Rightarrow> ('x) consst_scheme \<Rightarrow> (('x) consst_scheme, unit) outcome" where
  "cprintf fmt as s =
     (let locking = cons_locking s in
      bnd (if locking then acquire L_cons s else Ret () s) (\<lambda>_ s.
      bnd (cprintf_body fmt as s) (\<lambda>_ s.
      if locking then release L_cons s else Ret () s)))"

definition asc :: "string \<Rightarrow> byte list" where
  "asc t = map (\<lambda>c. of_nat (of_char c)) t"

section \<open>The process listing\<close>

text \<open>\<open>ebp[1]\<close> is the saved program counter of a frame and \<open>ebp[0]\<close> the frame of its caller.\<close>

fun getcallerpcs_loop :: "nat \<Rightarrow> uint \<Rightarrow> ('x) kmem_scheme \<Rightarrow> uint list" where
  "getcallerpcs_loop 0 ebp s = []"
| "getcallerpcs_loop (Suc n) ebp s =
     (if ebp = 0 \<or> ebp < KERNBASE \<or> ebp = 0xFFFFFFFF then replicate (Suc n) 0
      else rd32 (ebp + 4) s # getcallerpcs_loop n (rd32 ebp s) s)"

definition getcallerpcs :: "uint \<Rightarrow> ('x) kmem_scheme \<Rightarrow> uint list" where
  "getcallerpcs v s = getcallerpcs_loop 10 (v - 8) s"

fun state_name :: "procstate \<Rightarrow> string" where
  "state_name UNUSED = ''unused''"
| "state_name EMBRYO = ''embryo''"
| "state_name SLEEPING = ''sleep ''"
| "state_name RUNNABLE = ''runble''"
| "state_name RUNNING = ''run   ''"
| "state_name ZOMBIE = ''zombie''"

fun procdump_pcs :: "uint list \<Rightarrow> ('x) consst_scheme \<Rightarrow> (('x) consst_scheme, unit) outcome" where
  "procdump_pcs [] s = Ret () s"
| "procdump_pcs (pc # pcs) s =
     (if pc = 0 then Ret () s
      else bnd (cprintf (asc '' %p'') [PInt pc] s) (\<lambda>_ s. procdump_pcs pcs s))"

text \<open>12 is the offset of \<open>ebp\<close> in \<open>struct context\<close>.\<close>

fun procdump_loop :: "proc list \<Rightarrow> ('x) consst_scheme \<Rightarrow> (('x) consst_scheme, unit) outcome" where
  "procdump_loop [] s = Ret () s"
| "procdump_loop (p # ps) s =
     (if pstate p = UNUSED then procdump_loop ps s
      else
        bnd (cprintf (asc ''%d %s %s'') [PInt (pid p), PStr (Some (asc (state_name (pstate p)) @ [0])), PStr (Some (pname p))] s) (\<lambda>_ s.
        bnd (if pstate p = SLEEPING then procdump_pcs (getcallerpcs (rd32 (pcontext p + 12) s + 8) s) s else Ret () s) (\<lambda>_ s.
        bnd (cprintf [10] [] s) (\<lambda>_ s.
        procdump_loop ps s))))"

definition procdump :: "('x) consst_scheme \<Rightarrow> (('x) consst_scheme, unit) outcome" where
  "procdump s = procdump_loop (procs s) s"

section \<open>Input\<close>

text \<open>The argument counts \<open>input.e - input.w\<close>, the characters that may be erased.\<close>

fun kill_line :: "nat \<Rightarrow> ('x) consst_scheme \<Rightarrow> (('x) consst_scheme, unit) outcome" where
  "kill_line 0 s = Ret () s"
| "kill_line (Suc n) s =
     (if in_buf s ! unat ((in_e s - 1) mod INPUT_BUF) \<noteq> 10
      then bnd (consputc BACKSPACE (s\<lparr>in_e := in_e s - 1\<rparr>)) (\<lambda>_ s. kill_line n s)
      else Ret () s)"

definition consoleintr_char :: "byte \<Rightarrow> ('x) consst_scheme \<Rightarrow> (('x) consst_scheme, unit) outcome" where
  "consoleintr_char c s =
     (if c = 0x10 then Ret () s
      else if c = 0x15 then kill_line (unat (in_e s - in_w s)) s
      else if c = 8 \<or> c = 0x7F
      then if in_e s \<noteq> in_w s then consputc BACKSPACE (s\<lparr>in_e := in_e s - 1\<rparr>) else Ret () s
      else if c \<noteq> 0 \<and> in_e s - in_r s < INPUT_BUF
      then
        let c = (if c = 13 then 10 else c);
            s = s\<lparr>in_buf := (in_buf s)[unat (in_e s mod INPUT_BUF) := c], in_e := in_e s + 1\<rparr> in
        bnd (consputc (unat c) s) (\<lambda>_ s.
        if c = 10 \<or> c = 4 \<or> in_e s = in_r s + INPUT_BUF
        then let s = s\<lparr>in_w := in_e s\<rparr> in wakeup Ch_input s
        else Ret () s)
      else Ret () s)"

fun consoleintr_loop :: "byte list \<Rightarrow> ('x) consst_scheme \<Rightarrow> (('x) consst_scheme, unit) outcome" where
  "consoleintr_loop [] s = Ret () s"
| "consoleintr_loop (c # cs) s = bnd (consoleintr_char c s) (\<lambda>_ s. consoleintr_loop cs s)"

definition consoleintr :: "byte list \<Rightarrow> ('x) consst_scheme \<Rightarrow> (('x) consst_scheme, unit) outcome" where
  "consoleintr cs s =
     bnd (acquire L_cons s) (\<lambda>_ s.
     bnd (consoleintr_loop cs s) (\<lambda>_ s.
     bnd (release L_cons s) (\<lambda>_ s.
     if 0x10 \<in> set cs then procdump s else Ret () s)))"

text \<open>
  \<open>uartintr\<close> takes the characters the serial line holds; \<open>uartgetc\<close>
  returns -1 when there is no serial line.
\<close>

definition uartintr :: "byte list \<Rightarrow> ('x) consst_scheme \<Rightarrow> (('x) consst_scheme, unit) outcome" where
  "uartintr cs s = consoleintr (if uart_on s then cs else []) s"

section \<open>The device\<close>

text \<open>
  \<open>consoleread\<close> with \<open>n\<close> bytes still to read and \<open>acc\<close> read so far,
  holding the console lock.  When it has to wait it switches away;
  \<open>consoleread_resume\<close> goes on from there.
\<close>

fun consoleread_loop :: "nat \<Rightarrow> nat \<Rightarrow> byte list \<Rightarrow> nat \<Rightarrow> ('x) consst_scheme \<Rightarrow> (('x) consst_scheme, int \<times> byte list) outcome" where
  "consoleread_loop 0 target acc ip s =
     bnd (release L_cons s) (\<lambda>_ s. bnd (ilock ip s) (\<lambda>_ s. Ret (int target, acc) s))"
| "consoleread_loop (Suc n) target acc ip s =
     (if in_r s = in_w s
      then bnd (myproc s) (\<lambda>p s.
        case p of None \<Rightarrow> Fault 64
        | Some p \<Rightarrow>
          if killed (procs s ! p)
          then bnd (release L_cons s) (\<lambda>_ s. bnd (ilock ip s) (\<lambda>_ s. Ret (- 1, acc) s))
          else bnd (sleep Ch_input L_cons s) (\<lambda>_ s. OutOfFuel))
      else
        let c = in_buf s ! unat (in_r s mod INPUT_BUF);
            s = s\<lparr>in_r := in_r s + 1\<rparr> in
        if c = 4
        then let s = (if Suc n < target then s\<lparr>in_r := in_r s - 1\<rparr> else s) in
          bnd (release L_cons s) (\<lambda>_ s. bnd (ilock ip s) (\<lambda>_ s. Ret (int target - int (Suc n), acc) s))
        else if c = 10
        then bnd (release L_cons s) (\<lambda>_ s. bnd (ilock ip s) (\<lambda>_ s. Ret (int target - int n, acc @ [c]) s))
        else consoleread_loop n target (acc @ [c]) ip s)"

definition consoleread :: "nat \<Rightarrow> nat \<Rightarrow> ('x) consst_scheme \<Rightarrow> (('x) consst_scheme, int \<times> byte list) outcome" where
  "consoleread ip n s =
     bnd (iunlock ip s) (\<lambda>_ s.
     bnd (acquire L_cons s) (\<lambda>_ s.
     consoleread_loop n n [] ip s))"

definition consoleread_resume ::
  "nat \<Rightarrow> bool \<Rightarrow> nat \<Rightarrow> nat \<Rightarrow> byte list \<Rightarrow> nat \<Rightarrow> ('x) consst_scheme \<Rightarrow> (('x) consst_scheme, int \<times> byte list) outcome" where
  "consoleread_resume p ie n target acc ip s =
     bnd (sleep_resume p ie L_cons s) (\<lambda>_ s. consoleread_loop n target acc ip s)"

definition consolewrite :: "nat \<Rightarrow> byte list \<Rightarrow> ('x) consst_scheme \<Rightarrow> (('x) consst_scheme, int) outcome" where
  "consolewrite ip buf s =
     bnd (iunlock ip s) (\<lambda>_ s.
     bnd (acquire L_cons s) (\<lambda>_ s.
     bnd (consputs (map unat buf) s) (\<lambda>_ s.
     bnd (release L_cons s) (\<lambda>_ s.
     bnd (ilock ip s) (\<lambda>_ s.
     Ret (int (length buf)) s)))))"

definition consoleinit :: "('x) consst_scheme \<Rightarrow> ('x) consst_scheme" where
  "consoleinit s =
     (let s = initlock L_cons ''console'' s;
          s = s\<lparr>devsw := (devsw s)[CONSOLE := Some DEV_CONSOLE]\<rparr> in
      ioapicenable IRQ_KBD 0 (s\<lparr>cons_locking := True\<rparr>))"

section \<open>The keyboard\<close>

definition K_SHIFT :: byte where "K_SHIFT = 1"
definition K_CTL :: byte where "K_CTL = 2"
definition K_ALT :: byte where "K_ALT = 4"
definition K_CAPSLOCK :: byte where "K_CAPSLOCK = 8"
definition K_NUMLOCK :: byte where "K_NUMLOCK = 16"
definition K_SCROLLLOCK :: byte where "K_SCROLLLOCK = 32"
definition K_E0ESC :: byte where "K_E0ESC = 64"

definition shiftcode :: "byte \<Rightarrow> byte" where
  "shiftcode d =
     (if d = 0x1D then K_CTL else if d = 0x2A then K_SHIFT else if d = 0x36 then K_SHIFT
      else if d = 0x38 then K_ALT else if d = 0x9D then K_CTL else if d = 0xB8 then K_ALT else 0)"

definition togglecode :: "byte \<Rightarrow> byte" where
  "togglecode d =
     (if d = 0x3A then K_CAPSLOCK else if d = 0x45 then K_NUMLOCK else if d = 0x46 then K_SCROLLLOCK else 0)"

definition special_keys :: "byte \<Rightarrow> byte" where
  "special_keys d =
     (if d = 0xC8 then 0xE2 else if d = 0xD0 then 0xE3 else if d = 0xC9 then 0xE6 else if d = 0xD1 then 0xE7
      else if d = 0xCB then 0xE4 else if d = 0xCD then 0xE5 else if d = 0x97 then 0xE0 else if d = 0xCF then 0xE1
      else if d = 0xD2 then 0xE8 else if d = 0xD3 then 0xE9 else 0)"

definition keypad :: "byte list" where
  "keypad = replicate 13 0 @ asc ''789-456+1230.''"

definition normal_table :: "byte list" where
  "normal_table =
     [0, 0x1B] @ asc ''1234567890-='' @ [8, 9] @ asc ''qwertyuiop[]'' @ [10, 0] @
     asc ''asdfghjkl;'' @ [39, 96, 0, 92] @ asc ''zxcvbnm,./'' @ [0] @ asc ''*'' @ [0] @ asc '' '' @ keypad"

definition shift_table :: "byte list" where
  "shift_table =
     [0, 27] @ asc ''!@#$%^&*()_+'' @ [8, 9] @ asc ''QWERTYUIOP{}'' @ [10, 0] @
     asc ''ASDFGHJKL:'' @ [34, 126, 0, 124] @ asc ''ZXCVBNM<>?'' @ [0] @ asc ''*'' @ [0] @ asc '' '' @ keypad"

definition ctl_table :: "byte list" where
  "ctl_table =
     replicate 16 0 @ map (\<lambda>c. c - 64) (asc ''QWERTYUIOP'') @ [0, 0, 13, 0] @ map (\<lambda>c. c - 64) (asc ''ASDFGHJKL'') @
     [0, 0, 0, 0, 92 - 64] @ map (\<lambda>c. c - 64) (asc ''ZXCVBNM'') @ [0, 0, 47 - 64, 0, 0]"

definition look :: "byte list \<Rightarrow> byte \<Rightarrow> byte \<Rightarrow> byte \<Rightarrow> byte" where
  "look tab enter slash d =
     (if unat d < length tab then tab ! unat d else if d = 0x9C then enter else if d = 0xB5 then slash else special_keys d)"

definition normalmap :: "byte \<Rightarrow> byte" where "normalmap = look normal_table 10 47"
definition shiftmap :: "byte \<Rightarrow> byte" where "shiftmap = look shift_table 10 47"
definition ctlmap :: "byte \<Rightarrow> byte" where "ctlmap = look ctl_table 13 (47 - 64)"

definition charcode :: "byte \<Rightarrow> byte \<Rightarrow> byte" where
  "charcode sh = (if sh = 0 then normalmap else if sh = 1 then shiftmap else ctlmap)"

text \<open>
  \<open>kbdgetc\<close>: the status port says whether there is data.  The result is the
  character, or \<open>None\<close> for -1, and the new value of the static \<open>shift\<close>.
\<close>

definition kbdgetc :: "byte \<Rightarrow> byte option \<Rightarrow> byte option \<times> byte" where
  "kbdgetc shift port =
     (case port of None \<Rightarrow> (None, shift)
      | Some data \<Rightarrow>
        if data = 0xE0 then (Some 0, shift OR K_E0ESC)
        else if data AND 0x80 \<noteq> 0
        then let data = (if shift AND K_E0ESC \<noteq> 0 then data else data AND 0x7F) in
             (Some 0, shift AND NOT (shiftcode data OR K_E0ESC))
        else
          let (data, shift) = (if shift AND K_E0ESC \<noteq> 0 then (data OR 0x80, shift AND NOT K_E0ESC) else (data, shift));
              shift = shift OR shiftcode data;
              shift = shift XOR togglecode data;
              c = charcode (shift AND (K_CTL OR K_SHIFT)) data;
              c = (if shift AND K_CAPSLOCK \<noteq> 0
                   then if 97 \<le> c \<and> c \<le> 122 then c + 65 - 97
                        else if 65 \<le> c \<and> c \<le> 90 then c + 97 - 65 else c
                   else c) in
          (Some c, shift))"

fun kbd_chars :: "byte \<Rightarrow> byte list \<Rightarrow> byte list \<times> byte" where
  "kbd_chars shift [] = ([], shift)"
| "kbd_chars shift (d # ds) =
     (case kbdgetc shift (Some d) of
        (Some c, shift) \<Rightarrow> (case kbd_chars shift ds of (cs, shift) \<Rightarrow> (c # cs, shift))
      | (None, shift) \<Rightarrow> ([], shift))"

definition kbdintr :: "byte \<Rightarrow> byte list \<Rightarrow> ('x) consst_scheme \<Rightarrow> (('x) consst_scheme, byte) outcome" where
  "kbdintr shift codes s =
     (case kbd_chars shift codes of (cs, shift) \<Rightarrow> bnd (consoleintr cs s) (\<lambda>_ s. Ret shift s))"

end
