(* ===== verification/Frames.thy ===== *)
theory Frames
  imports Calm
begin

text \<open>
  What locks and the scheduler leave alone: the bytes of memory, and every part of the state
  that lies above the process table (sleep locks, buffers, the log, inodes, devices, files).
\<close>

definition same :: "('x) ptab_scheme \<Rightarrow> ('x) ptab_scheme \<Rightarrow> bool" where
  "same s t \<longleftrightarrow> mem t = mem s \<and> ptab.more t = ptab.more s"

lemma same_refl [simp]: "same s s"
  by (simp add: same_def)

lemma same_trans: "same s t \<Longrightarrow> same t u \<Longrightarrow> same s u"
  by (simp add: same_def)

lemma same_frame: "frame s t \<Longrightarrow> same s t"
  by (cases s; cases t) (simp add: frame_def same_def)

lemma same_lock: "acquire l s = Ret u t \<Longrightarrow> same s t" "release l s = Ret u t \<Longrightarrow> same s t"
  using same_frame frame_acquire frame_release by blast+

lemma same_upd [simp]:
  "same s (upd_cpu c f t) = same s t" "same s (upd_proc p g t) = same s t"
  "same s (switchkvm t) = same s t" "same s (lcr3 x t) = same s t" "same s (wakeup1 ch t) = same s t"
  "same s (t\<lparr>hw_esp0 := e\<rparr>) = same s t" "same s (t\<lparr>procs := ps\<rparr>) = same s t"
  "same (upd_proc p g s) t = same s t" "same (wakeup1 ch s) t = same s t" "same (upd_cpu c f s) t = same s t"
  by (simp_all add: same_def upd_cpu_def upd_proc_def switchkvm_def lcr3_def wakeup1_def)

lemma same_myproc:
  assumes "myproc s = Ret p t"
  shows "same s t"
proof -
  from assms obtain s1 c s2 where 1: "pushcli s = Ret () s1" and 2: "mycpu s1 = Ret c s2" and 3: "popcli s2 = Ret () t"
    by (auto simp: myproc_def Let_def)
  then show ?thesis
    using same_frame[OF frame_pushcli[OF 1]] same_frame[OF frame_popcli[OF 3]] mycpu_RetD[OF 2] same_trans by blast
qed

lemma same_wakeup: "wakeup ch s = Ret u t \<Longrightarrow> same s t"
  by (auto simp: wakeup_def Let_def dest!: same_lock intro: same_trans)

lemma same_switchuvm:
  assumes "switchuvm p s = Ret u t"
  shows "same s t"
proof -
  obtain q s1 c where 1: "pushcli s = Ret () s1" and
    3: "popcli (lcr3 (V2P (pgdir (procs s1 ! q))) (s1\<lparr>hw_esp0 := (hw_esp0 s1)(apicid (cpus s1 ! c) := kstack (procs s1 ! q) + KSTACKSIZE)\<rparr>)) = Ret u t"
    using assms by (auto simp: switchuvm_def Let_def split: option.splits if_splits dest: mycpu_RetD)
  show ?thesis
    using same_frame[OF frame_pushcli[OF 1]] by (intro same_trans[OF _ same_frame[OF frame_popcli[OF 3]]]) simp
qed

lemma same_sched:
  assumes "sched s = Ret u t \<or> sched s = Switch t"
  shows "same s t"
proof -
  obtain c s1 h s2 where 1: "mycpu s = Ret c s1" "holding L_ptable s1 = Ret h s2"
    and 2: "(case roundrobin s2 of
         (Some p, s) \<Rightarrow>
           let s = upd_proc p (\<lambda>q. q\<lparr>pstate := RUNNING\<rparr>) s in
           bnd (switchuvm (Some p) s) (\<lambda>_ s.
           if cproc (cpus s ! c) \<noteq> Some p
           then Switch (upd_cpu c (\<lambda>k. k\<lparr>cproc := Some p\<rparr>) s)
           else Ret () s)
       | (None, s) \<Rightarrow>
           let s = switchkvm s in
           if cproc (cpus s ! c) \<noteq> None
           then Switch (upd_cpu c (\<lambda>k. k\<lparr>cproc := None\<rparr>) s)
           else Ret () s) \<in> {Ret () t, Switch t}"
    using assms unfolding sched_def by (auto split: if_splits)
  have s2: "s2 = s"
    using 1 mycpu_RetD[OF 1(1)] by (auto simp: holding_def split: if_splits dest!: mycpu_RetD)
  show ?thesis
  proof (cases "roundrobin s2")
    case (Pair q s3)
    have m3: "same s s3" using Pair s2 by (auto simp: roundrobin_def same_def split: option.splits)
    show ?thesis
    proof (cases q)
      case None
      then show ?thesis using 2 Pair m3 by (auto simp: Let_def split: if_splits)
    next
      case (Some p)
      obtain v where v: "switchuvm (Some p) (upd_proc p (\<lambda>q. q\<lparr>pstate := RUNNING\<rparr>) s3) = Ret () v"
        "t = v \<or> t = upd_cpu c (\<lambda>k. k\<lparr>cproc := Some p\<rparr>) v"
        using 2 Pair Some by (auto simp: Let_def split: if_splits)
      have "same s v" using m3 by (intro same_trans[OF _ same_switchuvm[OF v(1)]]) simp
      then show ?thesis using v(2) by auto
    qed
  qed
qed

lemma same_sleep_tail: "sleep_tail p lk s = Ret u t \<Longrightarrow> same s t"
  by (auto simp: sleep_tail_def Let_def split: if_splits dest!: same_lock intro: same_trans)

lemma not_Switch:
  "acquire l s \<noteq> Switch t" "release l s \<noteq> Switch t" "myproc s \<noteq> Switch t" "mycpu s \<noteq> Switch t" "wakeup ch v \<noteq> Switch w"
  "sched_resume ie v \<noteq> Switch w" "sleep_tail p lk v \<noteq> Switch w"
proof -
  show c: "mycpu s \<noteq> Switch t" for s t :: "('x) mach_scheme" by (auto simp: mycpu_def split: option.splits)
  have p: "pushcli s \<noteq> Switch t" "popcli s \<noteq> Switch t" for s t :: "('x) mach_scheme"
    using c by (auto simp: pushcli_def popcli_def Let_def)
  show a: "acquire l s \<noteq> Switch t" and r: "release l s \<noteq> Switch t" for l and s t :: "('x) mach_scheme"
    using c p by (auto simp: acquire_def release_def holding_def Let_def split: if_splits)
  show "myproc s \<noteq> Switch t" using c p by (auto simp: myproc_def)
  show "wakeup ch v \<noteq> Switch w" using a r by (auto simp: wakeup_def Let_def)
  show "sched_resume ie v \<noteq> Switch w" using c by (auto simp: sched_resume_def)
  show "sleep_tail p lk v \<noteq> Switch w" using a r by (auto simp: sleep_tail_def Let_def)
qed

lemma same_sleep:
  assumes "sleep ch lk s = Ret u t \<or> sleep ch lk s = Switch t"
  shows "same s t"
proof -
  obtain p s1 s2 where 1: "myproc s = Ret (Some p) s1"
    "(if lk \<noteq> L_ptable then bnd (acquire L_ptable s1) (\<lambda>_ s. release lk s) else Ret () s1) = Ret () s2"
    and 2: "bnd (sched (upd_proc p (\<lambda>q. q\<lparr>pstate := SLEEPING\<rparr>) (upd_proc p (\<lambda>q. q\<lparr>pchan := ch\<rparr>) s2))) (\<lambda>_ s. sleep_tail p lk s) \<in> {Ret () t, Switch t}"
    using assms by (auto simp: sleep_def Let_def not_Switch split: option.splits if_splits)
  have "same s1 s2" using 1(2) by (auto split: if_splits dest!: same_lock intro: same_trans)
  then have "same s s2" using same_myproc[OF 1(1)] same_trans by blast
  let ?s = "upd_proc p (\<lambda>q. q\<lparr>pstate := SLEEPING\<rparr>) (upd_proc p (\<lambda>q. q\<lparr>pchan := ch\<rparr>) s2)"
  have "same ?s t"
    using 2 same_sched[of ?s] by (auto simp: not_Switch dest!: same_sleep_tail intro: same_trans)
  then show ?thesis using same_trans[OF \<open>same s s2\<close>, of t] by simp
qed

lemma same_resume: "sleep_resume q ie lk s = Ret u t \<Longrightarrow> same s t"
  by (auto simp: sleep_resume_def sched_resume_def dest!: same_sleep_tail mycpu_RetD)

lemma sleep_resume_Switch: "sleep_resume q ie lk s \<noteq> Switch t"
  by (auto simp: sleep_resume_def not_Switch)

text \<open>A process that sleeps, when no other is ready, gives up the processor.\<close>

lemma sleep_Switch:
  assumes "calm s" "this_cpu s = Some c" "ncli (cpus s ! c) = 0" "lk \<noteq> L_ptable" "length (procs s) = NPROC"
    "\<And>q. q \<in> set (procs s) \<Longrightarrow> pstate q \<noteq> RUNNABLE"
  shows "\<exists>t. sleep ch lk (acq lk s) = Switch t"
proof -
  note k = calmD[OF assms(1)]
  obtain p where p: "p < length (procs s)" "cur s = Some p" using calm_cur[OF assms(1)] by blast
  have c: "c < length (cpus s)" using k(1) assms(2) by (auto simp: cli_ok_def)
  let ?a = "acq L_ptable s"
  let ?u = "upd_proc p (\<lambda>q. q\<lparr>pstate := SLEEPING\<rparr>) (upd_proc p (\<lambda>q. q\<lparr>pchan := ch\<rparr>) ?a)"
  have "release lk (acq lk ?a) = Ret () ?a"
    using release_acq[of ?a lk "acq lk ?a"] k assms(4) by (simp add: acq_def[of lk "acq L_ptable s"])
  then have "sleep ch lk (acq lk s) = bnd (sched ?u) (\<lambda>_ s. sleep_tail p lk s)"
    using myproc_eq[of "acq lk s"] acquire_acq[of "acq lk s" L_ptable] acq_commute[of L_ptable lk s] k assms(4) p(2)
    by (simp add: sleep_def Let_def)
  moreover have pr: "procs ?u = (procs s)[p := (procs s ! p)\<lparr>pchan := ch, pstate := SLEEPING\<rparr>]"
    using p(1) by (simp add: acq_def upd_proc_def)
  have "roundrobin ?u = (None, ?u)"
  proof -
    have "pstate (procs ?u ! (i mod NPROC)) \<noteq> RUNNABLE" for i
    proof -
      have "i mod NPROC < length (procs s)" using assms(5) by (simp add: NPROC_def)
      then show ?thesis using assms(6) unfolding pr by (cases "i mod NPROC = p") auto
    qed
    then show ?thesis by (auto simp: roundrobin_def find_None_iff split: option.splits dest!: find_Some_iff[THEN iffD1])
  qed
  moreover have "cproc (cpus s ! c) = Some p" using p(2) assms(2) by (simp add: cur_def)
  ultimately show ?thesis
    using assms(2,3) c p(1) pr
    by (simp add: sched_def mycpu_def holding_def readeflags_IF_def cpus_acq upd_proc_def switchkvm_def lcr3_def)
qed

end
