(* ===== verification/Ide.thy ===== *)
theory Ide
  imports Console Frames Bcache
begin

text \<open>
  The IDE driver, \<open>kernel/ide.c\<close> in the shipped configuration: one controller,
  programmed I/O.

  The controller and the PCI bus are arbitrary: \<open>dev_in h n p\<close> is what a read of
  port \<open>p\<close> gives after the bytes \<open>h\<close> have been sent to ports and
  \<open>n\<close> reads have been made, and \<open>dev_data h\<close> the block that the data port
  delivers after \<open>h\<close>.  A word that goes out through \<open>outsl\<close> is its four
  bytes, lowest first.  The field \<open>qnext\<close> of a buffer is \<open>qnext\<close> at its index.
\<close>

section \<open>State\<close>

record idest = consst +
  idequeue :: "nat option"
  qnext :: "nat \<Rightarrow> nat option"
  havedisk1 :: bool
  base_addr :: uint
  dev_in :: "(ushort \<times> byte) list \<Rightarrow> nat \<Rightarrow> ushort \<Rightarrow> byte"
  dev_n :: nat
  dev_data :: "(ushort \<times> byte) list \<Rightarrow> block"

definition SECTOR_SIZE :: nat where "SECTOR_SIZE = 512"
definition FSSIZE :: uint where "FSSIZE = 1000"
definition IDE_BSY :: byte where "IDE_BSY = 0x80"
definition IDE_DRDY :: byte where "IDE_DRDY = 0x40"
definition IDE_DF :: byte where "IDE_DF = 0x20"
definition IDE_ERR :: byte where "IDE_ERR = 0x01"
definition IDE_CMD_READ :: byte where "IDE_CMD_READ = 0x20"
definition IDE_CMD_WRITE :: byte where "IDE_CMD_WRITE = 0x30"
definition IDE_CMD_RDMUL :: byte where "IDE_CMD_RDMUL = 0xC4"
definition IDE_CMD_WRMUL :: byte where "IDE_CMD_WRMUL = 0xC5"
definition CONFIG_ADDR :: uint where "CONFIG_ADDR = 0xCF8"
definition CONFIG_DATA :: uint where "CONFIG_DATA = 0xCFC"

definition dev_inb :: "ushort \<Rightarrow> ('x) idest_scheme \<Rightarrow> byte \<times> ('x) idest_scheme" where
  "dev_inb p s = (dev_in s (io_out s) (dev_n s) p, s\<lparr>dev_n := Suc (dev_n s)\<rparr>)"

definition outsl :: "ushort \<Rightarrow> byte list \<Rightarrow> ('x) apicst_scheme \<Rightarrow> ('x) apicst_scheme" where
  "outsl p bs s = s\<lparr>io_out := io_out s @ map (Pair p) bs\<rparr>"

section \<open>Talking to the controller\<close>

text \<open>The first argument bounds the number of times the status is read.\<close>

fun idewait :: "nat \<Rightarrow> bool \<Rightarrow> ('x) idest_scheme \<Rightarrow> (('x) idest_scheme, int) outcome" where
  "idewait 0 checkerr s = OutOfFuel"
| "idewait (Suc k) checkerr s =
     (case dev_inb 0x1F7 s of (r, s) \<Rightarrow>
        if r AND (IDE_BSY OR IDE_DRDY) \<noteq> IDE_DRDY then idewait k checkerr s
        else if checkerr \<and> r AND (IDE_DF OR IDE_ERR) \<noteq> 0 then Ret (- 1) s
        else Ret 0 s)"

definition outl :: "uint \<Rightarrow> uint \<Rightarrow> ('x) apicst_scheme \<Rightarrow> ('x) apicst_scheme" where
  "outl port data s =
     fold (\<lambda>i. outb (ucast (port + of_nat (i * 8))) (ucast (drop_bit (i * 8) (data AND push_bit (i * 8) 0xFF))))
       [0..<4] s"

fun inl_loop :: "nat list \<Rightarrow> uint \<Rightarrow> uint \<Rightarrow> ('x) idest_scheme \<Rightarrow> uint \<times> ('x) idest_scheme" where
  "inl_loop [] port tmp s = (tmp, s)"
| "inl_loop (i # is) port tmp s =
     (case dev_inb (ucast (port + 8 * of_nat i)) s of (b, s) \<Rightarrow> inl_loop is port (push_bit 8 tmp OR ucast b) s)"

definition inl :: "uint \<Rightarrow> ('x) idest_scheme \<Rightarrow> uint \<times> ('x) idest_scheme" where
  "inl port s = inl_loop [0..<4] port 0 s"

definition pci_address :: "uint \<Rightarrow> uint \<Rightarrow> uint \<Rightarrow> uint \<Rightarrow> uint" where
  "pci_address bus slot func reg = push_bit 16 bus OR push_bit 11 slot OR push_bit 8 func OR reg OR 0x80000000"

definition pci_read_config :: "uint \<Rightarrow> uint \<Rightarrow> uint \<Rightarrow> uint \<Rightarrow> ('x) idest_scheme \<Rightarrow> uint \<times> ('x) idest_scheme" where
  "pci_read_config bus slot func offset s =
     (case inl CONFIG_DATA (outl CONFIG_ADDR (pci_address bus slot func (offset AND 0xFC)) s) of
        (v, s) \<Rightarrow> (drop_bit (unat ((offset AND 2) * 8)) v AND 0xFFFF, s))"

section \<open>Initialisation\<close>

fun probe_disk1 :: "nat \<Rightarrow> ('x) idest_scheme \<Rightarrow> ('x) idest_scheme" where
  "probe_disk1 0 s = s"
| "probe_disk1 (Suc n) s =
     (case dev_inb 0x1F7 s of (r, s) \<Rightarrow> if r \<noteq> 0 then s\<lparr>havedisk1 := True\<rparr> else probe_disk1 n s)"

text \<open>
  The two loops over buses and slots.  The \<open>break\<close> leaves the inner loop only, so
  the outer one goes on with the next bus; what remains of the loops is the slot at which
  the inner one stopped last, and whether the device was ever seen.
\<close>

fun pci_slots :: "uint \<Rightarrow> uint list \<Rightarrow> ('x) idest_scheme \<Rightarrow> uint option \<times> ('x) idest_scheme" where
  "pci_slots bus [] s = (None, s)"
| "pci_slots bus (slot # slots) s =
     (case pci_read_config bus slot 0 0 s of (vendor, s) \<Rightarrow>
      case pci_read_config bus slot 0 2 s of (device, s) \<Rightarrow>
      case (if vendor \<noteq> 0xFFFF \<and> vendor = 0x8086 then pci_read_config bus slot 0 2 s else (device, s)) of (device, s) \<Rightarrow>
      if device = 0x7010 then (Some slot, s) else pci_slots bus slots s)"

fun pci_buses :: "uint list \<Rightarrow> uint \<times> bool \<Rightarrow> ('x) idest_scheme \<Rightarrow> (uint \<times> bool) \<times> ('x) idest_scheme" where
  "pci_buses [] r s = (r, s)"
| "pci_buses (bus # buses) r s =
     (case pci_slots bus (map of_nat [0..<32]) s of (hit, s) \<Rightarrow>
      pci_buses buses (case hit of Some slot \<Rightarrow> (slot, True) | None \<Rightarrow> (32, snd r)) s)"

definition pci_enable :: "uint \<Rightarrow> uint \<Rightarrow> ('x) idest_scheme \<Rightarrow> ('x) idest_scheme" where
  "pci_enable bus slot s =
     (let s = outl CONFIG_ADDR (pci_address bus slot 0 0x20) s in
      case inl CONFIG_DATA s of (ba, s) \<Rightarrow>
      let s = s\<lparr>base_addr := push_bit 4 (drop_bit 4 ba)\<rparr>;
          addr = pci_address bus slot 0 0x4;
          s = outl CONFIG_ADDR addr s in
      case inl CONFIG_DATA s of (v, s) \<Rightarrow>
      let cmd = (v AND 0xFFFF) OR 1;
          s = outl CONFIG_DATA cmd s in
      outl CONFIG_ADDR addr s)"

definition pci_message :: "byte list" where
  "pci_message = map (of_nat \<circ> of_char) ''PCI bus not detected. Further PCI bus operations will not work.'' @ [10]"

definition ideinit_pio :: "nat \<Rightarrow> ('x) idest_scheme \<Rightarrow> (('x) idest_scheme, unit) outcome" where
  "ideinit_pio k s =
     (let s = initlock L_ide ''ide'' s;
          s = ioapicenable IRQ_IDE (of_nat (ncpu s) - 1) s in
      bnd (idewait k False s) (\<lambda>_ s.
      let s = outb 0x1F6 (0xE0 OR push_bit 4 1) s;
          s = probe_disk1 1000 s;
          s = outb 0x1F6 (0xE0 OR push_bit 4 0) s in
      case pci_buses (map of_nat [0..<256]) (0, False) s of ((slot, pci_found), s) \<Rightarrow>
      if pci_found then Ret () (pci_enable 256 slot s)
      else cprintf pci_message [] s))"

section \<open>Requests\<close>

definition idestart :: "nat \<Rightarrow> nat option \<Rightarrow> ('x) idest_scheme \<Rightarrow> (('x) idest_scheme, unit) outcome" where
  "idestart k bp s =
     (case bp of None \<Rightarrow> Panic ''idestart''
      | Some b \<Rightarrow>
        if blockno (bufs s ! b) \<ge> FSSIZE then Panic ''incorrect blockno''
        else
          let sector_per_block = BSIZE div SECTOR_SIZE;
              sector = blockno (bufs s ! b) * of_nat sector_per_block;
              read_cmd = (if sector_per_block = 1 then IDE_CMD_READ else IDE_CMD_RDMUL);
              write_cmd = (if sector_per_block = 1 then IDE_CMD_WRITE else IDE_CMD_WRMUL) in
          if sector_per_block > 7 then Panic ''idestart''
          else
            bnd (idewait k False s) (\<lambda>_ s.
            let s = outb 0x3F6 0 s;
                s = outb 0x1F2 (of_nat sector_per_block) s;
                s = outb 0x1F3 (ucast (sector AND 0xFF)) s;
                s = outb 0x1F4 (ucast (drop_bit 8 sector AND 0xFF)) s;
                s = outb 0x1F5 (ucast (drop_bit 16 sector AND 0xFF)) s;
                s = outb 0x1F6 (ucast (0xE0 OR push_bit 4 (bdev (bufs s ! b) AND 1) OR (drop_bit 24 sector AND 0x0F))) s in
            if bdirty (bufs s ! b)
            then let s = outb 0x1F7 write_cmd s in Ret () (outsl 0x1F0 (bdata (bufs s ! b)) s)
            else Ret () (outb 0x1F7 read_cmd s)))"

definition ideintr :: "nat \<Rightarrow> ('x) idest_scheme \<Rightarrow> (('x) idest_scheme, unit) outcome" where
  "ideintr k s =
     bnd (acquire L_ide s) (\<lambda>_ s.
     case idequeue s of None \<Rightarrow> release L_ide s
     | Some b \<Rightarrow>
       let s = s\<lparr>idequeue := qnext s b\<rparr> in
       bnd (if \<not> bdirty (bufs s ! b)
            then bnd (idewait k True s) (\<lambda>r s.
                 if r \<ge> 0 then Ret () (upd_buf b (\<lambda>c. c\<lparr>bdata := dev_data s (io_out s)\<rparr>) s) else Ret () s)
            else Ret () s) (\<lambda>_ s.
       let s = upd_buf b (\<lambda>c. c\<lparr>bvalid := True\<rparr>) s;
           s = upd_buf b (\<lambda>c. c\<lparr>bdirty := False\<rparr>) s in
       bnd (wakeup (Ch_buf b) s) (\<lambda>_ s.
       bnd (if idequeue s \<noteq> None then idestart k (idequeue s) s else Ret () s) (\<lambda>_ s.
       release L_ide s))))"

text \<open>
  The walk \<open>for(pp=&idequeue; *pp; pp=&(*pp)->qnext)\<close>.  The pointer \<open>pp\<close>
  is \<open>&idequeue\<close>, here \<open>None\<close>, or the address of the \<open>qnext\<close> of a
  buffer.  A queue of distinct buffers is at its end after \<open>NBUF\<close> steps.
\<close>

definition qderef :: "nat option \<Rightarrow> ('x) idest_scheme \<Rightarrow> nat option" where
  "qderef pp s = (case pp of None \<Rightarrow> idequeue s | Some b \<Rightarrow> qnext s b)"

fun qtail :: "nat \<Rightarrow> nat option \<Rightarrow> ('x) idest_scheme \<Rightarrow> nat option option" where
  "qtail 0 pp s = None"
| "qtail (Suc n) pp s = (case qderef pp s of None \<Rightarrow> Some pp | Some b \<Rightarrow> qtail n (Some b) s)"

definition qstore :: "nat option \<Rightarrow> nat option \<Rightarrow> ('x) idest_scheme \<Rightarrow> ('x) idest_scheme" where
  "qstore pp v s = (case pp of None \<Rightarrow> s\<lparr>idequeue := v\<rparr> | Some b \<Rightarrow> s\<lparr>qnext := (qnext s)(b := v)\<rparr>)"

text \<open>The loop that waits: a process that sleeps gives up the processor and goes on in \<open>iderw_resume\<close>.\<close>

definition iderw_wait :: "nat \<Rightarrow> ('x) idest_scheme \<Rightarrow> (('x) idest_scheme, unit) outcome" where
  "iderw_wait b s =
     (if \<not> (bvalid (bufs s ! b) \<and> \<not> bdirty (bufs s ! b))
      then bnd (sleep (Ch_buf b) L_ide s) (\<lambda>_ s. OutOfFuel)
      else release L_ide s)"

definition iderw_pio :: "nat \<Rightarrow> nat \<Rightarrow> ('x) idest_scheme \<Rightarrow> (('x) idest_scheme, unit) outcome" where
  "iderw_pio k b s =
     bnd (holdingsleep (SL_buf b) s) (\<lambda>h s.
     if \<not> h then Panic ''iderw: buf not locked''
     else if bvalid (bufs s ! b) \<and> \<not> bdirty (bufs s ! b) then Panic ''iderw: nothing to do''
     else if bdev (bufs s ! b) \<noteq> 0 \<and> \<not> havedisk1 s then Panic ''iderw: ide disk 1 not present''
     else
       bnd (acquire L_ide s) (\<lambda>_ s.
       let s = s\<lparr>qnext := (qnext s)(b := None)\<rparr> in
       case qtail (Suc NBUF) None s of None \<Rightarrow> OutOfFuel
       | Some pp \<Rightarrow>
         let s = qstore pp (Some b) s in
         bnd (if idequeue s = Some b then idestart k (Some b) s else Ret () s) (\<lambda>_ s. iderw_wait b s)))"

definition iderw_resume :: "nat \<Rightarrow> bool \<Rightarrow> nat \<Rightarrow> ('x) idest_scheme \<Rightarrow> (('x) idest_scheme, unit) outcome" where
  "iderw_resume q ie b s = bnd (sleep_resume q ie L_ide s) (\<lambda>_ s. iderw_wait b s)"
section \<open>The drive\<close>

type_synonym contents = "uint \<times> uint \<Rightarrow> block"

text \<open>The bytes that ask for a sector of a drive, and what the documentation of ATA drives says of them.\<close>

definition ide_cmd :: "bool \<Rightarrow> uint \<Rightarrow> uint \<Rightarrow> (ushort \<times> byte) list" where
  "ide_cmd wr dev n =
     [(0x3F6, 0), (0x1F2, 1), (0x1F3, ucast (n AND 0xFF)), (0x1F4, ucast (drop_bit 8 n AND 0xFF)),
      (0x1F5, ucast (drop_bit 16 n AND 0xFF)),
      (0x1F6, ucast (0xE0 OR push_bit 4 (dev AND 1) OR (drop_bit 24 n AND 0x0F))),
      (0x1F7, if wr then 0x30 else 0x20)]"

definition ata :: "((ushort \<times> byte) list \<Rightarrow> contents) \<Rightarrow> ((ushort \<times> byte) list \<Rightarrow> block) \<Rightarrow> bool" where
  "ata drv data \<longleftrightarrow>
     (\<forall>h dev n d. n < FSSIZE \<longrightarrow> length d = SECTOR_SIZE \<longrightarrow>
        drv (h @ ide_cmd True dev n @ map (Pair 0x1F0) d) = (drv h)((dev AND 1, n) := d)) \<and>
     (\<forall>h dev n. n < FSSIZE \<longrightarrow>
        drv (h @ ide_cmd False dev n) = drv h \<and> data (h @ ide_cmd False dev n) = drv h (dev AND 1, n))"

section \<open>Serving requests one after the other\<close>

definition bkey :: "buf \<Rightarrow> uint \<times> uint" where
  "bkey k = (bdev k AND 1, blockno k)"

definition serve :: "contents \<Rightarrow> buf \<Rightarrow> contents \<times> buf" where
  "serve c k = (if bdirty k then (c(bkey k := bdata k), k\<lparr>bdirty := False, bvalid := True\<rparr>)
     else (c, k\<lparr>bdata := c (bkey k), bvalid := True\<rparr>))"

fun serve_all :: "contents \<Rightarrow> buf list \<Rightarrow> contents \<times> buf list" where
  "serve_all c [] = (c, [])"
| "serve_all c (k # ks) =
     (case serve c k of (c, k) \<Rightarrow> case serve_all c ks of (c, ks) \<Rightarrow> (c, k # ks))"

lemma serve_all_snoc:
  "serve_all c (ks @ [k]) =
     (fst (serve (fst (serve_all c ks)) k), snd (serve_all c ks) @ [snd (serve (fst (serve_all c ks)) k)])"
  by (induction ks arbitrary: c) (simp_all split: prod.splits)

section \<open>The queue\<close>

fun qchain :: "(nat \<Rightarrow> nat option) \<Rightarrow> nat option \<Rightarrow> nat list \<Rightarrow> bool" where
  "qchain qn q [] \<longleftrightarrow> q = None"
| "qchain qn q (b # bs) \<longleftrightarrow> q = Some b \<and> qchain qn (qn b) bs"

lemma qchain_upd: "b \<notin> set bs \<Longrightarrow> qchain (qn(b := v)) q bs = qchain qn q bs"
  by (induction bs arbitrary: q) auto

lemma qchain_extend:
  "qchain qn (qn a) bs \<Longrightarrow> qn b = None \<Longrightarrow> distinct (a # bs) \<Longrightarrow> b \<notin> set (a # bs) \<Longrightarrow>
   qchain (qn(last (a # bs) := Some b)) ((qn(last (a # bs) := Some b)) a) (bs @ [b])"
proof (induction bs arbitrary: a)
  case (Cons c bs)
  have "last (a # c # bs) \<noteq> a" using Cons.prems(3) last_in_set[of "c # bs"] by auto
  then show ?case using Cons.IH[of c] Cons.prems by auto
qed auto

lemma qtail_last:
  "qchain (qnext s) (qderef pp s) bs \<Longrightarrow> length bs < n \<Longrightarrow> qtail n pp s = Some (if bs = [] then pp else Some (last bs))"
proof (induction bs arbitrary: n pp)
  case Nil
  then show ?case by (cases n) simp_all
next
  case (Cons b bs)
  then obtain m where "n = Suc m" by (cases n) auto
  moreover have "qtail m (Some b) s = Some (if bs = [] then Some b else Some (last bs))"
    using Cons.IH[of "Some b" m] Cons.prems calculation by (simp add: qderef_def)
  ultimately show ?case using Cons.prems by simp
qed

text \<open>Appending to the queue.\<close>

lemma queue_append:
  assumes "qchain (qnext s) (idequeue s) bs" "distinct bs" "b \<notin> set bs" "\<And>x. x \<in> set bs \<Longrightarrow> x < NBUF"
  obtains pp where "qtail (Suc NBUF) None (s\<lparr>qnext := (qnext s)(b := None)\<rparr>) = Some pp"
    "\<exists>qn q. qstore pp (Some b) (s\<lparr>qnext := (qnext s)(b := None)\<rparr>) = s\<lparr>idequeue := q, qnext := qn\<rparr> \<and>
       qchain qn q (bs @ [b]) \<and> (q = Some b \<longleftrightarrow> bs = [])"
proof -
  let ?s = "s\<lparr>qnext := (qnext s)(b := None)\<rparr>"
  have c: "qchain (qnext ?s) (qderef None ?s) bs" using assms(1,3) by (simp add: qderef_def qchain_upd)
  have "set bs \<subseteq> {..<NBUF}" using assms(4) by auto
  then have "length bs < Suc NBUF" using card_mono[of "{..<NBUF}" "set bs"] distinct_card[OF assms(2)] by simp
  then have t: "qtail (Suc NBUF) None ?s = Some (if bs = [] then None else Some (last bs))" by (rule qtail_last[OF c])
  show thesis
  proof (cases bs)
    case Nil
    have "qstore (if bs = [] then None else Some (last bs)) (Some b) ?s = s\<lparr>idequeue := Some b, qnext := (qnext s)(b := None)\<rparr>"
      using Nil by (simp add: qstore_def)
    moreover have "qchain ((qnext s)(b := None)) (Some b) (bs @ [b])" using Nil by simp
    ultimately show thesis by (intro that[OF t] exI conjI) (assumption | simp add: Nil)+
  next
    case (Cons a as)
    let ?q = "(qnext s)(b := None)"
    have a: "idequeue s = Some a" "qchain ?q (?q a) as" using c Cons by (auto simp: qderef_def)
    have "qchain (?q(last bs := Some b)) (Some a) (bs @ [b])"
      using qchain_extend[of ?q a as b] a(2) assms(2,3) by (simp add: Cons)
    moreover have "qstore (if bs = [] then None else Some (last bs)) (Some b) ?s = s\<lparr>idequeue := Some a, qnext := ?q(last bs := Some b)\<rparr>"
      using a(1) Cons by (simp add: qstore_def)
    moreover have "a \<noteq> b" using assms(3) Cons by auto
    ultimately show thesis by (intro that[OF t] exI conjI) (assumption | simp add: Cons)+
  qed
qed
section \<open>What the steps do to the queue, the buffers and the ports\<close>

lemma same_ide:
  assumes "same s t"
  shows "bufs t = bufs s" "idequeue t = idequeue s" "qnext t = qnext s" "io_out t = io_out s" "dev_data t = dev_data s"
    "dev_in t = dev_in s" "havedisk1 t = havedisk1 s"
  using assms by (cases s; cases t; simp add: same_def)+

lemma idewait_dev_n: "idewait k e s = Ret r t \<Longrightarrow> \<exists>n. t = s\<lparr>dev_n := n\<rparr>"
proof (induction k arbitrary: s)
  case (Suc k)
  show ?case
  proof (cases "dev_in s (io_out s) (dev_n s) 0x1F7 AND (IDE_BSY OR IDE_DRDY) = IDE_DRDY")
    case True
    then show ?thesis using Suc.prems by (auto simp: dev_inb_def split: if_splits)
  next
    case False
    then have "idewait k e (s\<lparr>dev_n := Suc (dev_n s)\<rparr>) = Ret r t" using Suc.prems by (simp add: dev_inb_def)
    from Suc.IH[OF this] show ?thesis by auto
  qed
qed simp

lemma idewait_no_error:
  assumes "\<And>h n. dev_in s h n 0x1F7 AND (IDE_DF OR IDE_ERR) = 0"
  shows "idewait k e s = Ret r t \<Longrightarrow> r = 0"
  using assms
proof (induction k arbitrary: s)
  case (Suc k)
  from Suc.prems(1) Suc.IH[of "s\<lparr>dev_n := Suc (dev_n s)\<rparr>"] Suc.prems(2) show ?case by (simp add: dev_inb_def split: if_splits)
qed simp

definition wire :: "buf \<Rightarrow> (ushort \<times> byte) list" where
  "wire k = ide_cmd (bdirty k) (bdev k) (blockno k) @ (if bdirty k then map (Pair 0x1F0) (bdata k) else [])"

lemma idestart_sends:
  assumes "idestart k (Some b) s = Ret u t"
  shows "\<exists>n. t = s\<lparr>dev_n := n, io_out := io_out s @ wire (bufs s ! b)\<rparr>" "blockno (bufs s ! b) < FSSIZE"
proof -
  show l: "blockno (bufs s ! b) < FSSIZE" using assms by (auto simp: idestart_def split: if_splits)
  obtain r v where v: "idewait k False s = Ret r v" using assms by (auto simp: idestart_def Let_def split: if_splits)
  then obtain n where "v = s\<lparr>dev_n := n\<rparr>" using idewait_dev_n by blast
  then show "\<exists>n. t = s\<lparr>dev_n := n, io_out := io_out s @ wire (bufs s ! b)\<rparr>"
    using assms v l
    by (auto simp: idestart_def Let_def outb_def outsl_def wire_def ide_cmd_def BSIZE_def SECTOR_SIZE_def
        IDE_CMD_READ_def IDE_CMD_WRITE_def split: if_splits)
qed

lemma ata_wire:
  assumes "ata drv data" "blockno k < FSSIZE" "length (bdata k) = BSIZE"
  shows "drv (h @ wire k) = fst (serve (drv h) k)" "\<not> bdirty k \<Longrightarrow> data (h @ wire k) = drv h (bkey k)"
  using assms by (simp_all add: ata_def wire_def serve_def bkey_def BSIZE_def SECTOR_SIZE_def)

lemma idestart_Switch: "idestart k b s \<noteq> Switch t"
proof -
  have "idewait k e s \<noteq> Switch t" for e s t
    by (induction k arbitrary: s) (auto simp: dev_inb_def split: if_splits)
  then show ?thesis by (auto simp: idestart_def Let_def split: option.splits)
qed

lemma same_holdingsleep: "holdingsleep l s = Ret h t \<Longrightarrow> same s t"
  by (auto simp: holdingsleep_def Let_def dest!: same_lock intro: same_trans)

lemma holdingsleep_Switch: "holdingsleep l s \<noteq> Switch t"
  by (auto simp: holdingsleep_def Let_def not_Switch)

lemma same_iderw_wait:
  assumes "iderw_wait b s = Ret u t \<or> iderw_wait b s = Switch t"
  shows "same s t" "iderw_wait b s = Ret u t \<Longrightarrow> bvalid (bufs t ! b) \<and> \<not> bdirty (bufs t ! b)"
proof -
  show "same s t"
    using assms by (auto simp: iderw_wait_def not_Switch split: if_splits dest!: same_lock same_sleep[of _ _ _ "()" t, OF disjI2])
  then show "iderw_wait b s = Ret u t \<Longrightarrow> bvalid (bufs t ! b) \<and> \<not> bdirty (bufs t ! b)"
    using same_ide(1)[of s t] by (auto simp: iderw_wait_def split: if_splits)
qed

text \<open>One call of \<open>iderw\<close>: the buffer joins the queue, and is sent to the drive when it is alone there.\<close>

lemma iderw_step:
  assumes "iderw_pio k b s = Ret () t \<or> iderw_pio k b s = Switch t"
    "qchain (qnext s) (idequeue s) bs" "distinct bs" "b \<notin> set bs" "\<And>x. x \<in> set bs \<Longrightarrow> x < NBUF"
  shows "qchain (qnext t) (idequeue t) (bs @ [b])" "bufs t = bufs s" "dev_data t = dev_data s" "dev_in t = dev_in s"
    "\<not> (bvalid (bufs s ! b) \<and> \<not> bdirty (bufs s ! b))"
    "io_out t = io_out s @ (if bs = [] then wire (bufs s ! b) else [])" "bs = [] \<Longrightarrow> blockno (bufs s ! b) < FSSIZE"
proof -
  obtain s1 s2 where 1: "holdingsleep (SL_buf b) s = Ret True s1" "acquire L_ide s1 = Ret () s2"
    and nd: "\<not> (bvalid (bufs s1 ! b) \<and> \<not> bdirty (bufs s1 ! b))"
    and r: "(let s = s2\<lparr>qnext := (qnext s2)(b := None)\<rparr> in
       case qtail (Suc NBUF) None s of None \<Rightarrow> OutOfFuel
       | Some pp \<Rightarrow>
         let s = qstore pp (Some b) s in
         bnd (if idequeue s = Some b then idestart k (Some b) s else Ret () s) (\<lambda>_ s. iderw_wait b s)) \<in> {Ret () t, Switch t}"
    using assms(1) unfolding iderw_pio_def by (auto simp: not_Switch holdingsleep_Switch split: if_splits)
  have "same s s2" using same_holdingsleep[OF 1(1)] same_lock(1)[OF 1(2)] same_trans by blast
  note e = same_ide[OF this] and e1 = same_ide[OF same_holdingsleep[OF 1(1)]]
  show "\<not> (bvalid (bufs s ! b) \<and> \<not> bdirty (bufs s ! b))" using nd e1 by simp
  obtain pp where p: "qtail (Suc NBUF) None (s2\<lparr>qnext := (qnext s2)(b := None)\<rparr>) = Some pp"
    "\<exists>qn q. qstore pp (Some b) (s2\<lparr>qnext := (qnext s2)(b := None)\<rparr>) = s2\<lparr>idequeue := q, qnext := qn\<rparr> \<and>
       qchain qn q (bs @ [b]) \<and> (q = Some b \<longleftrightarrow> bs = [])"
    by (rule queue_append[of s2 bs b]) (use assms(2-5) e in auto)
  then obtain qn q where q: "qstore pp (Some b) (s2\<lparr>qnext := (qnext s2)(b := None)\<rparr>) = s2\<lparr>idequeue := q, qnext := qn\<rparr>"
    "qchain qn q (bs @ [b])" "q = Some b \<longleftrightarrow> bs = []" by blast
  let ?s = "s2\<lparr>idequeue := q, qnext := qn\<rparr>"
  obtain s4 where 4: "(if q = Some b then idestart k (Some b) ?s else Ret () ?s) = Ret () s4"
    "iderw_wait b s4 = Ret () t \<or> iderw_wait b s4 = Switch t"
    using r unfolding Let_def p(1) option.case q(1) by (auto simp: idestart_Switch split: if_splits)
  note w = same_ide[OF same_iderw_wait(1)[OF 4(2)]]
  show "bs = [] \<Longrightarrow> blockno (bufs s ! b) < FSSIZE" using 4(1) q(3) idestart_sends(2)[of k b ?s "()" s4] e(1) by simp
  have "\<exists>n. s4 = ?s\<lparr>dev_n := n, io_out := io_out s @ (if bs = [] then wire (bufs s ! b) else [])\<rparr>"
  proof (cases "bs = []")
    case True
    then show ?thesis using 4(1) q(3) idestart_sends(1)[of k b ?s "()" s4] e(1,4) by simp
  next
    case False
    then have "s4 = ?s" using 4(1) q(3) by simp
    then show ?thesis using False e(4) by (intro exI[of _ "dev_n s2"]) simp
  qed
  then obtain n where "s4 = ?s\<lparr>dev_n := n, io_out := io_out s @ (if bs = [] then wire (bufs s ! b) else [])\<rparr>" ..
  then show "qchain (qnext t) (idequeue t) (bs @ [b])" "bufs t = bufs s" "dev_data t = dev_data s" "dev_in t = dev_in s"
    "io_out t = io_out s @ (if bs = [] then wire (bufs s ! b) else [])"
    using w e q(2) by simp_all
qed

lemma ideintr_step:
  assumes "ideintr k s = Ret () t" "\<And>h n. dev_in s h n 0x1F7 AND (IDE_DF OR IDE_ERR) = 0" "idequeue s = Some b" "b < length (bufs s)"
    "qnext s b \<noteq> Some b"
  shows "idequeue t = qnext s b" "qnext t = qnext s" "dev_data t = dev_data s" "dev_in t = dev_in s"
    "bufs t = (bufs s)[b := (if bdirty (bufs s ! b) then bufs s ! b else (bufs s ! b)\<lparr>bdata := dev_data s (io_out s)\<rparr>)\<lparr>bvalid := True, bdirty := False\<rparr>]"
    "io_out t = io_out s @ (case qnext s b of None \<Rightarrow> [] | Some x \<Rightarrow> wire (bufs s ! x))"
    "qnext s b = Some x \<Longrightarrow> blockno (bufs s ! x) < FSSIZE"
proof -
  obtain s1 where 1: "acquire L_ide s = Ret () s1" using assms(1) by (auto simp: ideintr_def)
  note e = same_ide[OF same_lock(1)[OF 1]]
  let ?s = "s1\<lparr>idequeue := qnext s1 b\<rparr>"
  let ?k = "if bdirty (bufs s ! b) then bufs s ! b else (bufs s ! b)\<lparr>bdata := dev_data s (io_out s)\<rparr>"
  obtain s2 where 2: "(if \<not> bdirty (bufs ?s ! b)
            then bnd (idewait k True ?s) (\<lambda>r s.
                 if r \<ge> 0 then Ret () (upd_buf b (\<lambda>c. c\<lparr>bdata := dev_data s (io_out s)\<rparr>) s) else Ret () s)
            else Ret () ?s) = Ret () s2"
    and r: "(let s = upd_buf b (\<lambda>c. c\<lparr>bvalid := True\<rparr>) s2;
           s = upd_buf b (\<lambda>c. c\<lparr>bdirty := False\<rparr>) s in
       bnd (wakeup (Ch_buf b) s) (\<lambda>_ s.
       bnd (if idequeue s \<noteq> None then idestart k (idequeue s) s else Ret () s) (\<lambda>_ s.
       release L_ide s))) = Ret () t"
    using assms(1,3) 1 e(2) unfolding ideintr_def by (auto simp: Let_def)
  have "\<exists>n. s2 = ?s\<lparr>dev_n := n, bufs := (bufs s)[b := ?k]\<rparr>"
  proof (cases "bdirty (bufs s ! b)")
    case True
    then have "s2 = ?s" using 2 e(1) by simp
    then show ?thesis using True by (intro exI[of _ "dev_n s1"]) (simp add: e(1)[symmetric])
  next
    case False
    then obtain w v where v: "idewait k True ?s = Ret w v" using 2 e by auto
    obtain n where n: "v = ?s\<lparr>dev_n := n\<rparr>" using idewait_dev_n[OF v] by blast
    have "w = 0" using idewait_no_error[OF _ v] assms(2) e by simp
    then show ?thesis using 2 v n False e by (auto simp: upd_buf_def)
  qed
  then obtain n where s2: "s2 = ?s\<lparr>dev_n := n, bufs := (bufs s)[b := ?k]\<rparr>" ..
  let ?s3 = "?s\<lparr>dev_n := n, bufs := (bufs s)[b := ?k\<lparr>bvalid := True, bdirty := False\<rparr>]\<rparr>"
  obtain s4 s5 where 4: "wakeup (Ch_buf b) ?s3 = Ret () s4"
    "(if idequeue s4 \<noteq> None then idestart k (idequeue s4) s4 else Ret () s4) = Ret () s5" "release L_ide s5 = Ret () t"
    using r assms(4) by (auto simp: Let_def s2 upd_buf_def)
  note e4 = same_ide[OF same_wakeup[OF 4(1)]] and e5 = same_ide[OF same_lock(2)[OF 4(3)]]
  have q4: "idequeue s4 = qnext s b" using e4 e by simp
  have x4: "bufs s4 ! x = bufs s ! x" if "qnext s b = Some x" for x using e4(1) assms(5) that by (cases "x = b") simp_all
  have "\<exists>n. s5 = s4\<lparr>dev_n := n, io_out := io_out s4 @ (case qnext s b of None \<Rightarrow> [] | Some x \<Rightarrow> wire (bufs s ! x))\<rparr>"
  proof (cases "qnext s b")
    case None
    then have "s5 = s4" using 4(2) q4 by simp
    then show ?thesis using None by (intro exI[of _ "dev_n s4"]) simp
  next
    case (Some x)
    then show ?thesis using 4(2) q4 x4[OF Some] idestart_sends(1)[of k x s4 "()" s5] by simp
  qed
  then obtain m where "s5 = s4\<lparr>dev_n := m, io_out := io_out s4 @ (case qnext s b of None \<Rightarrow> [] | Some x \<Rightarrow> wire (bufs s ! x))\<rparr>" ..
  then show "idequeue t = qnext s b" "qnext t = qnext s" "dev_data t = dev_data s" "dev_in t = dev_in s"
    "bufs t = (bufs s)[b := ?k\<lparr>bvalid := True, bdirty := False\<rparr>]"
    "io_out t = io_out s @ (case qnext s b of None \<Rightarrow> [] | Some x \<Rightarrow> wire (bufs s ! x))"
    using e e4 e5 q4 by simp_all
  show "blockno (bufs s ! x) < FSSIZE" if x: "qnext s b = Some x"
    using 4(2) q4 x x4[OF x] idestart_sends(2)[of k x s4 "()" s5] by simp
qed
section \<open>Histories\<close>

text \<open>
  \<open>reqs\<close> are the buffers passed to \<open>iderw\<close>, with what they held then, and
  \<open>fin\<close> the buffers that the interrupt handler has finished, with what they hold
  then.  Other code may run in between; it leaves the drive, the queue and the buffers that
  wait for the drive alone, which their sleep locks make it do, and no buffer is passed to
  \<open>iderw\<close> while it waits.
\<close>

inductive ide_hist :: "((ushort \<times> byte) list \<Rightarrow> contents) \<Rightarrow> nat \<Rightarrow> ('x) idest_scheme \<Rightarrow> ('x) idest_scheme \<Rightarrow>
    (nat \<times> buf) list \<Rightarrow> buf list \<Rightarrow> bool" for drv k s0 where
  ide_start: "ide_hist drv k s0 s0 [] []"
| ide_rw: "\<lbrakk>ide_hist drv k s0 s reqs fin; iderw_pio k b s = Ret () t \<or> iderw_pio k b s = Switch t; b < NBUF;
     length (bdata (bufs s ! b)) = BSIZE; b \<notin> fst ` set (drop (length fin) reqs)\<rbrakk>
    \<Longrightarrow> ide_hist drv k s0 t (reqs @ [(b, bufs s ! b)]) fin"
| ide_resume: "\<lbrakk>ide_hist drv k s0 s reqs fin; iderw_resume q ie b s = Ret () t \<or> iderw_resume q ie b s = Switch t\<rbrakk>
    \<Longrightarrow> ide_hist drv k s0 t reqs fin"
| ide_intr: "\<lbrakk>ide_hist drv k s0 s reqs fin; ideintr k s = Ret () t\<rbrakk>
    \<Longrightarrow> ide_hist drv k s0 t reqs (case idequeue s of None \<Rightarrow> fin | Some b \<Rightarrow> fin @ [bufs t ! b])"
| ide_other: "\<lbrakk>ide_hist drv k s0 s reqs fin; idequeue t = idequeue s; qnext t = qnext s; dev_in t = dev_in s; dev_data t = dev_data s;
     drv (io_out t) = drv (io_out s); dev_data s (io_out t) = dev_data s (io_out s); length (bufs t) = length (bufs s);
     \<And>r. r \<in> set (drop (length fin) reqs) \<Longrightarrow> bufs t ! fst r = bufs s ! fst r\<rbrakk>
    \<Longrightarrow> ide_hist drv k s0 t reqs fin"

definition waits :: "('x) idest_scheme \<Rightarrow> nat \<times> buf \<Rightarrow> bool" where
  "waits s r \<longleftrightarrow> fst r < NBUF \<and> bufs s ! fst r = snd r \<and> length (bdata (snd r)) = BSIZE \<and> \<not> (bvalid (snd r) \<and> \<not> bdirty (snd r))"

definition ide_inv :: "((ushort \<times> byte) list \<Rightarrow> contents) \<Rightarrow> contents \<Rightarrow> ('x) idest_scheme \<Rightarrow> (nat \<times> buf) list \<Rightarrow> buf list \<Rightarrow> bool" where
  "ide_inv drv c0 s reqs fin \<longleftrightarrow> length fin \<le> length reqs \<and> NBUF < length (bufs s) \<and>
     snd (serve_all c0 (map snd (take (length fin) reqs))) = fin \<and>
     drv (io_out s) = fst (serve_all c0 (map snd (take (Suc (length fin)) reqs))) \<and>
     qchain (qnext s) (idequeue s) (map fst (drop (length fin) reqs)) \<and> distinct (map fst (drop (length fin) reqs)) \<and>
     (\<forall>r\<in>set (drop (length fin) reqs). waits s r) \<and>
     (drop (length fin) reqs \<noteq> [] \<longrightarrow> \<not> bdirty (snd (reqs ! length fin)) \<longrightarrow>
        dev_data s (io_out s) = fst (serve_all c0 (map snd (take (length fin) reqs))) (bkey (snd (reqs ! length fin))))"

lemma ide_inv_cong:
  assumes "ide_inv drv c0 s reqs fin" "idequeue t = idequeue s" "qnext t = qnext s" "dev_data t (io_out t) = dev_data s (io_out s)"
     "drv (io_out t) = drv (io_out s)" "length (bufs t) = length (bufs s)"
     "\<And>r. r \<in> set (drop (length fin) reqs) \<Longrightarrow> bufs t ! fst r = bufs s ! fst r"
  shows "ide_inv drv c0 t reqs fin"
  using assms by (simp add: ide_inv_def waits_def)

lemma ide_inv_same: "ide_inv drv c0 s reqs fin \<Longrightarrow> same s t \<Longrightarrow> ide_inv drv c0 t reqs fin"
  by (rule ide_inv_cong) (simp_all add: same_ide)

lemma ide_inv_rw:
  assumes "ata drv (dev_data s)" "ide_inv drv c0 s reqs fin" "iderw_pio k b s = Ret () t \<or> iderw_pio k b s = Switch t"
    "b < NBUF" "length (bdata (bufs s ! b)) = BSIZE" "b \<notin> fst ` set (drop (length fin) reqs)"
  shows "ide_inv drv c0 t (reqs @ [(b, bufs s ! b)]) fin"
proof -
  let ?n = "length fin" and ?k = "bufs s ! b"
  let ?bs = "map fst (drop ?n reqs)"
  note I = assms(2)[unfolded ide_inv_def]
  have "x < NBUF" if "x \<in> set ?bs" for x using I that by (auto simp: waits_def)
  then have S: "qchain (qnext t) (idequeue t) (?bs @ [b])" "bufs t = bufs s" "dev_data t = dev_data s"
    "\<not> (bvalid ?k \<and> \<not> bdirty ?k)" "io_out t = io_out s @ (if ?bs = [] then wire ?k else [])" "?bs = [] \<Longrightarrow> blockno ?k < FSSIZE"
    using iderw_step[OF assms(3), of ?bs] I assms(6) by auto
  have d: "drop ?n (reqs @ [(b, ?k)]) = drop ?n reqs @ [(b, ?k)]" "take ?n (reqs @ [(b, ?k)]) = take ?n reqs" using I by simp_all
  show ?thesis
  proof (cases "drop ?n reqs")
    case Nil
    then have n: "length reqs = ?n" using I by simp
    let ?c = "fst (serve_all c0 (map snd reqs))"
    have c: "drv (io_out s) = ?c" using I n by simp
    note A = ata_wire[OF assms(1) S(6) assms(5), of "io_out s"]
    have "io_out t = io_out s @ wire ?k" using S(5) Nil by simp
    moreover have "drv (io_out s @ wire ?k) = fst (serve ?c ?k)" "\<not> bdirty ?k \<Longrightarrow> dev_data s (io_out s @ wire ?k) = ?c (bkey ?k)"
      using A Nil c by simp_all
    ultimately show ?thesis
      using I S(1-4) Nil n assms(4,5) nth_append_length[of reqs "(b, ?k)" "[]"]
      by (simp add: ide_inv_def waits_def serve_all_snoc)
  next
    case (Cons r rs)
    then have "Suc ?n \<le> length reqs" by (metis Suc_leI drop_eq_Nil2 linorder_not_le list.distinct(1))
    then have t: "take (Suc ?n) (reqs @ [(b, ?k)]) = take (Suc ?n) reqs" by simp
    have "(reqs @ [(b, ?k)]) ! ?n = reqs ! ?n" using \<open>Suc ?n \<le> length reqs\<close> by (simp add: nth_append)
    moreover have "io_out t = io_out s" using S(5) Cons by simp
    ultimately show ?thesis
      using I S(1-4) assms(4-6) unfolding ide_inv_def d t by (auto simp: waits_def Cons)
  qed
qed
lemma serve_all_take:
  "n < length reqs \<Longrightarrow> serve_all c (map snd (take (Suc n) reqs)) =
     (let (c, ks) = serve_all c (map snd (take n reqs)); (c, k) = serve c (snd (reqs ! n)) in (c, ks @ [k]))"
  by (simp add: take_Suc_conv_app_nth serve_all_snoc split: prod.splits)

lemma ide_inv_intr:
  assumes "ata drv (dev_data s)" "\<And>h n. dev_in s h n 0x1F7 AND (IDE_DF OR IDE_ERR) = 0"
    "ide_inv drv c0 s reqs fin" "ideintr k s = Ret () t" "idequeue s = Some b"
  shows "ide_inv drv c0 t reqs (fin @ [bufs t ! b])" "dev_data t = dev_data s" "dev_in t = dev_in s"
proof -
  let ?n = "length fin" and ?c = "fst (serve_all c0 (map snd (take (length fin) reqs)))"
  note I = assms(3)[unfolded ide_inv_def]
  obtain rs where rs: "drop ?n reqs = (b, bufs s ! b) # rs" "qchain (qnext s) (qnext s b) (map fst rs)"
    using I assms(5) by (cases "drop ?n reqs") (auto simp: waits_def)
  have n: "?n < length reqs" "reqs ! ?n = (b, bufs s ! b)" "drop (Suc ?n) reqs = rs"
    using rs(1) nth_via_drop[OF rs(1)] by (metis drop_eq_Nil2 linorder_not_le list.distinct(1), simp, metis drop_Suc list.sel(3) tl_drop)
  have b: "b < length (bufs s)" "distinct (b # map fst rs)" using I rs(1) by (auto simp: waits_def)
  have ne: "qnext s b \<noteq> Some b" using rs(2) b(2) by (cases rs) auto
  note S = ideintr_step[OF assms(4,2,5) b(1) ne]
  show "dev_data t = dev_data s" "dev_in t = dev_in s" using S(3,4) by simp_all
  have d: "\<not> bdirty (bufs s ! b) \<Longrightarrow> dev_data s (io_out s) = ?c (bkey (bufs s ! b))" using I n rs(1) by simp
  have k: "bufs t ! b = snd (serve ?c (bufs s ! b))"
    using S(5) b(1) d by (cases "bufs s ! b") (simp add: serve_def)
  have sv: "serve_all c0 (map snd (take (Suc ?n) reqs)) = (fst (serve ?c (bufs s ! b)), fin @ [bufs t ! b])"
    using I n k by (simp add: serve_all_take split: prod.splits)
  have w: "waits t r" if "r \<in> set rs" for r
  proof -
    have "fst r \<noteq> b" using b(2) that by auto
    moreover have "waits s r" using I rs(1) that by simp
    ultimately show ?thesis using S(5) by (simp add: waits_def)
  qed
  have io: "drv (io_out t) = fst (serve_all c0 (map snd (take (Suc (Suc ?n)) reqs))) \<and>
    (rs \<noteq> [] \<longrightarrow> \<not> bdirty (snd (reqs ! Suc ?n)) \<longrightarrow>
       dev_data t (io_out t) = fst (serve_all c0 (map snd (take (Suc ?n) reqs))) (bkey (snd (reqs ! Suc ?n))))"
  proof (cases rs)
    case Nil
    then have "qnext s b = None" "length reqs = Suc ?n" using rs(2) n by auto
    then have "io_out t = io_out s" "take (Suc (Suc ?n)) reqs = take (Suc ?n) reqs" using S(6) by simp_all
    then show ?thesis using I Nil by simp
  next
    case (Cons r rs')
    have x: "qnext s b = Some (fst r)" using rs(2) Cons by simp
    have r: "waits s r" "Suc ?n < length reqs" "reqs ! Suc ?n = r" using I rs(1) Cons nth_via_drop[of "Suc ?n" reqs r rs'] n(3)
      by (simp, metis drop_eq_Nil2 linorder_not_le list.distinct(1), simp)
    have o: "io_out t = io_out s @ wire (snd r)" using S(6) x r(1) by (simp add: waits_def)
    have "blockno (snd r) < FSSIZE" "length (bdata (snd r)) = BSIZE" using S(7)[OF x] r(1) by (simp_all add: waits_def)
    note A = ata_wire[OF assms(1) this, of "io_out s"]
    have "drv (io_out s) = fst (serve ?c (bufs s ! b))" using I sv by simp
    then show ?thesis
      using A sv unfolding S(3) o r(3) serve_all_take[OF r(2)] by (simp split: prod.splits)
  qed
  have "NBUF < length (bufs t)" using S(5) I by simp
  moreover have "qchain (qnext t) (idequeue t) (map fst (drop (Suc ?n) reqs))" using S(1,2) rs(2) n(3) by simp
  ultimately show "ide_inv drv c0 t reqs (fin @ [bufs t ! b])"
    unfolding ide_inv_def using sv n(1,3) io w b(2) by simp
qed
section \<open>Properties\<close>

text \<open>
  C3. The driver serves requests in the order they are made, one at a time, whatever the
  interleaving of calls of \<open>iderw\<close>, of their continuations after sleeping, and of
  interrupts.  On a drive that behaves as ATA drives do and reports no error, the finished
  buffers are those that serving the requests one after the other gives, the contents of
  the drive are what the requests up to the one in progress have made of them, and the
  queue holds the others in order.  \<open>iderw\<close> returns only when its request has been
  served.
\<close>

theorem ide_serial:
  assumes "ata drv (dev_data s0)" "\<And>h n. dev_in s0 h n 0x1F7 AND (IDE_DF OR IDE_ERR) = 0"
    "idequeue s0 = None" "NBUF < length (bufs s0)" "ide_hist drv k s0 s reqs fin"
  shows "length fin \<le> length reqs \<and>
    snd (serve_all (drv (io_out s0)) (map snd (take (length fin) reqs))) = fin \<and>
    drv (io_out s) = fst (serve_all (drv (io_out s0)) (map snd (take (Suc (length fin)) reqs))) \<and>
    qchain (qnext s) (idequeue s) (map fst (drop (length fin) reqs)) \<and>
    (\<forall>q ie b t. iderw_resume q ie b s = Ret () t \<longrightarrow> b \<notin> fst ` set (drop (length fin) reqs))"
proof -
  have I: "ide_inv drv (drv (io_out s0)) s reqs fin \<and> dev_data s = dev_data s0 \<and> dev_in s = dev_in s0"
    using assms(5)
  proof induction
    case ide_start
    then show ?case using assms(3,4) by (simp add: ide_inv_def)
  next
    case (ide_rw s reqs fin b t)
    have "x < NBUF" if "x \<in> set (map fst (drop (length fin) reqs))" for x
      using ide_rw.IH that by (auto simp: ide_inv_def waits_def)
    then have "dev_data t = dev_data s" "dev_in t = dev_in s"
      using iderw_step(3,4)[OF ide_rw(2), of "map fst (drop (length fin) reqs)"] ide_rw.IH ide_rw(5) by (auto simp: ide_inv_def)
    then show ?case using ide_inv_rw[OF _ _ ide_rw(2-5)] ide_rw.IH assms(1) by simp
  next
    case (ide_resume s reqs fin q ie b t)
    obtain s1 where 1: "sleep_resume q ie L_ide s = Ret () s1" "iderw_wait b s1 = Ret () t \<or> iderw_wait b s1 = Switch t"
      using ide_resume(2) by (auto simp: iderw_resume_def sleep_resume_Switch)
    have "same s t" using same_resume[OF 1(1)] same_iderw_wait(1)[OF 1(2)] same_trans by blast
    then show ?case using ide_inv_same ide_resume.IH same_ide by metis
  next
    case (ide_intr s reqs fin t)
    show ?case
    proof (cases "idequeue s")
      case None
      then have "same s t"
        using ide_intr(2) by (auto simp: ideintr_def same_ide split: option.splits dest!: same_lock intro: same_trans)
      then show ?thesis using None ide_inv_same ide_intr.IH same_ide by (metis option.case(1))
    next
      case (Some b)
      then show ?thesis using ide_inv_intr[of drv s "drv (io_out s0)" reqs fin k t b] ide_intr(2) ide_intr.IH assms(1,2) by simp
    qed
  next
    case (ide_other s reqs fin t)
    then show ?case using ide_inv_cong[of drv _ s reqs fin t] by auto
  qed
  have "b \<notin> fst ` set (drop (length fin) reqs)" if r: "iderw_resume q ie b s = Ret () t" for q ie b t
  proof
    assume "b \<in> fst ` set (drop (length fin) reqs)"
    then have nd: "\<not> (bvalid (bufs s ! b) \<and> \<not> bdirty (bufs s ! b))" using I by (auto simp: ide_inv_def waits_def)
    obtain s1 where 1: "sleep_resume q ie L_ide s = Ret () s1" "iderw_wait b s1 = Ret () t"
      using r by (auto simp: iderw_resume_def)
    have "same s t" using same_resume[OF 1(1)] same_iderw_wait(1)[OF disjI1[OF 1(2)]] same_trans by blast
    then show False using same_iderw_wait(2)[OF disjI1[OF 1(2)] 1(2)] nd same_ide(1) by metis
  qed
  with I show ?thesis by (auto simp: ide_inv_def)
qed
text \<open>A drive to run the driver on: registers, the bytes of a sector being written, and the contents.\<close>

record drive =
  lba0 :: byte
  lba1 :: byte
  lba2 :: byte
  lba3 :: byte
  writing :: "byte list option"
  sectors :: contents

definition drive_key :: "drive \<Rightarrow> uint \<times> uint" where
  "drive_key d = (drop_bit 4 (ucast (lba3 d)) AND 1,
     ucast (lba0 d) OR push_bit 8 (ucast (lba1 d)) OR push_bit 16 (ucast (lba2 d)) OR push_bit 24 (ucast (lba3 d) AND 0x0F))"

definition drive_out :: "drive \<Rightarrow> ushort \<times> byte \<Rightarrow> drive" where
  "drive_out d pv =
     (case pv of (p, v) \<Rightarrow>
        if p = 0x1F3 then d\<lparr>lba0 := v\<rparr>
        else if p = 0x1F4 then d\<lparr>lba1 := v\<rparr>
        else if p = 0x1F5 then d\<lparr>lba2 := v\<rparr>
        else if p = 0x1F6 then d\<lparr>lba3 := v\<rparr>
        else if p = 0x1F7 then d\<lparr>writing := (if v = 0x30 then Some [] else None)\<rparr>
        else if p = 0x1F0 then
          (case writing d of None \<Rightarrow> d
           | Some w \<Rightarrow>
             if Suc (length w) = SECTOR_SIZE then d\<lparr>writing := None, sectors := (sectors d)(drive_key d := w @ [v])\<rparr>
             else d\<lparr>writing := Some (w @ [v])\<rparr>)
        else d)"

definition drive_run :: "(ushort \<times> byte) list \<Rightarrow> drive" where
  "drive_run h = foldl drive_out \<lparr>lba0 = 0, lba1 = 0, lba2 = 0, lba3 = 0, writing = None, sectors = (\<lambda>_. replicate BSIZE 0)\<rparr> h"

lemma lba_split:
  fixes n dev :: uint
  assumes "n < FSSIZE"
  shows "ucast (ucast (n AND 0xFF) :: byte) OR push_bit 8 (ucast (ucast (drop_bit 8 n AND 0xFF) :: byte)) OR
     push_bit 16 (ucast (ucast (drop_bit 16 n AND 0xFF) :: byte)) OR
     push_bit 24 (ucast (ucast (0xE0 OR push_bit 4 (dev AND 1) OR (drop_bit 24 n AND 0x0F)) :: byte) AND 0x0F) = n"
    and "drop_bit 4 (ucast (ucast (0xE0 OR push_bit 4 (dev AND 1) OR (drop_bit 24 n AND 0x0F)) :: byte)) AND 1 = dev AND 1"
proof -
  have n: "unat n < 1000" using assms by (simp add: FSSIZE_def word_less_nat_alt)
  then have z: "drop_bit 16 n = 0" "drop_bit 24 n = 0"
    by (simp_all add: drop_bit_eq_div word_unat_eq_iff unat_div)
  have m: "(0xFF :: uint) = mask 8" by (simp add: mask_eq_exp_minus_1)
  have b: "i < 16" if "bit n i" for i
    using arg_cong[OF z(1), of "\<lambda>w. bit w (i - 16)"] that by (cases "i < 16") (simp_all add: bit_drop_bit_eq)
  have "ucast (ucast (n AND 0xFF) :: byte) OR push_bit 8 (ucast (ucast (drop_bit 8 n AND 0xFF) :: byte)) = n"
    unfolding m
  proof (rule bit_word_eqI)
    fix i assume "i < LENGTH(32)"
    consider "i < 8" | "8 \<le> i" "i < 16" | "16 \<le> i" "\<not> bit n i" using b[of i] by linarith
    then show "bit (ucast (ucast (n AND mask 8) :: byte) OR push_bit 8 (ucast (ucast (drop_bit 8 n AND mask 8) :: byte)) :: uint) i = bit n i"
      by cases (use \<open>i < LENGTH(32)\<close> in \<open>auto simp: bit_simps\<close>)
  qed
  moreover have "push_bit 24 (ucast (ucast (0xE0 OR push_bit 4 v OR (drop_bit 24 n AND 0x0F)) :: byte) AND 0x0F) = (0 :: uint)"
    and "drop_bit 4 (ucast (ucast (0xE0 OR push_bit 4 v OR (drop_bit 24 n AND 0x0F)) :: byte)) AND 1 = v"
    if "v = 0 \<or> v = 1" for v :: uint using that unfolding z by auto
  moreover have "dev AND 1 = 0 \<or> dev AND 1 = 1" by (cases "even dev") (simp_all add: and_one_eq mod2_eq_if)
  ultimately show "ucast (ucast (n AND 0xFF) :: byte) OR push_bit 8 (ucast (ucast (drop_bit 8 n AND 0xFF) :: byte)) OR
     push_bit 16 (ucast (ucast (drop_bit 16 n AND 0xFF) :: byte)) OR
     push_bit 24 (ucast (ucast (0xE0 OR push_bit 4 (dev AND 1) OR (drop_bit 24 n AND 0x0F)) :: byte) AND 0x0F) = n"
    "drop_bit 4 (ucast (ucast (0xE0 OR push_bit 4 (dev AND 1) OR (drop_bit 24 n AND 0x0F)) :: byte)) AND 1 = dev AND 1"
    unfolding z(1) by (simp_all only: and_zero_eq and.left_neutral ucast_0 push_bit_of_0 or.right_neutral bit.conj_zero_left)
qed

lemma drive_cmd:
  assumes "n < FSSIZE"
  shows "drive_key (foldl drive_out d (ide_cmd wr dev n)) = (dev AND 1, n)"
    "writing (foldl drive_out d (ide_cmd wr dev n)) = (if wr then Some [] else None)"
    "sectors (foldl drive_out d (ide_cmd wr dev n)) = sectors d"
  using lba_split[OF assms, of dev] by (simp_all add: ide_cmd_def drive_out_def drive_key_def)

lemma drive_bytes:
  assumes "writing d = Some w" "length w + length bs < SECTOR_SIZE"
  shows "foldl drive_out d (map (Pair 0x1F0) bs) = d\<lparr>writing := Some (w @ bs)\<rparr>"
  using assms
proof (induction bs arbitrary: d w)
  case (Cons b bs)
  have "drive_out d (0x1F0, b) = d\<lparr>writing := Some (w @ [b])\<rparr>" using Cons.prems by (simp add: drive_out_def)
  then show ?case using Cons.IH[of "d\<lparr>writing := Some (w @ [b])\<rparr>" "w @ [b]"] Cons.prems(2) by simp
qed simp

lemma drive_sector:
  assumes "writing d = Some []" "length bs = SECTOR_SIZE"
  shows "sectors (foldl drive_out d (map (Pair 0x1F0) bs)) = (sectors d)(drive_key d := bs)"
proof -
  obtain cs c where bs: "bs = cs @ [c]" using assms(2) by (cases bs rule: rev_cases) (simp_all add: SECTOR_SIZE_def)
  have "foldl drive_out d (map (Pair 0x1F0) cs) = d\<lparr>writing := Some cs\<rparr>"
    using drive_bytes[OF assms(1), of cs] assms(2) bs by simp
  then show ?thesis using assms(2) bs by (simp add: drive_out_def drive_key_def)
qed

lemma ata_drive: "ata (\<lambda>h. sectors (drive_run h)) (\<lambda>h. sectors (drive_run h) (drive_key (drive_run h)))"
  by (simp add: ata_def drive_run_def drive_cmd drive_sector)

text \<open>A process that has locked a dirty buffer, on a machine whose drive is always ready.\<close>

definition idle_proc :: "procstate \<Rightarrow> proc" where
  "idle_proc st = (procs (idle_state (\<lambda>_. []) 0 ()) ! 0)\<lparr>pstate := st\<rparr>"

definition dirty_buf :: buf where
  "dirty_buf = zero_buf\<lparr>bdirty := True, blockno := 7, bdata := replicate BSIZE 5\<rparr>"

definition ide_state :: idest where
  "ide_state =
     (consst.extend (apicst.extend (icst.extend (logst.extend (bufst.extend (idle_state (\<lambda>_. []) 0 ())
        (logst.fields 0 0 0 False 0 0 []))
        (icst.fields \<lparr>sb_size = 0, sb_nblocks = 0, sb_ninodes = 0, sb_nlog = 0, sb_logstart = 0, sb_inodestart = 0, sb_bmapstart = 0\<rparr> []))
        (apicst.fields 0 (\<lambda>_. 0) 0 (\<lambda>_. 0) [] (\<lambda>_. 0)))
        (consst.fields False False [] 0 0 0 [] 0 False [] []))
        (idest.fields None (\<lambda>_. None) False 0 (\<lambda>_ _ _. 0x40) 0 (\<lambda>h. sectors (drive_run h) (drive_key (drive_run h)))))
     \<lparr>procs := idle_proc RUNNING # replicate 63 (idle_proc UNUSED),
      sleeps := (\<lambda>_. \<lparr>sl_locked = True, sl_name = [], sl_pid = 1\<rparr>),
      bufs := (replicate (Suc NBUF) zero_buf)[0 := dirty_buf]\<rparr>"

lemma ide_state_sel [simp]:
  "procs ide_state = idle_proc RUNNING # replicate 63 (idle_proc UNUSED)" "sl_locked (sleeps ide_state l)"
  "bufs ide_state = (replicate (Suc NBUF) zero_buf)[0 := dirty_buf]" "idequeue ide_state = None" "qnext ide_state = (\<lambda>_. None)"
  "dev_in ide_state = (\<lambda>_ _ _. 0x40)" "io_out ide_state = []" "this_cpu ide_state = Some 0" "ncli (cpus ide_state ! 0) = 0"
  "dev_data ide_state = (\<lambda>h. sectors (drive_run h) (drive_key (drive_run h)))"
  by (simp_all add: ide_state_def idle_state_def logst.defs icst.defs apicst.defs consst.defs idest.defs bufst.defs this_cpu_def)

lemma ide_state_calm: "calm ide_state"
  by (simp add: ide_state_def idle_state_def calm_def cli_ok_def this_cpu_def readeflags_IF_def lk_free_def cur_def
      logst.defs icst.defs apicst.defs consst.defs idest.defs bufst.defs)

lemma ide_upd [simp]:
  "acq l (s\<lparr>qnext := qn, idequeue := q, dev_n := n, io_out := h\<rparr>) = (acq l s)\<lparr>qnext := qn, idequeue := q, dev_n := n, io_out := h\<rparr>"
  "calm (s\<lparr>qnext := qn, idequeue := q, dev_n := n, io_out := h\<rparr>) = calm s"
  "this_cpu (s\<lparr>qnext := qn, idequeue := q, dev_n := n, io_out := h\<rparr>) = this_cpu s"
  "io_out (acq l s) = io_out s" "bufs (acq l s) = bufs s" "idequeue (acq l s) = idequeue s" "qnext (acq l s) = qnext s"
  "dev_in (acq l s) = dev_in s" "dev_n (acq l s) = dev_n s" "dev_data (acq l s) = dev_data s"
  by (simp_all add: acq_def this_cpu_def calm_def cli_ok_def readeflags_IF_def lk_free_def cur_def)

lemma ide_state_rw: "\<exists>t. iderw_pio 1 0 ide_state = Switch t"
proof -
  let ?a = "acq L_ide ide_state"
  let ?s = "ide_state\<lparr>qnext := (\<lambda>_. None), idequeue := Some 0, dev_n := Suc (dev_n ide_state), io_out := wire dirty_buf\<rparr>"
  have b: "bufs ide_state ! 0 = dirty_buf" by (simp add: NBUF_def)
  have "iderw_pio 1 0 ide_state = iderw_wait 0 (acq L_ide ?s)"
    by (simp add: iderw_pio_def holdingsleep_eq[OF ide_state_calm] acquire_acq[OF calmD[OF ide_state_calm]] b qderef_def qstore_def
        idestart_def dev_inb_def Let_def outb_def outsl_def wire_def ide_cmd_def fun_upd_idem
        dirty_buf_def zero_buf_def FSSIZE_def BSIZE_def SECTOR_SIZE_def IDE_BSY_def IDE_DRDY_def IDE_CMD_WRITE_def)
  moreover have "\<exists>t. sleep (Ch_buf 0) L_ide (acq L_ide ?s) = Switch t"
    by (rule sleep_Switch) (auto simp: ide_state_calm idle_proc_def NPROC_def)
  ultimately show ?thesis by (auto simp: iderw_wait_def b dirty_buf_def zero_buf_def)
qed

lemma ide_state_intr:
  assumes "qn 0 = None"
  shows "\<exists>t. ideintr k (ide_state\<lparr>qnext := qn, idequeue := Some 0, dev_n := n, io_out := h\<rparr>) = Ret () t"
proof -
  let ?s = "ide_state\<lparr>qnext := qn, idequeue := Some 0, dev_n := n, io_out := h\<rparr>"
  let ?k = "dirty_buf\<lparr>bvalid := True, bdirty := False\<rparr>"
  let ?y = "?s\<lparr>idequeue := None, bufs := (bufs ide_state)[0 := ?k]\<rparr>"
  have b: "bufs ide_state ! 0 = dirty_buf" by (simp add: NBUF_def)
  note c = calmD[of ?s, unfolded ide_upd, OF ide_state_calm]
  have "calm ?y = calm ide_state" by (simp add: calm_def cli_ok_def this_cpu_def readeflags_IF_def lk_free_def cur_def)
  then have y: "calm ?y" using ide_state_calm by (rule iffD2)
  have q: "(acq L_ide ?s)\<lparr>idequeue := None, bufs := (bufs ide_state)[0 := ?k]\<rparr> = acq L_ide ?y" by (simp add: acq_def this_cpu_def)
  have "wakeup (Ch_buf 0) (acq L_ide ?y) = Ret () ((acq L_ide ?y)\<lparr>procs := map (wk (Ch_buf 0)) (procs (acq L_ide ?y))\<rparr>)"
    by (rule wakeup_eq) (use calmD[OF y] in simp_all)
  moreover have "release L_ide ((acq L_ide ?y)\<lparr>procs := ps\<rparr>) = Ret () (((acq L_ide ?y)\<lparr>procs := ps\<rparr>)\<lparr>hw_if := hw_if ?y, cpus := cpus ?y, locks := locks ?y\<rparr>)" for ps
    by (rule release_acq[OF calmD[OF y]]) simp_all
  moreover have "ideintr k ?s = bnd (wakeup (Ch_buf 0) (acq L_ide ?y)) (\<lambda>_ s.
       bnd (if idequeue s \<noteq> None then idestart k (idequeue s) s else Ret () s) (\<lambda>_ s. release L_ide s))"
    using assms q by (simp add: ideintr_def acquire_acq[OF c] upd_buf_def b Let_def dirty_buf_def NBUF_def)
  moreover have "idequeue (acq L_ide ?y) = None" by simp
  ultimately show ?thesis by simp
qed

theorem ide_serial_witness:
  "\<exists>s k. ide_hist (\<lambda>h. sectors (drive_run h)) 1 ide_state s [(0, dirty_buf)] [k] \<and> bvalid k \<and> \<not> bdirty k \<and>
     sectors (drive_run (io_out s)) (0, 7) = replicate BSIZE 5"
proof -
  let ?d = "\<lambda>h. sectors (drive_run h)"
  have b: "bufs ide_state ! 0 = dirty_buf" by (simp add: NBUF_def)
  obtain t where t: "iderw_pio 1 0 ide_state = Switch t" using ide_state_rw by blast
  have h1: "ide_hist ?d 1 ide_state t [(0, dirty_buf)] []"
    using ide_rw[OF ide_start, of 1 0 ide_state t ?d] t b by (simp add: NBUF_def dirty_buf_def)
  note T = iderw_step[OF disjI2[OF t], of "[]", simplified]
  let ?u = "ide_state\<lparr>qnext := qnext t, idequeue := Some 0, dev_n := dev_n t, io_out := io_out t\<rparr>"
  obtain v where v: "ideintr 1 ?u = Ret () v" using ide_state_intr[of "qnext t" 1] T(1) by blast
  have "ide_hist ?d 1 ide_state ?u [(0, dirty_buf)] []"
    by (rule ide_other[OF h1]) (use T in simp_all)
  from ide_intr[OF this v] have h: "ide_hist ?d 1 ide_state v [(0, dirty_buf)] [bufs v ! 0]" by simp
  have "ata ?d (dev_data ide_state)" using ata_drive by simp
  from ide_serial[OF this _ _ _ h]
  have "snd (serve_all (?d []) [dirty_buf]) = [bufs v ! 0] \<and> ?d (io_out v) = fst (serve_all (?d []) [dirty_buf])"
    by (simp add: IDE_DF_def IDE_ERR_def)
  then have "bufs v ! 0 = snd (serve (?d []) dirty_buf)" "?d (io_out v) (0, 7) = replicate BSIZE 5"
    by (auto simp: serve_def bkey_def dirty_buf_def zero_buf_def)
  then show ?thesis using h by (intro exI[of _ v] exI[of _ "bufs v ! 0"]) (simp add: serve_def dirty_buf_def)
qed



end
