(* ===== verification/Fs.thy ===== *)
theory Fs
  imports Console
begin

text \<open>
  File content, directories and path names: the second half of
  \<open>kernel/fs.c\<close>.

  \<open>readi\<close> returns the bytes it copies to \<open>dst\<close> and \<open>writei\<close>
  takes the bytes at \<open>src\<close>; a caller that reads into user memory stores them
  there.  Path names are character arrays (theory Cstring); \<open>name\<close> is an array
  of \<open>DIRSIZ\<close> bytes.
\<close>

section \<open>File content\<close>

definition DIRSIZ :: nat where "DIRSIZ = 14"
definition ROOTDEV :: uint where "ROOTDEV = 1"
definition ROOTINO :: uint where "ROOTINO = 1"

text \<open>\<open>devsw[ip->major].read\<close> and \<open>.write\<close> are set together.\<close>

definition dev_of :: "nat \<Rightarrow> ('x) consst_scheme \<Rightarrow> devfn option" where
  "dev_of ip s =
     (let mj = sint (imajor (inodes s ! ip)) in
      if mj < 0 \<or> mj \<ge> int NDEV then None else devsw s ! nat mj)"

text \<open>How many bytes of the block that contains \<open>off\<close> an access of \<open>n\<close> bytes uses.\<close>

definition chunk :: "uint \<Rightarrow> nat \<Rightarrow> nat" where
  "chunk off n = min n (BSIZE - unat off mod BSIZE)"

lemma chunk_pos: "0 < n \<Longrightarrow> 0 < chunk off n"
  by (simp add: chunk_def BSIZE_def)

function readi_loop ::
  "nat \<Rightarrow> uint \<Rightarrow> nat \<Rightarrow> byte list \<Rightarrow> ('x) consst_scheme \<Rightarrow> (('x) consst_scheme, byte list) outcome" where
  "readi_loop ip off n dst s =
     (if n = 0 then Ret dst s
      else
        bnd (bmap ip (off div of_nat BSIZE) s) (\<lambda>a s.
        bnd (bread (idev (inodes s ! ip)) a s) (\<lambda>bp s.
        let m = chunk off n;
            dst = dst @ seg (unat off mod BSIZE) m (bdata (bufs s ! bp)) in
        bnd (brelse bp s) (\<lambda>_ s.
        readi_loop ip (off + of_nat m) (n - m) dst s))))"
  by pat_completeness auto
termination
  by (relation "measure (\<lambda>(ip, off, n, dst, s). n)") (use chunk_pos in auto)

declare readi_loop.simps [simp del]

definition readi :: "nat \<Rightarrow> uint \<Rightarrow> uint \<Rightarrow> ('x) consst_scheme \<Rightarrow> (('x) consst_scheme, int \<times> byte list) outcome" where
  "readi ip off n s =
     (if itype (inodes s ! ip) = T_DEV
      then case dev_of ip s of
             None \<Rightarrow> Ret (- 1, []) s
           | Some DEV_CONSOLE \<Rightarrow> consoleread ip (nat (sint n)) s
      else if off > isize (inodes s ! ip) \<or> off + n < off then Ret (- 1, []) s
      else
        let n = (if off + n > isize (inodes s ! ip) then isize (inodes s ! ip) - off else n) in
        bnd (readi_loop ip off (unat n) [] s) (\<lambda>dst s.
        Ret (sint n, dst) s))"

function writei_loop ::
  "nat \<Rightarrow> uint \<Rightarrow> byte list \<Rightarrow> ('x) consst_scheme \<Rightarrow> (('x) consst_scheme, uint) outcome" where
  "writei_loop ip off src s =
     (if src = [] then Ret off s
      else
        bnd (bmap ip (off div of_nat BSIZE) s) (\<lambda>a s.
        bnd (bread (idev (inodes s ! ip)) a s) (\<lambda>bp s.
        let m = chunk off (length src);
            s = upd_buf bp (\<lambda>k. k\<lparr>bdata := blit (unat off mod BSIZE) (take m src) (bdata k)\<rparr>) s in
        bnd (log_write bp s) (\<lambda>_ s.
        bnd (brelse bp s) (\<lambda>_ s.
        writei_loop ip (off + of_nat m) (drop m src) s)))))"
  by pat_completeness auto
termination
  by (relation "measure (\<lambda>(ip, off, src, s). length src)") (use chunk_pos in auto)

declare writei_loop.simps [simp del]

text \<open>\<open>src\<close> has less than \<open>2 ^ 31\<close> bytes.\<close>

definition writei :: "nat \<Rightarrow> byte list \<Rightarrow> uint \<Rightarrow> ('x) consst_scheme \<Rightarrow> (('x) consst_scheme, int) outcome" where
  "writei ip src off s =
     (let n = of_nat (length src) in
      if itype (inodes s ! ip) = T_DEV
      then case dev_of ip s of
             None \<Rightarrow> Ret (- 1) s
           | Some DEV_CONSOLE \<Rightarrow> consolewrite ip src s
      else if off > isize (inodes s ! ip) \<or> off + n < off then Ret (- 1) s
      else if unat (off + n) > MAXFILE * BSIZE then Ret (- 1) s
      else
        bnd (writei_loop ip off src s) (\<lambda>off s.
        bnd (if n > 0 \<and> off > isize (inodes s ! ip)
             then let s = upd_inode ip (\<lambda>k. k\<lparr>isize := off\<rparr>) s in iupdate ip s
             else Ret () s) (\<lambda>_ s.
        Ret (int (length src)) s)))"

section \<open>Directories\<close>

definition namecmp :: "byte list \<Rightarrow> byte list \<Rightarrow> int" where
  "namecmp s t = strncmp s t DIRSIZ"

record dirent =
  de_inum :: ushort
  de_name :: "byte list"

definition dirent_of :: "byte list \<Rightarrow> dirent" where
  "dirent_of bs = \<lparr>de_inum = un16 (seg 0 2 bs), de_name = seg 2 DIRSIZ bs\<rparr>"

definition dirent_bytes :: "dirent \<Rightarrow> byte list" where
  "dirent_bytes de = le16 (de_inum de) @ de_name de"

text \<open>The values of \<open>off\<close> in \<open>for(off = 0; off < size; off += sizeof(de))\<close>.\<close>

definition dir_offs :: "uint \<Rightarrow> nat list" where
  "dir_offs sz = map (\<lambda>i. 16 * i) [0..<(unat sz + 15) div 16]"

fun dirlookup_loop :: "nat list \<Rightarrow> nat \<Rightarrow> byte list \<Rightarrow> ('x) consst_scheme \<Rightarrow> (('x) consst_scheme, (nat \<times> uint) option) outcome" where
  "dirlookup_loop [] dp name s = Ret None s"
| "dirlookup_loop (off # offs) dp name s =
     bnd (readi dp (of_nat off) 16 s) (\<lambda>(r, bs) s.
     if r \<noteq> 16 then Panic ''dirlookup read''
     else
       let de = dirent_of bs in
       if de_inum de = 0 then dirlookup_loop offs dp name s
       else if namecmp name (de_name de) = 0
       then bnd (iget (idev (inodes s ! dp)) (ucast (de_inum de)) s) (\<lambda>ip s. Ret (Some (ip, of_nat off)) s)
       else dirlookup_loop offs dp name s)"

definition dirlookup :: "nat \<Rightarrow> byte list \<Rightarrow> ('x) consst_scheme \<Rightarrow> (('x) consst_scheme, (nat \<times> uint) option) outcome" where
  "dirlookup dp name s =
     (if itype (inodes s ! dp) \<noteq> T_DIR then Panic ''dirlookup not DIR''
      else dirlookup_loop (dir_offs (isize (inodes s ! dp))) dp name s)"

text \<open>The offset at which the search of \<open>dirlink\<close> for an empty entry stops.\<close>

fun dirlink_slot :: "nat list \<Rightarrow> nat \<Rightarrow> ('x) consst_scheme \<Rightarrow> (('x) consst_scheme, nat option) outcome" where
  "dirlink_slot [] dp s = Ret None s"
| "dirlink_slot (off # offs) dp s =
     bnd (readi dp (of_nat off) 16 s) (\<lambda>(r, bs) s.
     if r \<noteq> 16 then Panic ''dirlink read''
     else if de_inum (dirent_of bs) = 0 then Ret (Some off) s
     else dirlink_slot offs dp s)"

definition dirlink :: "nat \<Rightarrow> byte list \<Rightarrow> uint \<Rightarrow> ('x) consst_scheme \<Rightarrow> (('x) consst_scheme, int) outcome" where
  "dirlink dp name n s =
     bnd (dirlookup dp name s) (\<lambda>r s.
     case r of
       Some (ip, _) \<Rightarrow> bnd (iput ip s) (\<lambda>_ s. Ret (- 1) s)
     | None \<Rightarrow>
         let offs = dir_offs (isize (inodes s ! dp)) in
         bnd (dirlink_slot offs dp s) (\<lambda>slot s.
         let off = (case slot of Some off \<Rightarrow> off | None \<Rightarrow> 16 * length offs);
             de = \<lparr>de_inum = ucast n, de_name = strncpy_bytes name DIRSIZ\<rparr> in
         bnd (writei dp (dirent_bytes de) (of_nat off) s) (\<lambda>r s.
         if r \<noteq> 16 then Panic ''dirlink'' else Ret 0 s)))"

section \<open>Paths\<close>

definition skipelem :: "byte list \<Rightarrow> byte list \<Rightarrow> (byte list \<times> byte list) option" where
  "skipelem path name =
     (let path = dropWhile (\<lambda>c. c = 47) path in
      if chr path = 0 then None
      else
        let t = path;
            path = dropWhile (\<lambda>c. c \<noteq> 47 \<and> c \<noteq> 0) path;
            len = length t - length path;
            name = (if len \<ge> DIRSIZ then blit 0 (take DIRSIZ t) name
                    else (blit 0 (take len t) name)[len := 0]) in
        Some (dropWhile (\<lambda>c. c = 47) path, name))"

lemma length_dropWhile_chr: "chr p \<noteq> 0 \<Longrightarrow> chr p \<noteq> 47 \<Longrightarrow> length (dropWhile (\<lambda>c. c \<noteq> 47 \<and> c \<noteq> 0) p) < length p"
  by (cases p) (auto simp: chr_def le_imp_less_Suc length_dropWhile_le)

lemma chr_dropWhile_slash: "chr (dropWhile (\<lambda>c. c = 47) p) \<noteq> 47"
  by (induction p) (auto simp: chr_def)

lemma skipelem_shorter: "skipelem path name = Some (path', name') \<Longrightarrow> length path' < length path"
proof -
  assume a: "skipelem path name = Some (path', name')"
  let ?t = "dropWhile (\<lambda>c. c = 47) path"
  have "length path' \<le> length (dropWhile (\<lambda>c. c \<noteq> 47 \<and> c \<noteq> 0) ?t)"
    using a by (auto simp: skipelem_def Let_def length_dropWhile_le split: if_splits)
  also have "\<dots> < length ?t"
    by (rule length_dropWhile_chr) (use a chr_dropWhile_slash[of path] in \<open>auto simp: skipelem_def Let_def split: if_splits\<close>)
  finally show ?thesis using length_dropWhile_le[of "\<lambda>c. c = 47" path] by linarith
qed

function namex_loop ::
  "byte list \<Rightarrow> bool \<Rightarrow> byte list \<Rightarrow> nat \<Rightarrow> ('x) consst_scheme \<Rightarrow> (('x) consst_scheme, nat option \<times> byte list) outcome" where
  "namex_loop path nameiparent name ip s =
     (case skipelem path name of
        None \<Rightarrow>
          if nameiparent then bnd (iput ip s) (\<lambda>_ s. Ret (None, name) s)
          else Ret (Some ip, name) s
      | Some (path', name') \<Rightarrow>
          bnd (ilock ip s) (\<lambda>_ s.
          if itype (inodes s ! ip) \<noteq> T_DIR then bnd (iunlockput ip s) (\<lambda>_ s. Ret (None, name') s)
          else if nameiparent \<and> chr path' = 0 then bnd (iunlock ip s) (\<lambda>_ s. Ret (Some ip, name') s)
          else
            bnd (dirlookup ip name' s) (\<lambda>r s.
            case r of
              None \<Rightarrow> bnd (iunlockput ip s) (\<lambda>_ s. Ret (None, name') s)
            | Some (next, _) \<Rightarrow>
                bnd (iunlockput ip s) (\<lambda>_ s. namex_loop path' nameiparent name' next s))))"
  by pat_completeness auto
termination
  by (relation "measure (\<lambda>(path, nameiparent, name, ip, s). length path)") (auto dest: skipelem_shorter)

declare namex_loop.simps [simp del]

text \<open>
  132 is the offset of \<open>cwd\<close> in \<open>struct proc\<close>; a null \<open>cwd\<close> makes
  \<open>idup\<close> count a reference at the offset 8 of \<open>ref\<close> in an inode.
\<close>

definition namex :: "byte list \<Rightarrow> bool \<Rightarrow> byte list \<Rightarrow> ('x) consst_scheme \<Rightarrow> (('x) consst_scheme, nat option \<times> byte list) outcome" where
  "namex path nameiparent name s =
     bnd (if chr path = 47 then iget ROOTDEV ROOTINO s
          else bnd (myproc s) (\<lambda>p s.
            case p of None \<Rightarrow> Fault 132
            | Some p \<Rightarrow> (case cwd (procs s ! p) of None \<Rightarrow> Fault 8 | Some ip \<Rightarrow> idup ip s))) (\<lambda>ip s.
     namex_loop path nameiparent name ip s)"

definition namei :: "byte list \<Rightarrow> ('x) consst_scheme \<Rightarrow> (('x) consst_scheme, nat option) outcome" where
  "namei path s = bnd (namex path False (replicate DIRSIZ 0) s) (\<lambda>r s. Ret (fst r) s)"

definition nameiparent :: "byte list \<Rightarrow> byte list \<Rightarrow> ('x) consst_scheme \<Rightarrow> (('x) consst_scheme, nat option \<times> byte list) outcome" where
  "nameiparent path name s = namex path True name s"

section \<open>Loading a program\<close>

text \<open>\<open>loaduvm\<close> of \<open>kernel/vm.c\<close>.\<close>

fun loaduvm_loop ::
  "uint list \<Rightarrow> uint \<Rightarrow> uint \<Rightarrow> nat \<Rightarrow> uint \<Rightarrow> uint \<Rightarrow> ('x) consst_scheme \<Rightarrow> (('x) consst_scheme, int) outcome" where
  "loaduvm_loop [] pd addr ip offset sz s = Ret 0 s"
| "loaduvm_loop (i # js) pd addr ip offset sz s =
     bnd (walkpgdir pd (addr + i) False s) (\<lambda>pte s.
     if pte = 0 then Panic ''loaduvm: address should exist''
     else
       let pa = PTE_ADDR (rd32 pte s);
           n = (if sz - i < PGSIZE then sz - i else PGSIZE) in
       bnd (readi ip (offset + i) n s) (\<lambda>(r, bs) s.
       let s = s\<lparr>mem := write_bytes (P2V pa) bs (mem s)\<rparr> in
       if r \<noteq> uint n then Ret (- 1) s
       else loaduvm_loop js pd addr ip offset sz s))"

definition loaduvm :: "uint \<Rightarrow> uint \<Rightarrow> nat \<Rightarrow> uint \<Rightarrow> uint \<Rightarrow> ('x) consst_scheme \<Rightarrow> (('x) consst_scheme, int) outcome" where
  "loaduvm pd addr ip offset sz s =
     (if addr mod PGSIZE \<noteq> 0 then Panic ''loaduvm: addr must be page aligned''
      else loaduvm_loop (page_steps 0 sz) pd addr ip offset sz s)"

end
