(* ===== verification/Files.thy ===== *)
theory Files
  imports Blocks Fs
begin

text \<open>
  What a file holds: the blocks that an inode names, directly and through its indirect
  block, and what \<open>bmap\<close>, \<open>readi\<close> and \<open>writei\<close> do to them inside a
  transaction.
\<close>

section \<open>The blocks of an inode\<close>

text \<open>
  The addresses of an inode: 0 to 11 are the direct ones, 12 is the indirect block and 13
  to 140 are the entries of that block.  Block \<open>i\<close> of the file is at address
  \<open>fslot i\<close>.
\<close>

definition addr :: "(uint \<Rightarrow> block) \<Rightarrow> uint list \<Rightarrow> nat \<Rightarrow> uint" where
  "addr C as j = (if j < 13 then as ! j else if as ! 12 = 0 then 0 else un32 (seg (4 * (j - 13)) 4 (C (as ! 12))))"

definition fslot :: "nat \<Rightarrow> nat" where
  "fslot i = (if i < 12 then i else Suc i)"

lemma fslot_less: "i < MAXFILE \<Longrightarrow> fslot i < 141" "fslot i \<noteq> 12" "fslot i = fslot j \<longleftrightarrow> i = j"
  by (auto simp: fslot_def MAXFILE_def NDIRECT_def NINDIRECT_def)

definition faddr :: "('x) icst_scheme \<Rightarrow> nat \<Rightarrow> nat \<Rightarrow> uint" where
  "faddr s ip j = addr (content s) (iaddrs (inodes s ! ip)) j"

text \<open>A block that is not there reads as zeroes.\<close>

definition fblock :: "('x) icst_scheme \<Rightarrow> nat \<Rightarrow> nat \<Rightarrow> block" where
  "fblock s ip i = (if faddr s ip (fslot i) = 0 then replicate BSIZE 0 else content s (faddr s ip (fslot i)))"

definition fbyte :: "('x) icst_scheme \<Rightarrow> nat \<Rightarrow> nat \<Rightarrow> byte" where
  "fbyte s ip x = fblock s ip (x div BSIZE) ! (x mod BSIZE)"

text \<open>The bytes of a file.\<close>

definition contents :: "('x) icst_scheme \<Rightarrow> nat \<Rightarrow> byte list" where
  "contents s ip = map (fbyte s ip) [0..<unat (isize (inodes s ! ip))]"

section \<open>Well-formed files\<close>

text \<open>
  A block of a file: marked in the bitmap, outside the log and the bitmap, and not the block
  of the inode.
\<close>

definition data_block :: "('x) icst_scheme \<Rightarrow> nat \<Rightarrow> uint \<Rightarrow> bool" where
  "data_block s ip a \<longleftrightarrow> unat a < fs_blocks s \<and> used s (unat a) \<and> \<not> in_log (log_start s) (unat a) \<and>
     (\<forall>b < fs_blocks s. BBLOCK (of_nat b) (sb s) \<noteq> a) \<and> a \<noteq> iblk ip s"

definition file_ok :: "('x) icst_scheme \<Rightarrow> nat \<Rightarrow> bool" where
  "file_ok s ip \<longleftrightarrow> ip < length (inodes s) \<and> idev (inodes s ! ip) = 1 \<and> length (iaddrs (inodes s ! ip)) = 13 \<and>
     bitmap_ok s \<and> 0 < fs_blocks s \<and> used s 0 \<and>
     unat (iblk ip s) < fs_blocks s \<and> used s (unat (iblk ip s)) \<and> \<not> in_log (log_start s) (unat (iblk ip s)) \<and>
     (\<forall>b < fs_blocks s. BBLOCK (of_nat b) (sb s) \<noteq> iblk ip s) \<and>
     (\<forall>j < 141. faddr s ip j \<noteq> 0 \<longrightarrow> data_block s ip (faddr s ip j)) \<and>
     (\<forall>i < 141. \<forall>j < 141. faddr s ip i \<noteq> 0 \<longrightarrow> faddr s ip i = faddr s ip j \<longrightarrow> i = j)"

lemma file_okD:
  assumes "file_ok s ip"
  shows "ip < length (inodes s)" "idev (inodes s ! ip) = 1" "length (iaddrs (inodes s ! ip)) = 13" "bitmap_ok s" "0 < fs_blocks s" "used s 0"
    "j < 141 \<Longrightarrow> faddr s ip j \<noteq> 0 \<Longrightarrow> data_block s ip (faddr s ip j)"
    "i < 141 \<Longrightarrow> j < 141 \<Longrightarrow> faddr s ip i \<noteq> 0 \<Longrightarrow> faddr s ip i = faddr s ip j \<Longrightarrow> i = j"
    "unat (iblk ip s) < fs_blocks s" "used s (unat (iblk ip s))" "\<not> in_log (log_start s) (unat (iblk ip s))"
    "b < fs_blocks s \<Longrightarrow> BBLOCK (of_nat b) (sb s) \<noteq> iblk ip s"
  using assms unfolding file_ok_def by blast+

text \<open>What other steps must leave alone to keep a file as it is.\<close>

lemma file_frame:
  assumes "content t = content s" "inodes t = inodes s"
  shows "faddr t ip = faddr s ip" "fblock t ip = fblock s ip" "fbyte t ip = fbyte s ip" "contents t ip = contents s ip"
proof -
  show a: "faddr t ip = faddr s ip" by (rule ext) (simp add: faddr_def assms)
  show b: "fblock t ip = fblock s ip" by (rule ext) (simp add: fblock_def a assms(1))
  show c: "fbyte t ip = fbyte s ip" by (rule ext) (simp add: fbyte_def b)
  show "contents t ip = contents s ip" by (simp add: contents_def c assms(2))
qed

lemma file_ok_frame:
  assumes "view t = view s" "inodes t = inodes s" "sb t = sb s" "log_start t = log_start s"
  shows "file_ok t ip = file_ok s ip"
proof -
  have "content t = content s" "disksize t = disksize s" using assms(1) unfolding view_sel[symmetric] by simp_all
  moreover have "used t = used s" by (rule used_frame[OF assms(1,3)])
  ultimately show ?thesis
    using assms file_frame(1)[of t s ip] by (simp add: file_ok_def data_block_def bitmap_ok_def fs_blocks_def iblk_def)
qed

definition nfree :: "('x) icst_scheme \<Rightarrow> nat" where
  "nfree s = card {b. b < fs_blocks s \<and> \<not> used s b}"

section \<open>A new block\<close>

text \<open>
  \<open>alloc_step s t ip j c\<close>: block \<open>c\<close>, which was free, is now the zeroed block at
  address \<open>j\<close> of the file, and nothing else has changed but the bitmap and, for an
  entry of the indirect block, that block.
\<close>

definition alloc_step :: "('x) icst_scheme \<Rightarrow> ('x) icst_scheme \<Rightarrow> nat \<Rightarrow> nat \<Rightarrow> nat \<Rightarrow> bool" where
  "alloc_step s t ip j c \<longleftrightarrow> j < 141 \<and> faddr s ip j = 0 \<and> c < fs_blocks s \<and> \<not> used s c \<and>
     (\<forall>i < 141. faddr t ip i = (if i = j then of_nat c else faddr s ip i)) \<and>
     content t (of_nat c) = replicate BSIZE 0 \<and>
     (\<forall>n. n \<noteq> of_nat c \<longrightarrow> n \<noteq> BBLOCK (of_nat c) (sb s) \<longrightarrow> (13 \<le> j \<longrightarrow> n \<noteq> faddr s ip 12) \<longrightarrow> content t n = content s n) \<and>
     (\<forall>x < fs_blocks s. used t x = (x = c \<or> used s x)) \<and>
     (\<exists>as. length as = 13 \<and> inodes t = (inodes s)[ip := (inodes s ! ip)\<lparr>iaddrs := as\<rparr>]) \<and>
     bitmap_ok t \<and> sb t = sb s \<and> log_start t = log_start s"

lemma alloc_step_file:
  assumes "file_ok s ip" "alloc_step s t ip j c"
  shows "file_ok t ip" "i < MAXFILE \<Longrightarrow> fblock t ip i = fblock s ip i" "nfree s = Suc (nfree t)" "(of_nat c :: uint) \<noteq> 0"
    "faddr t ip j = of_nat c" "iblk ip t = iblk ip s"
proof -
  note F = file_okD[OF assms(1)] and A = assms(2)[unfolded alloc_step_def]
  have fb: "fs_blocks t = fs_blocks s" using A by (simp add: fs_blocks_def)
  have c: "unat (of_nat c :: uint) = c" using A fs_blocks_less[of s] unat_nat32[of c] by simp
  show c0: "(of_nat c :: uint) \<noteq> 0" using c F(6) A by auto
  show j: "faddr t ip j = of_nat c" using A by simp
  show ib: "iblk ip t = iblk ip s" using A F(1) by (auto simp: iblk_def)
  have us: "used s (unat a) \<Longrightarrow> a \<noteq> of_nat c" for a :: uint using c A by auto
  have cb: "BBLOCK (of_nat b) (sb s) \<noteq> of_nat c" if "b < fs_blocks s" for b
    using F(4) that us by (auto simp: bitmap_ok_def)
  have dc: "data_block t ip (of_nat c)"
    using A cb c fb F(4,10) us[of "iblk ip s"] by (auto simp: data_block_def bitmap_ok_def ib)
  have db: "data_block t ip a" if "data_block s ip a" for a
    using that A fb by (simp add: data_block_def ib)
  have "ip < length (inodes t)" "idev (inodes t ! ip) = 1" "length (iaddrs (inodes t ! ip)) = 13" using A F(1,2) by auto
  moreover have "faddr t ip i = faddr t ip k \<Longrightarrow> i = k" if "i < 141" "k < 141" "faddr t ip i \<noteq> 0" for i k
    using that A F(7)[of i] F(7)[of k] F(8)[of i k] us by (auto simp: data_block_def split: if_splits)
  moreover have "data_block t ip (faddr t ip i)" if "i < 141" "faddr t ip i \<noteq> 0" for i
    using that A dc db F(7)[of i] by auto
  ultimately show "file_ok t ip"
    using A F(5,6,9-12) fb unfolding file_ok_def ib by auto
  show "fblock t ip i = fblock s ip i" if i: "i < MAXFILE" for i
  proof (cases "fslot i = j")
    case True
    then show ?thesis using A c0 by (simp add: fblock_def)
  next
    case False
    then have e: "faddr t ip (fslot i) = faddr s ip (fslot i)" using A fslot_less(1)[OF i] by simp
    show ?thesis
    proof (cases "faddr s ip (fslot i) = 0")
      case False
      note D = F(7)[OF fslot_less(1)[OF i] False, unfolded data_block_def]
      have "faddr s ip (fslot i) \<noteq> faddr s ip 12" using F(8)[OF fslot_less(1)[OF i] _ False, of 12] fslot_less(2)[of i] by auto
      moreover have "faddr s ip (fslot i) \<noteq> BBLOCK (of_nat c) (sb s)" using D A by auto
      ultimately show ?thesis using A D us[of "faddr s ip (fslot i)"] e by (simp add: fblock_def)
    qed (simp add: fblock_def e)
  qed
  have "{b. b < fs_blocks s \<and> \<not> used s b} = insert c {b. b < fs_blocks t \<and> \<not> used t b}" "c \<notin> {b. b < fs_blocks t \<and> \<not> used t b}"
    using A fb by auto
  then show "nfree s = Suc (nfree t)" by (simp add: nfree_def)
qed

lemma first_free:
  assumes "0 < nfree s"
  obtains c where "c < fs_blocks s" "\<not> used s c" "\<forall>b<c. used s b"
proof -
  obtain b where b: "b < fs_blocks s \<and> \<not> used s b" using assms by (fastforce simp: nfree_def card_gt_0_iff)
  let ?c = "LEAST b. b < fs_blocks s \<and> \<not> used s b"
  have "?c < fs_blocks s \<and> \<not> used s ?c" by (rule LeastI[of "\<lambda>b. b < fs_blocks s \<and> \<not> used s b", OF b])
  moreover have "used s d" if "d < ?c" for d using not_less_Least[OF that] \<open>?c < fs_blocks s \<and> \<not> used s ?c\<close> that by auto
  ultimately show thesis using that by blast
qed

lemma zero_entry: "4 * e + 4 \<le> BSIZE \<Longrightarrow> un32 (seg (4 * e) 4 (replicate BSIZE 0)) = 0"
proof -
  assume "4 * e + 4 \<le> BSIZE"
  then have "seg (4 * e) 4 (replicate BSIZE (0::8 word)) = replicate 4 0" by (simp add: seg_def min_def)
  moreover have "un32 (replicate 4 (0::8 word)) = 0" by (simp add: un32_def numeral_eq_Suc)
  ultimately show ?thesis by simp
qed

lemma faddr_12: "faddr s ip 12 = iaddrs (inodes s ! ip) ! 12"
  by (simp add: faddr_def addr_def)

lemma alloc_direct:
  assumes "tx_room s (Suc (Suc k))" "held s = {}" "file_ok s ip" "j < 13" "iaddrs (inodes s ! ip) ! j = 0" "0 < nfree s"
  obtains c t' where "balloc 1 s = Ret (of_nat c) t'"
    "alloc_step s (upd_inode ip (\<lambda>k. k\<lparr>iaddrs := (iaddrs k)[j := of_nat c]\<rparr>) t') ip j c"
    "tx_room (upd_inode ip (\<lambda>k. k\<lparr>iaddrs := (iaddrs k)[j := of_nat c]\<rparr>) t') k"
    "held (upd_inode ip (\<lambda>k. k\<lparr>iaddrs := (iaddrs k)[j := of_nat c]\<rparr>) t') = {}"
    "iaddrs (inodes (upd_inode ip (\<lambda>k. k\<lparr>iaddrs := (iaddrs k)[j := of_nat c]\<rparr>) t') ! ip) = (iaddrs (inodes s ! ip))[j := of_nat c]"
proof -
  note F = file_okD[OF assms(3)]
  obtain c where c: "c < fs_blocks s" "\<not> used s c" "\<forall>b<c. used s b" using first_free[OF assms(6)] .
  obtain t where t: "balloc 1 s = Ret (of_nat c) t" "tx_room t k" "lframe s t" "vown (view t) = vown (view s)" "bitmap_ok t"
    "content t (of_nat c) = replicate BSIZE 0"
    "\<And>n. n \<noteq> of_nat c \<Longrightarrow> n \<noteq> BBLOCK (of_nat c) (sb s) \<Longrightarrow> content t n = content s n"
    "\<forall>x < fs_blocks s. used t x = (x = c \<or> used s x)"
    using balloc_view(2)[OF assms(1) may_hold_none[OF assms(2)] F(4) c] by blast
  let ?as = "(iaddrs (inodes s ! ip))[j := of_nat c]"
  define u where "u = upd_inode ip (\<lambda>k. k\<lparr>iaddrs := (iaddrs k)[j := of_nat c]\<rparr>) t"
  note fr = frame_icst[OF t(3)] and lf = lframe_log[OF t(3)]
  have u: "inodes u = (inodes s)[ip := (inodes s ! ip)\<lparr>iaddrs := ?as\<rparr>]" "content u = content t" "sb u = sb s" "log_start u = log_start s"
    "view u = view t" "tx_room u k"
    using fr lf t(2) by (simp_all add: u_def upd_inode_def view_sel[symmetric])
  have cu: "unat (of_nat c :: uint) = c" using c(1) fs_blocks_less[of s] unat_nat32[of c] by simp
  have c0: "(of_nat c :: uint) \<noteq> 0" using cu c(2) F(6) by auto
  have uu: "used u = used t" by (rule used_frame[OF u(5)]) (simp add: u fr)
  have bu: "bitmap_ok u" using t(5) uu by (simp add: bitmap_ok_def fs_blocks_def u_def upd_inode_def)
  have hu: "held u = {}" using ran_vown[of u] ran_vown[of s] u(5) t(4) assms(2) by simp
  have au: "iaddrs (inodes u ! ip) = ?as" using u(1) F(1) by simp
  have fa: "faddr u ip i = (if i = j then of_nat c else faddr s ip i)" if i: "i < 141" for i
  proof (cases "i < 13")
    case True
    then show ?thesis using F(3) assms(4) by (simp add: faddr_def addr_def au)
  next
    case False
    then have b: "4 * (i - 13) + 4 \<le> BSIZE" using i by (simp add: BSIZE_def)
    show ?thesis
    proof (cases "j = 12")
      case True
      then show ?thesis using False F(3) c0 t(6) zero_entry[OF b] assms(5) by (simp add: faddr_def addr_def au u(2))
    next
      case j: False
      show ?thesis
      proof (cases "faddr s ip 12 = 0")
        case True
        then show ?thesis using False j assms(4) by (simp add: faddr_def addr_def au)
      next
        case ne: False
        note D = F(7)[of 12, OF _ ne, unfolded data_block_def]
        have "faddr s ip 12 \<noteq> of_nat c" "faddr s ip 12 \<noteq> BBLOCK (of_nat c) (sb s)" using D c cu by auto
        then have "content t (faddr s ip 12) = content s (faddr s ip 12)" by (rule t(7))
        then show ?thesis using False j assms(4) by (simp add: faddr_def addr_def au u(2))
      qed
    qed
  qed
  have "alloc_step s u ip j c"
    unfolding alloc_step_def
    using fa assms(4,5) c t(6-8) u uu bu F(3) by (auto simp: faddr_def addr_def intro!: exI[of _ ?as])
  then show thesis using that[OF t(1)] u(6) hu au unfolding u_def by blast
qed
lemma used_content: "content t = content s \<Longrightarrow> sb t = sb s \<Longrightarrow> used t = used s"
  by (simp add: used_def[abs_def])

lemma seg_entry:
  assumes "e < 128" "i < 128" "length d = BSIZE"
  shows "seg (4 * i) 4 (blit (4 * e) (le32 a) d) = (if i = e then le32 a else seg (4 * i) 4 d)"
proof (cases "i = e")
  case True
  then show ?thesis using assms seg_blit_same[of "4 * e" "le32 a" d] by (simp add: BSIZE_def)
next
  case False
  then have "4 * i + 4 \<le> 4 * e \<or> 4 * e + 4 \<le> 4 * i" by arith
  then show ?thesis using False assms seg_blit_other[of "4 * e" "le32 a" d "4 * i" 4] by (simp add: BSIZE_def)
qed

text \<open>The part of \<open>bmap\<close> that fills in an entry of the indirect block, which is locked meanwhile.\<close>

lemma alloc_entry:
  assumes "tx_room s (Suc (Suc (Suc k)))" "held s = {}" "file_ok s ip" "e < 128" "faddr s ip 12 \<noteq> 0" "faddr s ip (13 + e) = 0" "0 < nfree s"
  shows "\<exists>b s' c t u v. bread 1 (faddr s ip 12) s = Ret b s' \<and> inodes s' = inodes s \<and> un32 (seg (4 * e) 4 (bdata (bufs s' ! b))) = 0 \<and>
    balloc 1 s' = Ret (of_nat c) t \<and>
    log_write b (upd_buf b (\<lambda>k. k\<lparr>bdata := blit (4 * e) (le32 (of_nat c)) (bdata k)\<rparr>) t) = Ret () u \<and> brelse b u = Ret () v \<and>
    alloc_step s v ip (13 + e) c \<and> tx_room v k \<and> held v = {} \<and> lframe s v"
proof -
  note F = file_okD[OF assms(3)]
  let ?a = "faddr s ip 12"
  note D = F(7)[of 12, OF _ assms(5), unfolded data_block_def, simplified]
  have ad: "?a < disksize s" using D F(4) by (simp add: bitmap_ok_def fs_blocks_def word_less_nat_alt word_le_nat_alt)
  obtain b s' where b: "bread 1 ?a s = Ret b s'" "bdata (bufs s' ! b) = content s ?a" "length (content s ?a) = BSIZE"
    "tx_room s' (Suc (Suc (Suc k)))" "bframe s s'" "view s' = (view s)\<lparr>vown := (vown (view s))(b \<mapsto> ?a)\<rparr>" "vown (view s) b = None"
    by (rule block_access[OF assms(1) _ ad]) (use assms(2) in auto)
  note fs = frame_icst[OF lframe_bframe[OF b(5)]] and ls = lframe_log[OF lframe_bframe[OF b(5)]]
  have cs: "content s' = content s" using b(6) unfolding view_sel[symmetric] by simp
  have us: "used s' = used s" by (rule used_content[OF cs fs(2)])
  have fbs: "fs_blocks s' = fs_blocks s" using fs by (simp add: fs_blocks_def)
  have bs: "bitmap_ok s'" using F(4) us fs ls fbs by (simp add: bitmap_ok_def)
  have v0: "vown (view s) = Map.empty" using ran_vown[of s] assms(2) by (simp add: ran_def fun_eq_iff) (metis not_None_eq)
  have hs: "held s' = {?a}" using ran_vown[of s'] by (simp add: b(6) v0)
  have mh: "may_hold s'" using D us fs fbs by (simp add: may_hold_def hs)
  have e0: "un32 (seg (4 * e) 4 (content s ?a)) = 0" using assms(5,6) by (simp add: faddr_def addr_def)
  obtain c where c: "c < fs_blocks s" "\<not> used s c" "\<forall>b<c. used s b" using first_free[OF assms(7)] .
  obtain t where t: "balloc 1 s' = Ret (of_nat c) t" "tx_room t (Suc k)" "lframe s' t" "vown (view t) = vown (view s')" "bitmap_ok t"
    "content t (of_nat c) = replicate BSIZE 0"
    "\<And>n. n \<noteq> of_nat c \<Longrightarrow> n \<noteq> BBLOCK (of_nat c) (sb s) \<Longrightarrow> content t n = content s n"
    "\<forall>x < fs_blocks s. used t x = (x = c \<or> used s x)"
    using balloc_view(2)[OF b(4) mh bs, of c] c unfolding cs us fbs fs by blast
  note ft = frame_icst[OF t(3)] and lt = lframe_log[OF t(3)]
  have cu: "unat (of_nat c :: uint) = c" using c(1) fs_blocks_less[of s] unat_nat32[of c] by simp
  have ac: "?a \<noteq> of_nat c" "\<And>b. b < fs_blocks s \<Longrightarrow> BBLOCK (of_nat b) (sb s) \<noteq> ?a" using D c(2) cu by auto
  have ca: "content t ?a = content s ?a" by (rule t(7)[OF ac(1) not_sym[OF ac(2)[OF c(1)]]])
  have ot: "vown (view t) b = Some ?a" using t(4) b(6) by simp
  let ?d = "blit (4 * e) (le32 (of_nat c)) (content s ?a)"
  have dt: "bdata (bufs t ! b) = content s ?a" using data_view(1)[OF tx_roomD(3)[OF t(2)] ot] ca by (simp add: view_sel)
  have dl: "length ?d = BSIZE" using b(3) assms(4) by (simp add: BSIZE_def)
  obtain u v where v: "log_write b (upd_buf b (\<lambda>k. k\<lparr>bdata := ?d\<rparr>) t) = Ret () u" "brelse b u = Ret () v" "tx_room v k" "lframe t v"
    "view v = (view t)\<lparr>vcontent := (vcontent (view t))(?a := ?d), vdirty := insert ?a (vdirty (view t)), vown := (vown (view t))(b := None)\<rparr>"
    using held_write[OF t(2) ot dl] D lt ls by auto
  note fv = frame_icst[OF v(4)] and lv = lframe_log[OF v(4)]
  have cv: "content v = (content t)(?a := ?d)" using v(5) unfolding view_sel[symmetric] by simp
  have "vown (view v) = Map.empty" by (simp add: v(5) t(4) b(6) v0)
  then have hv: "held v = {}" using ran_vown[of v] by simp
  have iv: "inodes v = inodes s" "sb v = sb s" "log_start v = log_start s" "disksize v = disksize s"
    using fv ft fs lv lt ls by simp_all
  have uv: "used v x = used t x" if "x < fs_blocks s" for x
    using ac(2)[OF that] fv ft fs by (simp add: used_def cv)
  have bv: "bitmap_ok v" using t(5) uv fv ft fs lv lt ls by (auto simp: bitmap_ok_def fs_blocks_def)
  have fa: "faddr v ip i = (if i = 13 + e then of_nat c else faddr s ip i)" if i: "i < 141" for i
  proof (cases "i < 13")
    case False
    then show ?thesis using seg_entry[OF assms(4) _ b(3), of "i - 13" "of_nat c"] i assms(5)
      by (auto simp: faddr_def addr_def iv cv)
  qed (simp add: faddr_def addr_def iv)
  have "alloc_step s v ip (13 + e) c"
    unfolding alloc_step_def
  proof (intro conjI allI impI)
    show "content v (of_nat c) = replicate BSIZE 0" using t(6) ac(1) cv by simp
    show "content v n = content s n" if "n \<noteq> of_nat c" "n \<noteq> BBLOCK (of_nat c) (sb s)" "13 \<le> 13 + e \<longrightarrow> n \<noteq> faddr s ip 12" for n
      using t(7)[of n] that cv by simp
    show "\<exists>as. length as = 13 \<and> inodes v = (inodes s)[ip := (inodes s ! ip)\<lparr>iaddrs := as\<rparr>]"
      by (rule exI[of _ "iaddrs (inodes s ! ip)"]) (use F(3) iv(1) in simp)
  qed (use fa assms(4,6) c t(8) uv bv iv in simp_all)
  moreover have "upd_buf b (\<lambda>k. k\<lparr>bdata := blit (4 * e) (le32 (of_nat c)) (bdata k)\<rparr>) t = upd_buf b (\<lambda>k. k\<lparr>bdata := ?d\<rparr>) t"
    by (simp add: upd_buf_def dt)
  moreover have "lframe s v" using lframe_bframe[OF b(5)] t(3) v(4) lframe_trans by blast
  ultimately show ?thesis
    by (intro exI[of _ b] exI[of _ s'] exI[of _ c] exI[of _ t] exI[of _ u] exI[of _ v]) (simp add: b(1,2) fs(1) e0 t(1) v(1-3) hv)
qed

section \<open>Finding a block\<close>

text \<open>A block in use that is neither of the bitmap nor of the file.\<close>

definition elsewhere :: "('x) icst_scheme \<Rightarrow> nat \<Rightarrow> uint \<Rightarrow> bool" where
  "elsewhere s ip n \<longleftrightarrow> unat n < fs_blocks s \<and> used s (unat n) \<and> (\<forall>b < fs_blocks s. BBLOCK (of_nat b) (sb s) \<noteq> n) \<and>
     (\<forall>j < 141. faddr s ip j \<noteq> n)"

text \<open>
  \<open>grow s t ip m\<close>: the file has got at most \<open>m\<close> new blocks, and still reads the same.
\<close>

definition grow :: "('x) icst_scheme \<Rightarrow> ('x) icst_scheme \<Rightarrow> nat \<Rightarrow> nat \<Rightarrow> bool" where
  "grow s t ip m \<longleftrightarrow> file_ok t ip \<and> (\<forall>i < MAXFILE. fblock t ip i = fblock s ip i) \<and> nfree s \<le> nfree t + m \<and>
     (\<exists>as. length as = 13 \<and> inodes t = (inodes s)[ip := (inodes s ! ip)\<lparr>iaddrs := as\<rparr>]) \<and>
     sb t = sb s \<and> log_start t = log_start s \<and>
     (\<forall>j < 141. faddr s ip j \<noteq> 0 \<longrightarrow> faddr t ip j = faddr s ip j) \<and>
     (\<forall>n. elsewhere s ip n \<longrightarrow> elsewhere t ip n \<and> content t n = content s n)"

lemma growD:
  assumes "grow s t ip m"
  shows "file_ok t ip" "i < MAXFILE \<Longrightarrow> fblock t ip i = fblock s ip i" "nfree s \<le> nfree t + m"
    "\<exists>as. length as = 13 \<and> inodes t = (inodes s)[ip := (inodes s ! ip)\<lparr>iaddrs := as\<rparr>]" "sb t = sb s" "log_start t = log_start s"
    "j < 141 \<Longrightarrow> faddr s ip j \<noteq> 0 \<Longrightarrow> faddr t ip j = faddr s ip j"
    "elsewhere s ip n \<Longrightarrow> elsewhere t ip n" "elsewhere s ip n \<Longrightarrow> content t n = content s n"
  using assms unfolding grow_def by blast+

lemma grow_le: "grow s t ip m \<Longrightarrow> m \<le> n \<Longrightarrow> grow s t ip n"
  unfolding grow_def by auto

lemma grow_trans:
  assumes "grow s t ip m" "grow t u ip n"
  shows "grow s u ip (m + n)"
proof -
  note A = growD[OF assms(1)] and B = growD[OF assms(2)]
  obtain as bs where i: "length bs = 13" "inodes t = (inodes s)[ip := (inodes s ! ip)\<lparr>iaddrs := as\<rparr>]"
    "inodes u = (inodes t)[ip := (inodes t ! ip)\<lparr>iaddrs := bs\<rparr>]" using A(4) B(4) by blast
  have "inodes u = (inodes s)[ip := (inodes s ! ip)\<lparr>iaddrs := bs\<rparr>]"
    using i file_okD(1)[OF A(1)] by simp
  then have "\<exists>as. length as = 13 \<and> inodes u = (inodes s)[ip := (inodes s ! ip)\<lparr>iaddrs := as\<rparr>]" using i(1) by blast
  moreover have "faddr u ip j = faddr s ip j" if "j < 141" "faddr s ip j \<noteq> 0" for j
    using A(7)[OF that] B(7)[OF that(1)] that(2) by simp
  ultimately show ?thesis
    unfolding grow_def using A(2,3,5,6,8,9) B by simp
qed

lemma grow_refl:
  assumes "file_ok s ip" "view t = view s" "inodes t = inodes s" "sb t = sb s" "log_start t = log_start s"
  shows "grow s t ip 0"
proof -
  have c: "content t = content s" using assms(2) unfolding view_sel[symmetric] by simp
  note f = file_frame[OF c assms(3)] and u = used_content[OF c assms(4)]
  have "nfree t = nfree s" "elsewhere t ip = elsewhere s ip"
    by (simp_all add: nfree_def elsewhere_def[abs_def] fs_blocks_def u f assms(4))
  moreover have "\<exists>as. length as = 13 \<and> inodes t = (inodes s)[ip := (inodes s ! ip)\<lparr>iaddrs := as\<rparr>]"
    by (rule exI[of _ "iaddrs (inodes s ! ip)"]) (use file_okD(3)[OF assms(1)] assms(3) in simp)
  moreover have "file_ok t ip" using file_ok_frame[OF assms(2-5)] assms(1) by simp
  ultimately show ?thesis unfolding grow_def using f c assms by simp
qed

lemma grow_alloc:
  assumes "file_ok s ip" "alloc_step s t ip j c"
  shows "grow s t ip 1"
proof -
  note F = alloc_step_file[OF assms] and A = assms(2)[unfolded alloc_step_def]
  have c: "unat (of_nat c :: uint) = c" using A fs_blocks_less[of s] unat_nat32[of c] by simp
  have fb: "fs_blocks t = fs_blocks s" using A by (simp add: fs_blocks_def)
  have el: "elsewhere t ip n \<and> content t n = content s n" if e: "elsewhere s ip n" for n
  proof -
    note E = e[unfolded elsewhere_def]
    have nc: "n \<noteq> of_nat c" using E A c by auto
    have a: "\<forall>j<141. faddr s ip j \<noteq> n" using E by simp
    have "n \<noteq> BBLOCK (of_nat c) (sb s)" using E A by auto
    moreover have "n \<noteq> faddr s ip 12" using a[rule_format, of 12] by simp
    ultimately have "content t n = content s n" using A nc by blast
    moreover have "elsewhere t ip n" unfolding elsewhere_def using E A fb nc by auto
    ultimately show ?thesis by simp
  qed
  have "faddr t ip i = faddr s ip i" if "i < 141" "faddr s ip i \<noteq> 0" for i using A that by auto
  then show ?thesis unfolding grow_def using F(1-3) A el by simp
qed

text \<open>No block is locked and a buffer can be recycled: all that reading a block needs.\<close>

definition can_read :: "('x) bufst_scheme \<Rightarrow> bool" where
  "can_read s \<longleftrightarrow> bio_ok s \<and> held s = {} \<and> card (dirty_blocks s) < NBUF"

lemma can_read_tx: "tx_room s k \<Longrightarrow> held s = {} \<Longrightarrow> can_read s"
  using card_logged(1)[OF tx_roomD(2)] tx_roomD(3-5)[of s k]
  by (fastforce simp: can_read_def NBUF_def LOGSIZE_def MAXOPBLOCKS_def)

lemma can_read_view:
  assumes "can_read s" "bio_ok t" "view t = view s"
  shows "can_read t"
proof -
  have "dirty_blocks t = dirty_blocks s" using assms(3) unfolding view_sel[symmetric] by simp
  then show ?thesis using assms ran_vown[of t] ran_vown[of s] by (simp add: can_read_def)
qed

lemma block_peek:
  assumes "can_read s" "n < disksize s"
  obtains b t u where "bread 1 n s = Ret b t" "inodes t = inodes s" "bdata (bufs t ! b) = content s n" "length (content s n) = BSIZE"
    "brelse b t = Ret () u" "can_read u" "bframe s u" "view u = view s"
proof -
  have o: "bio_ok s" "vown (view s) = Map.empty"
    using assms(1) ran_vown[of s] by (simp_all add: can_read_def ran_def fun_eq_iff) (metis not_None_eq)
  have d: "card (insert n (vdirty (view s))) \<le> NBUF"
    using assms(1) card_insert_le_m1[of NBUF "vdirty (view s)" n] by (simp add: can_read_def view_sel NBUF_def)
  obtain b t where t: "bread 1 n s = Ret b t" "bio_ok t" "bframe s t" "view t = (view s)\<lparr>vown := [b \<mapsto> n]\<rparr>"
    using bread_view[OF o(1), of n] assms(2) d by (auto simp: view_sel o(2))
  have ot: "vown (view t) b = Some n" using t(4) by simp
  have cl: "n \<in> vdirty (view t) \<or> vcontent (view t) n = vdisk (view t) (unat n)"
    using clean_view[OF o(1), of n] t(4) by (auto simp: o(2))
  obtain u where u: "brelse b t = Ret () u" "bio_ok u" "bframe t u" "view u = (view t)\<lparr>vown := (vown (view t))(b := None)\<rparr>"
    using brelse_view[OF t(2) ot cl] by blast
  have vu: "view u = view s" using u(4) t(4) o(2) by simp
  show thesis
    by (rule that[OF t(1) frame_icst(1)[OF lframe_bframe[OF t(3)]] _ _ u(1) can_read_view[OF assms(1) u(2) vu] _ vu])
      (use data_view[OF t(2) ot] t(4) bframe_trans[OF t(3) u(3)] in \<open>simp_all add: view_sel\<close>)
qed

text \<open>\<open>bmap\<close> of a block that is there: nothing changes but which buffers hold what.\<close>

lemma bmap_there:
  assumes "can_read s" "file_ok s ip" "unat bn < MAXFILE" "faddr s ip (fslot (unat bn)) \<noteq> 0"
  shows "\<exists>t. bmap ip bn s = Ret (faddr s ip (fslot (unat bn))) t \<and> can_read t \<and> bframe s t \<and> view t = view s"
proof (cases "unat bn < 12")
  case True
  then show ?thesis
    using assms bframe_refl[of s] by (simp add: bmap_def NDIRECT_def fslot_def faddr_def addr_def)
next
  case False
  note F = file_okD[OF assms(2)]
  let ?a = "faddr s ip 12" and ?e = "unat bn - 12"
  have e: "?e < 128" "fslot (unat bn) = 13 + ?e" using False assms(3) by (simp_all add: fslot_def MAXFILE_def NDIRECT_def NINDIRECT_def)
  have a0: "?a \<noteq> 0" using assms(4) e(2) by (auto simp: faddr_def addr_def)
  note D = F(7)[of 12, OF _ a0, unfolded data_block_def, simplified]
  have ad: "?a < disksize s" using D F(4) by (simp add: bitmap_ok_def fs_blocks_def word_less_nat_alt word_le_nat_alt)
  obtain b s' u where b: "bread 1 ?a s = Ret b s'" "bdata (bufs s' ! b) = content s ?a" "brelse b s' = Ret () u" "can_read u" "bframe s u" "view u = view s"
    by (rule block_peek[OF assms(1) ad]) blast
  have x: "un32 (seg (4 * ?e) 4 (content s ?a)) = faddr s ip (fslot (unat bn))" using a0 by (simp add: e(2) faddr_def addr_def)
  show ?thesis using b a0 F(2) False e(1) x assms(4) unfolding bmap_def by (auto simp: NDIRECT_def NINDIRECT_def faddr_12 Let_def)
qed

text \<open>\<open>bmap\<close> of any block of the file: it takes at most two blocks, and the log writes of five.\<close>

lemma bmap_grows:
  assumes "tx_room s (5 + k)" "held s = {}" "file_ok s ip" "unat bn < MAXFILE" "2 \<le> nfree s"
  shows "\<exists>t. bmap ip bn s = Ret (faddr t ip (fslot (unat bn))) t \<and> faddr t ip (fslot (unat bn)) \<noteq> 0 \<and>
    grow s t ip 2 \<and> tx_room t k \<and> held t = {}"
proof (cases "faddr s ip (fslot (unat bn)) = 0")
  case False
  obtain t where t: "bmap ip bn s = Ret (faddr s ip (fslot (unat bn))) t" "can_read t" "bframe s t" "view t = view s"
    using bmap_there[OF can_read_tx[OF assms(1,2)] assms(3,4) False] by blast
  have "dirty_blocks t = dirty_blocks s" "disk t = disk s" using t(4) unfolding view_sel[symmetric] by simp_all
  then have rt: "tx_room t (5 + k)" using tx_room_frame[OF assms(1) t(3)] t(2) by (simp add: can_read_def)
  note fr = frame_icst[OF lframe_bframe[OF t(3)]] and lf = lframe_log[OF lframe_bframe[OF t(3)]]
  have "grow s t ip 2" using grow_le[OF grow_refl[OF assms(3) t(4) fr lf(2)]] by simp
  moreover from this have "faddr t ip (fslot (unat bn)) = faddr s ip (fslot (unat bn))"
    using growD(7) fslot_less(1)[OF assms(4)] False by blast
  moreover have "held t = {}" using ran_vown[of t] ran_vown[of s] t(4) assms(2) by simp
  ultimately show ?thesis using t(1) False tx_room_le[OF rt, of k] by auto
next
  case absent: True
  note F = file_okD[OF assms(3)]
  show ?thesis
  proof (cases "unat bn < 12")
    case True
    have z: "iaddrs (inodes s ! ip) ! unat bn = 0" using absent True by (simp add: fslot_def faddr_def addr_def)
    obtain c t' where t: "balloc 1 s = Ret (of_nat c) t'"
      "alloc_step s (upd_inode ip (\<lambda>k. k\<lparr>iaddrs := (iaddrs k)[unat bn := of_nat c]\<rparr>) t') ip (unat bn) c"
      "tx_room (upd_inode ip (\<lambda>k. k\<lparr>iaddrs := (iaddrs k)[unat bn := of_nat c]\<rparr>) t') (3 + k)"
      "held (upd_inode ip (\<lambda>k. k\<lparr>iaddrs := (iaddrs k)[unat bn := of_nat c]\<rparr>) t') = {}"
      by (rule alloc_direct[OF _ assms(2,3) _ z, of "3 + k"]) (use assms(1,5) True in \<open>auto simp: numeral_eq_Suc\<close>)
    note G = alloc_step_file[OF assms(3) t(2)]
    have "grow s (upd_inode ip (\<lambda>k. k\<lparr>iaddrs := (iaddrs k)[unat bn := of_nat c]\<rparr>) t') ip 2"
      using grow_le[OF grow_alloc[OF assms(3) t(2)]] by simp
    then show ?thesis
      using t(1,4) tx_room_le[OF t(3), of k] G(4,5) True z F(2) by (auto simp: bmap_def NDIRECT_def fslot_def)
  next
    case False
    let ?e = "unat bn - 12"
    have e: "?e < 128" "fslot (unat bn) = 13 + ?e" using False assms(4) by (simp_all add: fslot_def MAXFILE_def NDIRECT_def NINDIRECT_def)
    obtain u where u: "(if iaddrs (inodes s ! ip) ! NDIRECT = 0
               then
                 bnd (balloc (idev (inodes s ! ip)) s) (\<lambda>a s.
                 Ret a (upd_inode ip (\<lambda>k. k\<lparr>iaddrs := (iaddrs k)[NDIRECT := a]\<rparr>) s))
               else Ret (iaddrs (inodes s ! ip) ! NDIRECT) s) = Ret (faddr u ip 12) u"
      "faddr u ip 12 \<noteq> 0" "faddr u ip (13 + ?e) = 0" "grow s u ip 1" "tx_room u (3 + k)" "held u = {}"
    proof (cases "faddr s ip 12 = 0")
      case False
      then show ?thesis
        using that[of s] absent e(2) grow_le[OF grow_refl[OF assms(3), of s]] tx_room_le[OF assms(1), of "3 + k"] assms(2)
        by (simp add: faddr_12 NDIRECT_def)
    next
      case True
      then have z: "iaddrs (inodes s ! ip) ! 12 = 0" by (simp add: faddr_12)
      obtain c t' where t: "balloc 1 s = Ret (of_nat c) t'"
        "alloc_step s (upd_inode ip (\<lambda>k. k\<lparr>iaddrs := (iaddrs k)[12 := of_nat c]\<rparr>) t') ip 12 c"
        "tx_room (upd_inode ip (\<lambda>k. k\<lparr>iaddrs := (iaddrs k)[12 := of_nat c]\<rparr>) t') (3 + k)"
        "held (upd_inode ip (\<lambda>k. k\<lparr>iaddrs := (iaddrs k)[12 := of_nat c]\<rparr>) t') = {}"
        by (rule alloc_direct[OF _ assms(2,3) _ z, of "3 + k"]) (use assms(1,5) in \<open>auto simp: numeral_eq_Suc\<close>)
      note G = alloc_step_file[OF assms(3) t(2)]
      have "faddr (upd_inode ip (\<lambda>k. k\<lparr>iaddrs := (iaddrs k)[12 := of_nat c]\<rparr>) t') ip (13 + ?e) = 0"
        using t(2) e absent by (simp add: alloc_step_def)
      then show ?thesis
        using that[OF _ _ _ grow_alloc[OF assms(3) t(2)] t(3,4)] t(1) z F(2) G(4,5) by (simp add: NDIRECT_def)
    qed
    note U = file_okD[OF growD(1)[OF u(4)]]
    have fu: "0 < nfree u" using growD(3)[OF u(4)] assms(5) by simp
    have ru: "tx_room u (Suc (Suc (Suc k)))" using u(5) by (simp add: numeral_eq_Suc)
    obtain b s' c t v w where v: "bread 1 (faddr u ip 12) u = Ret b s'" "inodes s' = inodes u" "un32 (seg (4 * ?e) 4 (bdata (bufs s' ! b))) = 0"
      "balloc 1 s' = Ret (of_nat c) t"
      "log_write b (upd_buf b (\<lambda>k. k\<lparr>bdata := blit (4 * ?e) (le32 (of_nat c)) (bdata k)\<rparr>) t) = Ret () w" "brelse b w = Ret () v"
      "alloc_step u v ip (13 + ?e) c" "tx_room v k" "held v = {}"
      using alloc_entry[OF ru u(6) growD(1)[OF u(4)] e(1) u(2,3) fu] by blast
    note G = alloc_step_file[OF growD(1)[OF u(4)] v(7)]
    have "grow s v ip 2" using grow_trans[OF u(4) grow_alloc[OF growD(1)[OF u(4)] v(7)]] by (simp add: numeral_2_eq_2)
    moreover have "bmap ip bn s = Ret (of_nat c) v"
      unfolding bmap_def u(1) using False e(1) v(1-6) U(2) by (simp add: NDIRECT_def NINDIRECT_def Let_def)
    ultimately show ?thesis using v(8,9) G(4,5) e(2) by auto
  qed
qed

section \<open>Writing a block\<close>

text \<open>The effect on a file of changing one of its data blocks.\<close>

lemma file_store:
  assumes "file_ok s ip" "i < MAXFILE" "faddr s ip (fslot i) \<noteq> 0" "content t = (content s)(faddr s ip (fslot i) := d)"
    "inodes t = inodes s" "sb t = sb s" "log_start t = log_start s" "disksize t = disksize s"
  shows "file_ok t ip" "j < 141 \<Longrightarrow> faddr t ip j = faddr s ip j"
    "j < MAXFILE \<Longrightarrow> fblock t ip j = (if j = i then d else fblock s ip j)"
    "nfree t = nfree s" "elsewhere s ip n \<Longrightarrow> elsewhere t ip n \<and> content t n = content s n"
proof -
  note F = file_okD[OF assms(1)]
  let ?a = "faddr s ip (fslot i)"
  note D = F(7)[OF fslot_less(1)[OF assms(2)] assms(3), unfolded data_block_def]
  have fb: "fs_blocks t = fs_blocks s" by (simp add: fs_blocks_def assms(6))
  have us: "used t x = used s x" if "x < fs_blocks s" for x
    using D that by (simp add: used_def assms(4,6))
  have "?a \<noteq> faddr s ip 12" using F(8)[OF fslot_less(1)[OF assms(2)] _ assms(3), of 12] fslot_less(2)[of i] by auto
  then show fa: "faddr t ip j = faddr s ip j" if "j < 141" for j
    by (auto simp: faddr_def addr_def assms(4,5))
  have fa': "\<forall>j < 141. faddr t ip j = faddr s ip j" using fa by blast
  have ib: "iblk ip t = iblk ip s" by (simp add: iblk_def assms(5,6))
  have db: "data_block t ip x = data_block s ip x" for x
    using us by (auto simp: data_block_def fb ib assms(6,7))
  have "bitmap_ok t" using F(4) us by (simp add: bitmap_ok_def fb assms(6-8))
  then show "file_ok t ip"
    using assms(1) us unfolding file_ok_def ib fb db assms(5-8) by (simp add: fa')
  show "fblock t ip j = (if j = i then d else fblock s ip j)" if j: "j < MAXFILE"
    using fa[OF fslot_less(1)[OF j]] assms(3) F(8)[OF fslot_less(1)[OF assms(2)] fslot_less(1)[OF j] assms(3)]
      fslot_less(3)[of i j] by (auto simp: fblock_def assms(4))
  have "{b. b < fs_blocks t \<and> \<not> used t b} = {b. b < fs_blocks s \<and> \<not> used s b}" using us fb by auto
  then show "nfree t = nfree s" by (simp add: nfree_def)
  show "elsewhere t ip n \<and> content t n = content s n" if e: "elsewhere s ip n"
  proof -
    have "?a \<noteq> n" using e fslot_less(1)[OF assms(2)] by (simp add: elsewhere_def)
    moreover have "elsewhere t ip n" using e us fa' by (simp add: elsewhere_def fb assms(6))
    ultimately show ?thesis by (simp add: assms(4))
  qed
qed

text \<open>
  \<open>wrote s t ip m off src\<close>: the bytes of the file from \<open>off\<close> on are now
  \<open>src\<close>, in blocks that are there; all others, and every block that is elsewhere, are as
  they were.
\<close>

definition wrote :: "('x) icst_scheme \<Rightarrow> ('x) icst_scheme \<Rightarrow> nat \<Rightarrow> nat \<Rightarrow> nat \<Rightarrow> byte list \<Rightarrow> bool" where
  "wrote s t ip m off src \<longleftrightarrow> file_ok t ip \<and>
     (\<forall>x < MAXFILE * BSIZE. fbyte t ip x = (if off \<le> x \<and> x < off + length src then src ! (x - off) else fbyte s ip x)) \<and>
     (\<forall>x < MAXFILE * BSIZE. faddr s ip (fslot (x div BSIZE)) \<noteq> 0 \<or> off \<le> x \<and> x < off + length src \<longrightarrow> faddr t ip (fslot (x div BSIZE)) \<noteq> 0) \<and>
     nfree s \<le> nfree t + m \<and>
     (\<exists>as. length as = 13 \<and> inodes t = (inodes s)[ip := (inodes s ! ip)\<lparr>iaddrs := as\<rparr>]) \<and>
     sb t = sb s \<and> log_start t = log_start s \<and>
     (\<forall>n. elsewhere s ip n \<longrightarrow> elsewhere t ip n \<and> content t n = content s n)"

lemma wroteD:
  assumes "wrote s t ip m off src"
  shows "file_ok t ip"
    "x < MAXFILE * BSIZE \<Longrightarrow> fbyte t ip x = (if off \<le> x \<and> x < off + length src then src ! (x - off) else fbyte s ip x)"
    "x < MAXFILE * BSIZE \<Longrightarrow> faddr s ip (fslot (x div BSIZE)) \<noteq> 0 \<or> off \<le> x \<and> x < off + length src \<Longrightarrow> faddr t ip (fslot (x div BSIZE)) \<noteq> 0"
    "nfree s \<le> nfree t + m"
    "\<exists>as. length as = 13 \<and> inodes t = (inodes s)[ip := (inodes s ! ip)\<lparr>iaddrs := as\<rparr>]"
    "sb t = sb s" "log_start t = log_start s" "elsewhere s ip n \<Longrightarrow> elsewhere t ip n \<and> content t n = content s n"
  using assms unfolding wrote_def by blast+

lemma wrote_nil: "file_ok s ip \<Longrightarrow> wrote s s ip 0 off []"
  unfolding wrote_def by (auto intro!: exI[of _ "iaddrs (inodes s ! ip)"] dest: file_okD(3))

lemma wrote_app:
  assumes "wrote s t ip m off xs" "wrote t u ip n (off + length xs) ys"
  shows "wrote s u ip (m + n) off (xs @ ys)"
proof -
  note A = wroteD[OF assms(1)] and B = wroteD[OF assms(2)]
  obtain as bs where i: "length bs = 13" "inodes t = (inodes s)[ip := (inodes s ! ip)\<lparr>iaddrs := as\<rparr>]"
    "inodes u = (inodes t)[ip := (inodes t ! ip)\<lparr>iaddrs := bs\<rparr>]" using A(5) B(5) by blast
  have "inodes u = (inodes s)[ip := (inodes s ! ip)\<lparr>iaddrs := bs\<rparr>]"
    using i file_okD(1)[OF A(1)] by simp
  then have I: "\<exists>as. length as = 13 \<and> inodes u = (inodes s)[ip := (inodes s ! ip)\<lparr>iaddrs := as\<rparr>]" using i(1) by blast
  have X: "fbyte u ip x = (if off \<le> x \<and> x < off + length (xs @ ys) then (xs @ ys) ! (x - off) else fbyte s ip x)"
    if "x < MAXFILE * BSIZE" for x
    using A(2)[OF that] B(2)[OF that] by (auto simp: nth_append)
  have Y: "faddr u ip (fslot (x div BSIZE)) \<noteq> 0"
    if "x < MAXFILE * BSIZE" "faddr s ip (fslot (x div BSIZE)) \<noteq> 0 \<or> off \<le> x \<and> x < off + length (xs @ ys)" for x
    using A(3)[OF that(1)] B(3)[OF that(1)] that(2) by (cases "x < off + length xs") auto
  show ?thesis unfolding wrote_def using B(1) X Y I A(4,6-8) B(4,6-8) by simp
qed

lemma chunk_pos_iff:
  fixes x off n :: nat
  assumes "off mod BSIZE + n \<le> BSIZE"
  shows "off \<le> x \<and> x < off + n \<longleftrightarrow> x div BSIZE = off div BSIZE \<and> off mod BSIZE \<le> x mod BSIZE \<and> x mod BSIZE < off mod BSIZE + n"
    "x div BSIZE = off div BSIZE \<Longrightarrow> x - off = x mod BSIZE - off mod BSIZE"
proof -
  have x: "x = BSIZE * (x div BSIZE) + x mod BSIZE" and o: "off = BSIZE * (off div BSIZE) + off mod BSIZE" by simp_all
  have m: "x mod BSIZE < BSIZE" by (simp add: BSIZE_def)
  show "x div BSIZE = off div BSIZE \<Longrightarrow> x - off = x mod BSIZE - off mod BSIZE" using x o by (metis diff_cancel2 add.commute)
  consider "x div BSIZE = off div BSIZE" | "x div BSIZE < off div BSIZE" | "off div BSIZE < x div BSIZE" by linarith
  then show "off \<le> x \<and> x < off + n \<longleftrightarrow> x div BSIZE = off div BSIZE \<and> off mod BSIZE \<le> x mod BSIZE \<and> x mod BSIZE < off mod BSIZE + n"
  proof cases
    case 1
    then have "BSIZE * (x div BSIZE) = BSIZE * (off div BSIZE)" by simp
    with 1 x o show ?thesis by linarith
  next
    case 2
    then have "BSIZE * Suc (x div BSIZE) \<le> BSIZE * (off div BSIZE)" by (intro mult_le_mono2) simp
    then have "x < off" using x o m unfolding mult_Suc_right by linarith
    with 2 show ?thesis by simp
  next
    case 3
    then have "BSIZE * Suc (off div BSIZE) \<le> BSIZE * (x div BSIZE)" by (intro mult_le_mono2) simp
    then have "off + n \<le> x" using x o assms unfolding mult_Suc_right by linarith
    with 3 show ?thesis by simp
  qed
qed

lemma unat_block: "unat (off div of_nat BSIZE :: uint) = unat off div BSIZE"
  by (simp add: unat_div BSIZE_def)

lemma write_chunk:
  assumes "tx_room s (6 + k)" "held s = {}" "file_ok s ip" "unat off < MAXFILE * BSIZE" "unat off mod BSIZE + length xs \<le> BSIZE" "0 < length xs"
    "2 \<le> nfree s"
  shows "\<exists>a s1 b s2 u v. bmap ip (off div of_nat BSIZE) s = Ret a s1 \<and> idev (inodes s1 ! ip) = 1 \<and> bread 1 a s1 = Ret b s2 \<and>
    log_write b (upd_buf b (\<lambda>k. k\<lparr>bdata := blit (unat off mod BSIZE) xs (bdata k)\<rparr>) s2) = Ret () u \<and> brelse b u = Ret () v \<and>
    wrote s v ip 2 (unat off) xs \<and> tx_room v k \<and> held v = {}"
proof -
  let ?i = "unat off div BSIZE" and ?o = "unat off mod BSIZE"
  have i: "?i < MAXFILE" using assms(4) by (simp add: BSIZE_def div_less_iff_less_mult)
  have ru: "tx_room s (5 + Suc k)" using assms(1) by (simp add: numeral_eq_Suc)
  obtain s1 where b: "bmap ip (off div of_nat BSIZE) s = Ret (faddr s1 ip (fslot ?i)) s1" "faddr s1 ip (fslot ?i) \<noteq> 0"
    "grow s s1 ip 2" "tx_room s1 (Suc k)" "held s1 = {}"
    using bmap_grows[OF ru assms(2,3) _ assms(7), of "off div of_nat BSIZE"] i unfolding unat_block by blast
  note G = growD[OF b(3)]
  note F = file_okD[OF G(1)]
  let ?a = "faddr s1 ip (fslot ?i)"
  note D = F(7)[OF fslot_less(1)[OF i] b(2), unfolded data_block_def]
  have ad: "?a < disksize s1" using D F(4) by (simp add: bitmap_ok_def fs_blocks_def word_less_nat_alt word_le_nat_alt)
  obtain b' s2 where c: "bread 1 ?a s1 = Ret b' s2" "bdata (bufs s2 ! b') = content s1 ?a" "length (content s1 ?a) = BSIZE"
    "\<And>d j. length d = BSIZE \<Longrightarrow> \<not> in_log (log_start s1) (unat ?a) \<Longrightarrow> Suc k = Suc j \<Longrightarrow>
       \<exists>u v. log_write b' (upd_buf b' (\<lambda>k. k\<lparr>bdata := d\<rparr>) s2) = Ret () u \<and> brelse b' u = Ret () v \<and>
         tx_room v j \<and> lframe s1 v \<and> view v = (view s1)\<lparr>vcontent := (vcontent (view s1))(?a := d), vdirty := insert ?a (vdirty (view s1))\<rparr>"
    by (rule block_access[OF b(4) _ ad]) (use b(5) in auto)
  let ?d = "blit ?o xs (content s1 ?a)"
  have dl: "length ?d = BSIZE" using c(3) assms(5) by simp
  obtain u v where v: "log_write b' (upd_buf b' (\<lambda>k. k\<lparr>bdata := ?d\<rparr>) s2) = Ret () u" "brelse b' u = Ret () v" "tx_room v k" "lframe s1 v"
    "view v = (view s1)\<lparr>vcontent := (vcontent (view s1))(?a := ?d), vdirty := insert ?a (vdirty (view s1))\<rparr>"
    using c(4)[OF dl, of k] D by auto
  have cv: "content v = (content s1)(?a := ?d)" using v(5) unfolding view_sel[symmetric] by simp
  note S = file_store[OF G(1) i b(2) cv frame_icst[OF v(4)] lframe_log(2,6)[OF v(4)]]
  have hv: "held v = {}" using ran_vown[of v] ran_vown[of s1] v(5) b(5) by simp
  have fs: "fblock s1 ip ?i = content s1 ?a" using b(2) by (simp add: fblock_def)
  have "wrote s v ip 2 (unat off) xs"
    unfolding wrote_def
  proof (intro conjI allI impI)
    fix x assume x: "x < MAXFILE * BSIZE"
    then have xi: "x div BSIZE < MAXFILE" by (simp add: BSIZE_def div_less_iff_less_mult)
    have xm: "x mod BSIZE < BSIZE" by (simp add: BSIZE_def)
    note P = chunk_pos_iff[OF assms(5), of x]
    show "fbyte v ip x = (if unat off \<le> x \<and> x < unat off + length xs then xs ! (x - unat off) else fbyte s ip x)"
    proof (cases "x div BSIZE = ?i")
      case True
      then show ?thesis
        using S(3)[OF xi] G(2)[OF xi] P nth_blit[of ?o xs "content s1 ?a" "x mod BSIZE"] c(3) assms(5) xm fs
        by (auto simp: fbyte_def)
    next
      case False
      then show ?thesis using S(3)[OF xi] G(2)[OF xi] P(1) by (auto simp: fbyte_def)
    qed
    show "faddr v ip (fslot (x div BSIZE)) \<noteq> 0"
      if "faddr s ip (fslot (x div BSIZE)) \<noteq> 0 \<or> unat off \<le> x \<and> x < unat off + length xs"
      using that P(1) b(2) S(2)[OF fslot_less(1)[OF xi]] G(7)[OF fslot_less(1)[OF xi]] by auto
  next
    show "\<exists>as. length as = 13 \<and> inodes v = (inodes s)[ip := (inodes s ! ip)\<lparr>iaddrs := as\<rparr>]"
      using G(4) frame_icst(1)[OF v(4)] by simp
    show "elsewhere v ip n" "content v n = content s n" if "elsewhere s ip n" for n using G(8,9)[OF that] S(5)[of n] by simp_all
  qed (use S(1,4) G(3,5,6) frame_icst(2)[OF v(4)] lframe_log(2)[OF v(4)] in simp_all)
  moreover have "upd_buf b' (\<lambda>k. k\<lparr>bdata := blit ?o xs (bdata k)\<rparr>) s2 = upd_buf b' (\<lambda>k. k\<lparr>bdata := ?d\<rparr>) s2"
    by (simp add: upd_buf_def c(2))
  ultimately show ?thesis
    using hv by (intro exI[of _ ?a] exI[of _ s1] exI[of _ b'] exI[of _ s2] exI[of _ u] exI[of _ v]) (simp add: b(1) F(2) c(1) v(1-3))
qed

section \<open>Writing and reading a file\<close>

lemma writei_loop_writes:
  assumes "tx_room s (6 * m + k)" "held s = {}" "file_ok s ip" "unat off + length src \<le> MAXFILE * BSIZE"
    "src = [] \<or> unat off mod BSIZE + length src \<le> BSIZE * m" "2 * m \<le> nfree s"
  shows "\<exists>t. writei_loop ip off src s = Ret (off + of_nat (length src)) t \<and> wrote s t ip (2 * m) (unat off) src \<and> tx_room t k \<and> held t = {}"
  using assms
proof (induction m arbitrary: off src s)
  case 0
  then have "src = []" by auto
  then show ?case using 0 wrote_nil by (auto simp: writei_loop.simps)
next
  case (Suc m)
  show ?case
  proof (cases "src = []")
    case True
    then show ?thesis
      using Suc.prems wrote_nil[of s ip] tx_room_le[OF Suc.prems(1), of k] by (auto simp: writei_loop.simps wrote_def)
  next
    case False
    let ?n = "chunk off (length src)" and ?o = "unat off mod BSIZE"
    have n: "0 < ?n" "?n \<le> length src" "?o + ?n \<le> BSIZE" using False chunk_pos[of "length src" off] by (auto simp: chunk_def BSIZE_def)
    let ?xs = "take ?n src" and ?ys = "drop ?n src"
    have xl: "length ?xs = ?n" using n(2) by simp
    have r: "tx_room s (6 + (6 * m + k))" using Suc.prems(1) by (simp add: add.assoc)
    obtain a s1 b s2 u v where v: "bmap ip (off div of_nat BSIZE) s = Ret a s1" "idev (inodes s1 ! ip) = 1" "bread 1 a s1 = Ret b s2"
      "log_write b (upd_buf b (\<lambda>k. k\<lparr>bdata := blit ?o ?xs (bdata k)\<rparr>) s2) = Ret () u" "brelse b u = Ret () v"
      "wrote s v ip 2 (unat off) ?xs" "tx_room v (6 * m + k)" "held v = {}"
      using write_chunk[OF r Suc.prems(2,3), of off ?xs] n xl Suc.prems(4,6) False by auto
    have big: "MAXFILE * BSIZE < 2 ^ 32" by (simp add: MAXFILE_def BSIZE_def NDIRECT_def NINDIRECT_def)
    have o: "unat (off + of_nat ?n) = unat off + ?n"
      using n(2) Suc.prems(4) big by (intro unat_add_of_nat) simp
    have e: "?ys = [] \<or> unat (off + of_nat ?n) mod BSIZE + length ?ys \<le> BSIZE * m"
    proof (cases "length src \<le> BSIZE - ?o")
      case False
      then have "?n = BSIZE - ?o" by (simp add: chunk_def)
      moreover from this have "(unat off + ?n) mod BSIZE = 0" using mod_add_left_eq[of "unat off" BSIZE ?n] n(3) by simp
      ultimately show ?thesis using Suc.prems(5) n o False by auto
    qed (simp add: chunk_def)
    note W = wroteD[OF v(6)]
    have pre: "unat (off + of_nat ?n) + length ?ys \<le> MAXFILE * BSIZE" "2 * m \<le> nfree v"
      using Suc.prems(4,6) W(4) o n(2) by simp_all
    obtain t where t: "writei_loop ip (off + of_nat ?n) ?ys v = Ret (off + of_nat ?n + of_nat (length ?ys)) t"
      "wrote v t ip (2 * m) (unat (off + of_nat ?n)) ?ys" "tx_room t k" "held t = {}"
      using Suc.IH[OF v(7,8) W(1) pre(1) e pre(2)] by blast
    have "wrote s t ip (2 + 2 * m) (unat off) (?xs @ ?ys)"
      by (rule wrote_app[OF v(6)]) (use t(2) o xl in simp)
    moreover have "off + of_nat ?n + of_nat (length ?ys) = off + of_nat (length src)" using n(2) by (simp add: of_nat_diff)
    moreover have "writei_loop ip off src s = writei_loop ip (off + of_nat ?n) ?ys v"
      using False v(1-5) by (subst writei_loop.simps) (simp add: Let_def)
    ultimately show ?thesis using t(1,3,4) by simp
  qed
qed

text \<open>
  The invariant of a file that \<open>readi\<close> and \<open>writei\<close> rely on: it is not a device,
  not too large, and has no holes; block 0 holds no inodes.
\<close>

definition file_inv :: "('x) icst_scheme \<Rightarrow> nat \<Rightarrow> bool" where
  "file_inv s ip \<longleftrightarrow> file_ok s ip \<and> itype (inodes s ! ip) \<noteq> T_DEV \<and> unat (isize (inodes s ! ip)) \<le> MAXFILE * BSIZE \<and>
     (\<forall>x < unat (isize (inodes s ! ip)). faddr s ip (fslot (x div BSIZE)) \<noteq> 0) \<and> iblk ip s \<noteq> 0"

text \<open>Changing a block that is elsewhere, and the size of the file.\<close>

lemma file_other:
  assumes "file_ok s ip" "elsewhere s ip n" "content t = (content s)(n := d)"
    "iaddrs (inodes t ! ip) = iaddrs (inodes s ! ip)" "inum (inodes t ! ip) = inum (inodes s ! ip)" "idev (inodes t ! ip) = idev (inodes s ! ip)"
    "length (inodes t) = length (inodes s)" "sb t = sb s" "log_start t = log_start s" "disksize t = disksize s"
  shows "file_ok t ip" "\<forall>j<141. faddr t ip j = faddr s ip j" "i < MAXFILE \<Longrightarrow> fblock t ip i = fblock s ip i"
    "elsewhere s ip m \<Longrightarrow> elsewhere t ip m"
proof -
  note F = file_okD[OF assms(1)] and E = assms(2)[unfolded elsewhere_def]
  have E4: "\<forall>j<141. faddr s ip j \<noteq> n" using E by simp
  have fb: "fs_blocks t = fs_blocks s" by (simp add: fs_blocks_def assms(8))
  have us: "used t x = used s x" if "x < fs_blocks s" for x
    using E that by (simp add: used_def assms(3,8))
  have n: "n \<noteq> faddr s ip 12" using E4[rule_format, of 12] by simp
  then show fa: "\<forall>j<141. faddr t ip j = faddr s ip j" by (auto simp: faddr_def addr_def assms(3,4))
  have ib: "iblk ip t = iblk ip s" by (simp add: iblk_def assms(5,8))
  have db: "data_block t ip x = data_block s ip x" for x using us by (auto simp: data_block_def fb ib assms(8,9))
  have "bitmap_ok t" using F(4) us by (simp add: bitmap_ok_def fb assms(8-10))
  then show "file_ok t ip"
    using assms(1) us unfolding file_ok_def ib fb db assms(4-10) by (simp add: fa)
  show "fblock t ip i = fblock s ip i" if "i < MAXFILE"
  proof -
    have "faddr s ip (fslot i) \<noteq> n" using E4[rule_format, OF fslot_less(1)[OF that]] .
    then show ?thesis using fa[rule_format, OF fslot_less(1)[OF that]] by (simp add: fblock_def assms(3))
  qed
  show "elsewhere t ip m" if "elsewhere s ip m" using that us fa by (simp add: elsewhere_def fb assms(8))
qed

lemma iblk_elsewhere: "file_ok s ip \<Longrightarrow> iblk ip s \<noteq> 0 \<Longrightarrow> elsewhere s ip (iblk ip s)"
  using file_okD(7,9,10,12)[of s ip] by (fastforce simp: elsewhere_def data_block_def)

lemma size_update:
  assumes "tx_room s (Suc k)" "held s = {}" "file_ok s ip" "iblk ip s \<noteq> 0"
  shows "\<exists>t. iupdate ip (upd_inode ip (\<lambda>k. k\<lparr>isize := z\<rparr>) s) = Ret () t \<and> tx_room t k \<and> held t = {} \<and> file_ok t ip \<and>
    inodes t = (inodes s)[ip := (inodes s ! ip)\<lparr>isize := z\<rparr>] \<and> sb t = sb s \<and> log_start t = log_start s \<and>
    (\<forall>j<141. faddr t ip j = faddr s ip j) \<and> (\<forall>i<MAXFILE. fblock t ip i = fblock s ip i) \<and>
    (\<forall>n. n \<noteq> iblk ip s \<longrightarrow> content t n = content s n)"
proof -
  note F = file_okD[OF assms(3)]
  let ?u = "upd_inode ip (\<lambda>k. k\<lparr>isize := z\<rparr>) s"
  have u: "inodes ?u = (inodes s)[ip := (inodes s ! ip)\<lparr>isize := z\<rparr>]" "view ?u = view s" "sb ?u = sb s" "log_start ?u = log_start s"
    "disksize ?u = disksize s" "tx_room ?u (Suc k)"
    using assms(1) by (simp_all add: upd_inode_def)
  have iu: "iblk ip ?u = iblk ip s" using F(1) by (simp add: iblk_def u(1,3))
  have hu: "held ?u = {}" using ran_vown[of ?u] ran_vown[of s] u(2) assms(2) by simp
  have ad: "iblk ip s < disksize s" using F(4,9) by (simp add: bitmap_ok_def fs_blocks_def word_less_nat_alt word_le_nat_alt)
  obtain t where t: "iupdate ip ?u = Ret () t" "tx_room t k" "lframe ?u t"
    "view t = (view ?u)\<lparr>vcontent := (vcontent (view ?u))(iblk ip ?u := store_dinode (islot ip ?u) (inodes ?u ! ip) (content ?u (iblk ip ?u))),
      vdirty := insert (iblk ip ?u) (vdirty (view ?u))\<rparr>"
    using iupdate_view[OF u(6), of ip] F(1,2,3,11) ad iu hu by (auto simp: u dinode_ok_def)
  have ct: "content t = (content s)(iblk ip s := store_dinode (islot ip ?u) (inodes ?u ! ip) (content ?u (iblk ip ?u)))"
    using t(4) unfolding view_sel[symmetric] u(2) iu by simp
  have ht: "held t = {}" using ran_vown[of t] ran_vown[of s] t(4) u(2) assms(2) by simp
  note ft = frame_icst[OF t(3)] and lt = lframe_log[OF t(3)]
  have it: "inodes t = (inodes s)[ip := (inodes s ! ip)\<lparr>isize := z\<rparr>]" "sb t = sb s" "log_start t = log_start s" "disksize t = disksize s"
    using ft lt u by simp_all
  note O = file_other[OF assms(3) iblk_elsewhere[OF assms(3,4)] ct _ _ _ _ it(2-4)]
  show ?thesis using t(1,2) ht O(1-3) it F(1) ct by simp
qed

text \<open>\<open>xs\<close> with \<open>src\<close> written at \<open>off\<close>.\<close>

definition splice :: "nat \<Rightarrow> byte list \<Rightarrow> byte list \<Rightarrow> byte list" where
  "splice off src xs = take off xs @ src @ drop (off + length src) xs"

lemma contents_splice:
  assumes "\<And>x. x < max (unat (isize (inodes s ! ip))) (off + length src) \<Longrightarrow>
      fbyte t ip x = (if off \<le> x \<and> x < off + length src then src ! (x - off) else fbyte s ip x)"
    "unat (isize (inodes t ! ip)) = max (unat (isize (inodes s ! ip))) (off + length src)" "off \<le> unat (isize (inodes s ! ip))"
  shows "contents t ip = splice off src (contents s ip)"
proof (rule nth_equalityI)
  let ?n = "unat (isize (inodes s ! ip))"
  have l: "length (contents s ip) = ?n" by (simp add: contents_def)
  show len: "length (contents t ip) = length (splice off src (contents s ip))"
    using assms(2,3) l by (simp add: splice_def) (simp add: contents_def)
  fix x assume "x < length (contents t ip)"
  then have x: "x < max ?n (off + length src)" by (simp add: contents_def assms(2))
  then have "contents t ip ! x = (if off \<le> x \<and> x < off + length src then src ! (x - off) else fbyte s ip x)"
    using assms(1)[OF x] by (simp add: contents_def assms(2))
  also have "\<dots> = splice off src (contents s ip) ! x"
    using x assms(3) l by (auto simp: splice_def nth_append min_def) (auto simp: contents_def)
  finally show "contents t ip ! x = splice off src (contents s ip) ! x" .
qed

text \<open>A file that shares no block with file \<open>ip\<close>.\<close>

definition separate :: "('x) icst_scheme \<Rightarrow> nat \<Rightarrow> nat \<Rightarrow> bool" where
  "separate s ip q \<longleftrightarrow> q \<noteq> ip \<and> unat (isize (inodes s ! q)) \<le> MAXFILE * BSIZE \<and>
     (\<forall>j<141. faddr s q j \<noteq> 0 \<longrightarrow> elsewhere s ip (faddr s q j) \<and> faddr s q j \<noteq> iblk ip s)"

lemma separate_same:
  assumes "separate s ip q" "\<And>n. elsewhere s ip n \<Longrightarrow> n \<noteq> iblk ip s \<Longrightarrow> content t n = content s n" "inodes t ! q = inodes s ! q"
  shows "contents t q = contents s q"
proof -
  note S = assms(1)[unfolded separate_def]
  have c: "content t (faddr s q j) = content s (faddr s q j)" if "j < 141" "faddr s q j \<noteq> 0" for j
    using S assms(2) that by blast
  have fa: "faddr t q j = faddr s q j" if "j < 141" for j
    using c[of 12] by (auto simp: faddr_12) (auto simp: faddr_def addr_def assms(3))
  have "fbyte t q x = fbyte s q x" if "x < unat (isize (inodes s ! q))" for x
  proof -
    have i: "x div BSIZE < MAXFILE" using that S by (simp add: BSIZE_def div_less_iff_less_mult)
    show ?thesis using fa[OF fslot_less(1)[OF i]] c[OF fslot_less(1)[OF i]] by (simp add: fbyte_def fblock_def)
  qed
  then show ?thesis by (simp add: contents_def assms(3))
qed

lemma writei_inside:
  assumes "tx_room s (6 * m + Suc k)" "held s = {}" "file_inv s ip" "unat off \<le> unat (isize (inodes s ! ip))"
    "unat off + length src \<le> MAXFILE * BSIZE" "unat off mod BSIZE + length src \<le> BSIZE * m" "2 * m \<le> nfree s"
  shows "\<exists>t. writei ip src off s = Ret (int (length src)) t \<and> file_inv t ip \<and> contents t ip = splice (unat off) src (contents s ip) \<and>
     tx_room t k \<and> held t = {} \<and> (\<forall>n. elsewhere s ip n \<longrightarrow> n \<noteq> iblk ip s \<longrightarrow> content t n = content s n) \<and>
     (\<forall>q. q \<noteq> ip \<longrightarrow> inodes t ! q = inodes s ! q)"
proof -
  note I = assms(3)[unfolded file_inv_def]
  let ?z = "isize (inodes s ! ip)" and ?n = "length src"
  have big: "MAXFILE * BSIZE < 2 ^ 32" by (simp add: MAXFILE_def BSIZE_def NDIRECT_def NINDIRECT_def)
  have o: "unat (off + of_nat ?n) = unat off + ?n" using assms(5) big by (intro unat_add_of_nat) simp
  have n: "unat (of_nat ?n :: uint) = ?n" using assms(5) big unat_nat32[of ?n] by simp
  obtain t where t: "writei_loop ip off src s = Ret (off + of_nat ?n) t" "wrote s t ip (2 * m) (unat off) src" "tx_room t (Suc k)" "held t = {}"
    using writei_loop_writes[OF assms(1,2) _ assms(5) _ assms(7)] I assms(6) by blast
  note W = wroteD[OF t(2)]
  obtain as where as: "inodes t = (inodes s)[ip := (inodes s ! ip)\<lparr>iaddrs := as\<rparr>]" using W(5) by blast
  note L = file_okD(1)[OF I[THEN conjunct1]]
  have ti: "isize (inodes t ! ip) = ?z" "itype (inodes t ! ip) = itype (inodes s ! ip)" "\<And>q. q \<noteq> ip \<Longrightarrow> inodes t ! q = inodes s ! q"
    "iblk ip t = iblk ip s"
    using as L W(6) by (simp_all add: iblk_def)
  have hole: "faddr t ip (fslot (x div BSIZE)) \<noteq> 0" if "x < max (unat ?z) (unat off + ?n)" for x
  proof -
    have "x < MAXFILE * BSIZE" using that I assms(5) by auto
    moreover have "faddr s ip (fslot (x div BSIZE)) \<noteq> 0 \<or> unat off \<le> x \<and> x < unat off + ?n" using that I assms(4) by (cases "x < unat ?z") auto
    ultimately show ?thesis by (rule W(3))
  qed
  have fb: "fbyte t ip x = (if unat off \<le> x \<and> x < unat off + ?n then src ! (x - unat off) else fbyte s ip x)"
    if "x < max (unat ?z) (unat off + ?n)" for x
    by (rule W(2)) (use that I assms(5) in auto)
  have w: "writei ip src off s =
     bnd (if 0 < ?n \<and> off + of_nat ?n > ?z then iupdate ip (upd_inode ip (\<lambda>k. k\<lparr>isize := off + of_nat ?n\<rparr>) t) else Ret () t)
       (\<lambda>_ s. Ret (int ?n) s)"
    using I assms(4,5) o n t(1) ti(1) by (simp add: writei_def Let_def word_less_nat_alt)
  show ?thesis
  proof (cases "off + of_nat ?n > ?z")
    case False
    then have m: "max (unat ?z) (unat off + ?n) = unat ?z" using o by (simp add: word_less_nat_alt)
    have c: "contents t ip = splice (unat off) src (contents s ip)" by (rule contents_splice) (use fb ti m assms(4) in simp_all)
    have "file_inv t ip" using W(1) I hole ti m by (simp add: file_inv_def)
    then show ?thesis using w False c tx_room_le[OF t(3), of k] t(4) W(8) ti(3) by simp
  next
    case True
    then have m: "max (unat ?z) (unat off + ?n) = unat off + ?n" "0 < ?n" using o assms(4) by (simp_all add: word_less_nat_alt) auto
    obtain u where u: "iupdate ip (upd_inode ip (\<lambda>k. k\<lparr>isize := off + of_nat ?n\<rparr>) t) = Ret () u" "tx_room u k" "held u = {}" "file_ok u ip"
      "inodes u = (inodes t)[ip := (inodes t ! ip)\<lparr>isize := off + of_nat ?n\<rparr>]" "sb u = sb t" "\<forall>j<141. faddr u ip j = faddr t ip j"
      "\<forall>i<MAXFILE. fblock u ip i = fblock t ip i" "\<forall>n. n \<noteq> iblk ip t \<longrightarrow> content u n = content t n"
      using size_update[OF t(3,4) W(1), of "off + of_nat ?n"] I ti(4) by auto
    have ui: "unat (isize (inodes u ! ip)) = unat off + ?n" "itype (inodes u ! ip) = itype (inodes s ! ip)" "iblk ip u = iblk ip s"
      "\<And>q. q \<noteq> ip \<Longrightarrow> inodes u ! q = inodes s ! q"
      using u(5,6) as L o W(6) by (simp_all add: iblk_def)
    have x: "x div BSIZE < MAXFILE" if "x < unat off + ?n" for x
      using that assms(5) by (simp add: BSIZE_def div_less_iff_less_mult)
    have c: "contents u ip = splice (unat off) src (contents s ip)"
      by (rule contents_splice) (use fb ui m assms(4) u(8) x in \<open>simp_all add: fbyte_def\<close>)
    have "file_inv u ip" using u(4,7) I hole ui m assms(5) fslot_less(1)[OF x] by (simp add: file_inv_def)
    then show ?thesis using w True m(2) c u(1-3,9) W(8) ti(4) ui(4) by simp
  qed
qed

lemma readi_loop_reads:
  assumes "can_read s" "file_ok s ip" "unat off + n \<le> MAXFILE * BSIZE"
    "\<And>x. unat off \<le> x \<Longrightarrow> x < unat off + n \<Longrightarrow> faddr s ip (fslot (x div BSIZE)) \<noteq> 0"
  shows "\<exists>t. readi_loop ip off n dst s = Ret (dst @ map (fbyte s ip) [unat off..<unat off + n]) t \<and> can_read t \<and> bframe s t \<and> view t = view s"
  using assms
proof (induction n arbitrary: off dst s rule: less_induct)
  case (less n)
  show ?case
  proof (cases "n = 0")
    case True
    then show ?thesis using less.prems(1) bframe_refl[of s] by (simp add: readi_loop.simps)
  next
    case False
    let ?m = "chunk off n" and ?i = "unat off div BSIZE" and ?o = "unat off mod BSIZE"
    have m: "0 < ?m" "?m \<le> n" "?o + ?m \<le> BSIZE" using False chunk_pos[of n off] by (auto simp: chunk_def BSIZE_def)
    have i: "?i < MAXFILE" using less.prems(3) False by (simp add: BSIZE_def div_less_iff_less_mult)
    have a0: "faddr s ip (fslot ?i) \<noteq> 0" using less.prems(4)[of "unat off"] False by simp
    obtain s1 where s1: "bmap ip (off div of_nat BSIZE) s = Ret (faddr s ip (fslot ?i)) s1" "can_read s1" "bframe s s1" "view s1 = view s"
      using bmap_there[OF less.prems(1,2), of "off div of_nat BSIZE"] i a0 unfolding unat_block by blast
    note fr = frame_icst[OF lframe_bframe[OF s1(3)]] and lf = lframe_log[OF lframe_bframe[OF s1(3)]]
    let ?a = "faddr s ip (fslot ?i)"
    note F = file_okD[OF less.prems(2)]
    have ad: "?a < disksize s1"
      using F(7)[OF fslot_less(1)[OF i] a0] F(4) lf(6) by (simp add: data_block_def bitmap_ok_def fs_blocks_def word_less_nat_alt word_le_nat_alt)
    obtain b s2 s3 where b: "bread 1 ?a s1 = Ret b s2" "bdata (bufs s2 ! b) = content s1 ?a" "length (content s1 ?a) = BSIZE"
      "brelse b s2 = Ret () s3" "can_read s3" "bframe s1 s3" "view s3 = view s1"
      by (rule block_peek[OF s1(2) ad]) blast
    have c1: "content s1 = content s" "content s3 = content s" using s1(4) b(7) unfolding view_sel[symmetric] by simp_all
    have s3: "bframe s s3" "view s3 = view s" using bframe_trans[OF s1(3) b(6)] b(7) s1(4) by simp_all
    note f3 = frame_icst[OF lframe_bframe[OF s3(1)]] and l3 = lframe_log[OF lframe_bframe[OF s3(1)]]
    note g3 = file_frame[OF c1(2) f3(1), of ip]
    have ok3: "file_ok s3 ip" using file_ok_frame[OF s3(2) f3 l3(2)] less.prems(2) by simp
    have big: "MAXFILE * BSIZE < 2 ^ 32" by (simp add: MAXFILE_def BSIZE_def NDIRECT_def NINDIRECT_def)
    have o: "unat (off + of_nat ?m) = unat off + ?m" using m(2) less.prems(3) big by (intro unat_add_of_nat) simp
    have sg: "seg ?o ?m (content s ?a) = map (fbyte s ip) [unat off..<unat off + ?m]"
    proof (rule nth_equalityI)
      show "length (seg ?o ?m (content s ?a)) = length (map (fbyte s ip) [unat off..<unat off + ?m])" using m(3) b(3) c1(1) by simp
      fix x assume "x < length (seg ?o ?m (content s ?a))"
      then have x: "x < ?m" using m(3) b(3) c1(1) by simp
      have "(unat off + x) div BSIZE = ?i" "(unat off + x) mod BSIZE = ?o + x"
        using chunk_pos_iff[OF m(3), of "unat off + x"] x by auto
      then show "seg ?o ?m (content s ?a) ! x = map (fbyte s ip) [unat off..<unat off + ?m] ! x"
        using x m(3) b(3) c1(1) a0 by (simp add: nth_seg fbyte_def fblock_def)
    qed
    obtain t where t: "readi_loop ip (off + of_nat ?m) (n - ?m) (dst @ seg ?o ?m (content s ?a)) s3 =
        Ret ((dst @ seg ?o ?m (content s ?a)) @ map (fbyte s ip) [unat off + ?m..<unat off + n]) t" "can_read t" "bframe s3 t" "view t = view s3"
      using less.IH[of "n - ?m" s3 "off + of_nat ?m" "dst @ seg ?o ?m (content s ?a)"] b(5) ok3 m less.prems(3,4) o False g3 by auto
    have "map (fbyte s ip) [unat off..<unat off + ?m] @ map (fbyte s ip) [unat off + ?m..<unat off + n] = map (fbyte s ip) [unat off..<unat off + n]"
      using upt_add_eq_append[of "unat off" "unat off + ?m" "n - ?m"] m(2) by (simp flip: map_append)
    moreover have "readi_loop ip off n dst s = readi_loop ip (off + of_nat ?m) (n - ?m) (dst @ seg ?o ?m (content s ?a)) s3"
      using False s1(1) b(1,2,4) fr F(2) c1(1) by (subst readi_loop.simps) (simp add: Let_def)
    moreover have "bframe s t" using bframe_trans[OF s3(1) t(3)] .
    ultimately show ?thesis using t s3(2) sg by simp
  qed
qed

section \<open>Files hold what is written to them\<close>

lemma sint_small: "unat (w :: uint) < 2 ^ 31 \<Longrightarrow> sint w = int (unat w)"
proof -
  assume a: "unat w < 2 ^ 31"
  then have "int (unat w) < int (2 ^ 31)" by (simp only: of_nat_less_iff)
  moreover have u: "int (unat w) = uint w" by simp
  ultimately have "uint w < 2 ^ 31" unfolding u by simp
  moreover have "- (2 ^ 31) \<le> uint w" using uint_ge_0[of w] by (rule order_trans[rotated]) simp
  ultimately have "signed_take_bit 31 (uint w) = uint w" by (simp add: signed_take_bit_int_eq_self_iff)
  then show ?thesis by (simp add: sint_uint)
qed

text \<open>
  C2. Writing a file.  In a transaction with room for its blocks, on a disk with enough free
  ones, \<open>writei\<close> of \<open>src\<close> at an offset inside the file or at its end returns the
  number of bytes; the file's contents are then what they were with \<open>src\<close> put in at the
  offset, longer if need be, whether the blocks were there, or had to be allocated, the
  indirect block included.  The file keeps its invariant and no file that shares no block
  with it changes.
\<close>

theorem writei_contents:
  assumes "tx_room s (6 * m + 1)" "held s = {}" "file_inv s ip" "unat off \<le> length (contents s ip)"
    "unat off + length src \<le> MAXFILE * BSIZE" "unat off mod BSIZE + length src \<le> BSIZE * m" "2 * m \<le> nfree s"
  shows "\<exists>t. writei ip src off s = Ret (int (length src)) t \<and> file_inv t ip \<and>
    contents t ip = take (unat off) (contents s ip) @ src @ drop (unat off + length src) (contents s ip) \<and>
    tx_room t 0 \<and> held t = {} \<and> (\<forall>q. separate s ip q \<longrightarrow> contents t q = contents s q)"
proof -
  have o: "unat off \<le> unat (isize (inodes s ! ip))" using assms(4) by (simp add: contents_def)
  obtain t where t: "writei ip src off s = Ret (int (length src)) t" "file_inv t ip" "contents t ip = splice (unat off) src (contents s ip)"
     "tx_room t 0" "held t = {}" "\<And>n. elsewhere s ip n \<Longrightarrow> n \<noteq> iblk ip s \<Longrightarrow> content t n = content s n"
     "\<And>q. q \<noteq> ip \<Longrightarrow> inodes t ! q = inodes s ! q"
    using writei_inside[OF _ assms(2,3) o assms(5-7), of 0] assms(1) by auto
  have "contents t q = contents s q" if "separate s ip q" for q
    by (rule separate_same[OF that t(6)]) (use that t(7) in \<open>simp_all add: separate_def\<close>)
  then show ?thesis using t(1-5) by (auto simp: splice_def)
qed

text \<open>
  C12. Reading a file.  \<open>readi\<close> returns the bytes of the file's contents from the offset
  on, as many as asked for or as there are, with their number, and changes neither the
  blocks nor the inodes.  An offset beyond the end, or a range that wraps around, gives -1.
  No transaction is needed.
\<close>

theorem readi_contents:
  assumes "can_read s" "file_inv s ip"
  shows "if unat off \<le> length (contents s ip) \<and> unat off + unat n < 2 ^ 32
    then let bs = take (unat n) (drop (unat off) (contents s ip)) in
      \<exists>t. readi ip off n s = Ret (int (length bs), bs) t \<and> can_read t \<and> view t = view s \<and> inodes t = inodes s
    else readi ip off n s = Ret (- 1, []) s"
proof -
  note I = assms(2)[unfolded file_inv_def]
  let ?z = "isize (inodes s ! ip)"
  have len: "length (contents s ip) = unat ?z" by (simp add: contents_def)
  have wrap: "off + n < off \<longleftrightarrow> \<not> unat off + unat n < 2 ^ 32"
    by (simp add: word_less_nat_alt unat_plus_if') (use unat_lt32[of n] in auto)
  show ?thesis
  proof (cases "unat off \<le> unat ?z \<and> unat off + unat n < 2 ^ 32")
    case False
    then show ?thesis using I wrap by (auto simp: readi_def len word_less_nat_alt)
  next
    case True
    define k where "k = min (unat n) (unat ?z - unat off)"
    have s: "unat (off + n) = unat off + unat n" using True by (simp add: unat_plus_if')
    have k: "unat (if off + n > ?z then ?z - off else n) = k"
      using True s by (auto simp: k_def word_less_nat_alt unat_sub word_le_nat_alt)
    have z: "unat off + k \<le> unat ?z" using True by (auto simp: k_def min_def)
    obtain t where t: "readi_loop ip off k [] s = Ret (map (fbyte s ip) [unat off..<unat off + k]) t" "can_read t" "bframe s t" "view t = view s"
      using readi_loop_reads[OF assms(1), of ip off k "[]"] I z by auto
    have bs: "map (fbyte s ip) [unat off..<unat off + k] = take (unat n) (drop (unat off) (contents s ip))"
      using True by (cases "unat n \<le> unat ?z - unat off") (auto simp: contents_def k_def take_map drop_map take_upt)
    have kb: "k < 2 ^ 31" using z I by (simp add: MAXFILE_def BSIZE_def NDIRECT_def NINDIRECT_def)
    have si: "sint (if off + n > ?z then ?z - off else n) = int k"
      using sint_small[of "if off + n > ?z then ?z - off else n"] kb unfolding k by simp
    have "readi ip off n s = Ret (int k, take (unat n) (drop (unat off) (contents s ip))) t"
      using I True wrap t(1) bs k si by (simp add: readi_def Let_def word_less_nat_alt)
    moreover have "int k = int (length (take (unat n) (drop (unat off) (contents s ip))))" using bs by (metis length_map length_upt add_diff_cancel_left')
    ultimately show ?thesis using True t(2,4) frame_icst(1)[OF lframe_bframe[OF t(3)]] by (simp add: len Let_def)
  qed
qed

text \<open>A file of 511 bytes in block 57 of the example disk.\<close>

definition file_inode :: inode where
  "file_inode = \<lparr>idev = 1, inum = 33, iref = 1, ivalid = True, itype = T_FILE, imajor = 0, iminor = 0, inlink = 1, isize = 511,
     iaddrs = 57 # replicate 12 0\<rparr>"

definition file_state :: consst where
  "file_state = apicst.extend (icst.extend (fs_example fs_disk fs_sb [file_inode]) (apicst.fields 0 (\<lambda>_. 0) 0 (\<lambda>_. 0) [] (\<lambda>_. 0)))
     (consst.fields False False [] 0 0 0 [] 0 False [] [])"

lemma file_state_ext:
  "bio_ok file_state = bio_ok (fs_example fs_disk fs_sb [file_inode])" "view file_state = view (fs_example fs_disk fs_sb [file_inode])"
  "held file_state = held (fs_example fs_disk fs_sb [file_inode])"
  "log_start file_state = log_start (fs_example fs_disk fs_sb [file_inode])" "log_size file_state = log_size (fs_example fs_disk fs_sb [file_inode])"
  "log_dev file_state = log_dev (fs_example fs_disk fs_sb [file_inode])" "lh_n file_state = lh_n (fs_example fs_disk fs_sb [file_inode])"
  "outstanding file_state = outstanding (fs_example fs_disk fs_sb [file_inode])"
  "lh_block file_state = lh_block (fs_example fs_disk fs_sb [file_inode])"
  "sb file_state = sb (fs_example fs_disk fs_sb [file_inode])" "inodes file_state = inodes (fs_example fs_disk fs_sb [file_inode])"
  by (simp_all add: file_state_def icst.defs apicst.defs bio_ok_def calm_def cli_ok_def this_cpu_def readeflags_IF_def lk_free_def cur_def lru_def held_def
      nxt_def[abs_def] prv_def[abs_def] cache_ok_def blk_locked_def view_def content_def[abs_def] dirty_blocks_def cong: if_cong option.case_cong)

lemma file_state_ok:
  "tx_room file_state 29" "held file_state = {}" "can_read file_state" "file_inv file_state 0" "contents file_state 0 = replicate 511 0"
  "nfree file_state = 941"
proof -
  let ?s = file_state
  note F = fs_disk_ok[where ks = "[file_inode]"] and E = file_state_ext
  show r: "tx_room ?s 29" using log_upd_inv[OF E(1,2,6,4,7,9,5,8)] F(1) by simp
  show h: "held ?s = {}" using E(3) F(2) by simp
  show "can_read ?s" using can_read_tx[OF r h] .
  have c: "content ?s = (\<lambda>n. fs_disk (unat n))" using E(2) F(8) unfolding view_sel[symmetric] by (simp add: fun_eq_iff view_sel)
  have d: "disksize ?s = disksize (fs_example fs_disk fs_sb [file_inode])" using E(2) unfolding view_sel[symmetric] by simp
  have b: "sb ?s = fs_sb" "inodes ?s = [file_inode]" "log_start ?s = 2" using E F(6,7,9) by simp_all
  have n: "fs_blocks ?s = 1000" by (simp add: fs_blocks_def b fs_sb_def)
  have c2: "content ?s = content (fs_example fs_disk fs_sb [file_inode])" using E(2) unfolding view_sel[symmetric] by simp
  have us: "used ?s = used (fs_example fs_disk fs_sb [file_inode])" using c2 E(10) by (simp add: used_def[abs_def])
  have u: "used ?s x = (x < 59)" if "x < 1000" for x using F(5)[OF that] us by simp
  have bo: "bitmap_ok ?s" using F(3) us d E(4,10) by (simp add: bitmap_ok_def fs_blocks_def)
  have B: "BBLOCK (of_nat x) (sb ?s) = 58" if "x < 1000" for x
    using BBLOCK_nat[of x "sb ?s"] that by (simp add: b fs_sb_def BPB_def BSIZE_def)
  have fa: "faddr ?s 0 j = (if j = 0 then 57 else 0)" if "j < 141" for j
    using that by (auto simp: faddr_def addr_def b file_inode_def nth_Cons')
  have ib: "iblk 0 ?s = 36" by (simp add: iblk_def b file_inode_def fs_sb_def IBLOCK_def IPB_def)
  have "data_block ?s 0 57" using u B by (simp add: data_block_def n b ib in_log_def LOGSIZE_def MAXOPBLOCKS_def)
  then have fo: "file_ok ?s 0"
    unfolding file_ok_def using bo fa u B by (simp add: n ib b file_inode_def in_log_def LOGSIZE_def MAXOPBLOCKS_def)
  then show "file_inv ?s 0"
    using fa by (simp add: file_inv_def ib b file_inode_def T_FILE_def T_DEV_def MAXFILE_def NDIRECT_def NINDIRECT_def BSIZE_def fslot_def)
  have "fbyte ?s 0 x = 0" if "x < 511" for x
    using that fa by (simp add: fbyte_def fblock_def BSIZE_def fslot_def c fs_disk_def)
  then show "contents ?s 0 = replicate 511 0"
    by (intro nth_equalityI) (simp_all add: contents_def b file_inode_def)
  have "{x. x < 1000 \<and> \<not> used ?s x} = {59..<1000}" using u by auto
  then show "nfree ?s = 941" by (simp add: nfree_def n)
qed

text \<open>A write over the end of the file's only block, which allocates a second one.\<close>

theorem writei_contents_witness:
  "\<exists>t. writei 0 [1, 2, 3] 510 file_state = Ret 3 t \<and> contents t 0 = replicate 510 0 @ [1, 2, 3] \<and> file_inv t 0"
proof -
  note S = file_state_ok
  have r: "tx_room file_state (6 * 2 + 1)" using tx_room_le[OF S(1)] by simp
  show ?thesis
    using writei_contents[OF r S(2,4), of 510 "[1, 2, 3]"] S(5,6)
    by (auto simp: MAXFILE_def NDIRECT_def NINDIRECT_def BSIZE_def)
qed

theorem readi_contents_witness:
  "(\<exists>t. readi 0 509 10 file_state = Ret (2, [0, 0]) t \<and> view t = view file_state) \<and> readi 0 512 10 file_state = Ret (- 1, []) file_state"
proof -
  have "take 10 (drop 509 (replicate 511 (0::byte))) = [0, 0]" by (simp add: numeral_2_eq_2)
  then show ?thesis
    using readi_contents[OF file_state_ok(3,4), of 509 10] readi_contents[OF file_state_ok(3,4), of 512 10]
    by (simp add: file_state_ok(5) Let_def) blast
qed

end
