(* ===== verification/Paths.thy ===== *)
theory Paths
  imports Fs
begin

text \<open>
  Path names: \<open>skipelem\<close> of \<open>kernel/fs.c\<close> against the list of the elements of
  a path.
\<close>

section \<open>The elements of a path\<close>

text \<open>The parts of a string between slashes; an element is a part that is not empty.\<close>

fun split_slash :: "byte list \<Rightarrow> byte list list" where
  "split_slash [] = [[]]"
| "split_slash (c # cs) =
     (if c = 47 then [] # split_slash cs
      else case split_slash cs of e # es \<Rightarrow> (c # e) # es | [] \<Rightarrow> [[c]])"

definition elements :: "byte list \<Rightarrow> byte list list" where
  "elements path = filter (\<lambda>e. e \<noteq> []) (split_slash (takeWhile (\<lambda>c. c \<noteq> 0) path))"

lemma split_slash_ne [simp]: "split_slash cs \<noteq> []"
  by (cases cs) (auto split: list.splits)

lemma elements_slash: "elements (dropWhile (\<lambda>c. c = 47) path) = elements path"
  by (induction path) (auto simp: elements_def)

lemma split_slash_word:
  assumes "\<forall>c\<in>set w. c \<noteq> 47"
  shows "split_slash (w @ 47 # rest) = w # split_slash rest" "split_slash w = [w]"
  using assms by (induction w) auto

lemma elements_word:
  assumes "w \<noteq> []" "\<forall>c\<in>set w. c \<noteq> 47 \<and> c \<noteq> 0" "rest = [] \<or> hd rest = 0 \<or> hd rest = 47"
  shows "elements (w @ rest) = w # elements rest"
proof -
  have tw: "takeWhile (\<lambda>c. c \<noteq> 0) (w @ rest) = w @ takeWhile (\<lambda>c. c \<noteq> 0) rest"
    using assms(2) by (simp add: takeWhile_append2)
  consider "takeWhile (\<lambda>c. c \<noteq> 0) rest = []" | r where "rest = 47 # r"
    using assms(3) by (cases rest) auto
  then show ?thesis
  proof cases
    case 1
    then show ?thesis using split_slash_word(2)[of w] assms(1,2) by (auto simp: elements_def tw)
  next
    case 2
    then show ?thesis using split_slash_word(1)[of w] assms(1,2) by (auto simp: elements_def tw)
  qed
qed

lemma dropWhile_hd: "dropWhile P xs = [] \<or> \<not> P (hd (dropWhile P xs))"
  by (induction xs) auto

section \<open>Properties\<close>

text \<open>
  C25.  \<open>skipelem\<close> takes a path apart.  It returns 0 exactly when the path has no
  element left; otherwise it leaves the elements after the first, without leading
  slashes, and puts the first element, cut to \<open>DIRSIZ\<close> bytes, into \<open>name\<close>:
  NUL-terminated when it is shorter, and never writing outside the array.
\<close>

theorem skipelem_elements:
  assumes "length name = DIRSIZ"
  shows "case skipelem path name of
      None \<Rightarrow> elements path = []
    | Some (path', name') \<Rightarrow> \<exists>e. elements path = e # elements path' \<and> length name' = DIRSIZ \<and> chr path' \<noteq> 47 \<and>
        cstr name' = take DIRSIZ e"
proof -
  define t where "t = dropWhile (\<lambda>c. c = 47) path"
  have el: "elements path = elements t" by (simp add: t_def elements_slash)
  have n47: "chr t \<noteq> 47" using chr_dropWhile_slash[of path] by (simp add: t_def)
  show ?thesis
  proof (cases "chr t = 0")
    case True
    then have "elements t = []" by (cases t) (auto simp: chr_def elements_def)
    moreover have "skipelem path name = None" using True by (simp add: skipelem_def Let_def t_def)
    ultimately show ?thesis using el by simp
  next
    case False
    define w where "w = takeWhile (\<lambda>c. c \<noteq> 47 \<and> c \<noteq> 0) t"
    define r where "r = dropWhile (\<lambda>c. c \<noteq> 47 \<and> c \<noteq> 0) t"
    have wr: "t = w @ r" by (simp add: w_def r_def)
    have "w \<noteq> []" using False n47 by (cases t) (auto simp: w_def chr_def)
    moreover have ws: "\<forall>c\<in>set w. c \<noteq> 47 \<and> c \<noteq> 0" by (auto simp: w_def dest: set_takeWhileD)
    moreover have "r = [] \<or> hd r = 0 \<or> hd r = 47" using dropWhile_hd[of "\<lambda>c. c \<noteq> 47 \<and> c \<noteq> 0" t] by (auto simp: r_def)
    ultimately have "elements t = w # elements r" unfolding wr by (rule elements_word)
    then have e: "elements path = w # elements (dropWhile (\<lambda>c. c = 47) r)" by (simp add: el elements_slash)
    have len: "length t - length r = length w" by (simp add: wr)
    let ?n = "if length w \<ge> DIRSIZ then blit 0 (take DIRSIZ t) name else (blit 0 (take (length w) t) name)[length w := 0]"
    have sk: "skipelem path name = Some (dropWhile (\<lambda>c. c = 47) r, ?n)"
      using False len by (simp add: skipelem_def Let_def t_def[symmetric] r_def[symmetric])
    have "length ?n = DIRSIZ \<and> cstr ?n = take DIRSIZ w"
    proof (cases "length w \<ge> DIRSIZ")
      case True
      then have "take DIRSIZ t = take DIRSIZ w" by (simp add: wr)
      moreover have "\<forall>c\<in>set (take DIRSIZ w). c \<noteq> 0" using ws by (auto dest: in_set_takeD)
      ultimately show ?thesis using True assms by (auto simp: blit_def cstr_def takeWhile_append2)
    next
      case short: False
      then have "?n = w @ 0 # drop (Suc (length w)) name"
        using assms by (simp add: wr blit_def list_update_append) (simp add: Cons_nth_drop_Suc[symmetric])
      moreover have "takeWhile (\<lambda>c. c \<noteq> 0) (w @ 0 # x) = w" for x using ws by (simp add: takeWhile_append2)
      ultimately show ?thesis using short assms by (simp add: cstr_def)
    qed
    then show ?thesis using sk e chr_dropWhile_slash[of r] by simp
  qed
qed

theorem skipelem_elements_witness:
  "skipelem (asc ''//usr/bin'') (replicate DIRSIZ 0) = Some (asc ''bin'', asc ''usr'' @ replicate 11 0) \<and>
   elements (asc ''//usr/bin'') = [asc ''usr'', asc ''bin'']"
proof -
  have l: "length (replicate DIRSIZ (0 :: byte)) = DIRSIZ" by simp
  have s: "skipelem (asc ''//usr/bin'') (replicate DIRSIZ 0) = Some (asc ''bin'', asc ''usr'' @ replicate 11 0)" by code_simp
  moreover have "elements (asc ''//usr/bin'') = [asc ''usr'', asc ''bin'']" by code_simp
  ultimately show ?thesis using skipelem_elements[OF l, of "asc ''//usr/bin''"] by simp
qed

end
