(* ===== verification/File.thy ===== *)
theory File
  imports Fs
begin

text \<open>
  Pipes and the file table: \<open>kernel/pipe.c\<close>, \<open>kernel/file.c\<close>.

  A pipe is a page of kernel memory; its fields are at their offsets in
  \<open>struct pipe\<close>: 52 bytes of spin lock, the \<open>PIPESIZE\<close> data bytes, then
  the words \<open>nread\<close>, \<open>nwrite\<close>, \<open>readopen\<close>,
  \<open>writeopen\<close>.  The lock itself is the entry \<open>L_pipe p\<close> of the table of
  locks.  Files are named by their index in \<open>ftable.file\<close>.  As in theory Fs,
  data that is read is returned and data to write is an argument; no transfer has
  more than \<open>2 ^ 31 - 1\<close> bytes.
\<close>

section \<open>Pipes\<close>

definition PIPESIZE :: nat where "PIPESIZE = 512"

definition p_data :: "uint \<Rightarrow> uint \<Rightarrow> uint" where
  "p_data p i = p + 52 + i mod of_nat PIPESIZE"

definition nread :: "uint \<Rightarrow> ('x) kmem_scheme \<Rightarrow> uint" where "nread p s = rd32 (p + 564) s"
definition nwrite :: "uint \<Rightarrow> ('x) kmem_scheme \<Rightarrow> uint" where "nwrite p s = rd32 (p + 568) s"
definition readopen :: "uint \<Rightarrow> ('x) kmem_scheme \<Rightarrow> uint" where "readopen p s = rd32 (p + 572) s"
definition writeopen :: "uint \<Rightarrow> ('x) kmem_scheme \<Rightarrow> uint" where "writeopen p s = rd32 (p + 576) s"

definition pipe_init :: "uint \<Rightarrow> ('x) kmem_scheme \<Rightarrow> ('x) kmem_scheme" where
  "pipe_init p s =
     (let s = wr32 (p + 572) 1 s; s = wr32 (p + 576) 1 s; s = wr32 (p + 568) 0 s; s = wr32 (p + 564) 0 s in
      initlock (L_pipe p) ''pipe'' s)"

definition pipeclose :: "uint \<Rightarrow> bool \<Rightarrow> ('x) ptab_scheme \<Rightarrow> (('x) ptab_scheme, unit) outcome" where
  "pipeclose p wr s =
     bnd (acquire (L_pipe p) s) (\<lambda>_ s.
     bnd (if wr then let s = wr32 (p + 576) 0 s in wakeup (Ch_nread p) s
          else let s = wr32 (p + 572) 0 s in wakeup (Ch_nwrite p) s) (\<lambda>_ s.
     if readopen p s = 0 \<and> writeopen p s = 0
     then bnd (release (L_pipe p) s) (\<lambda>_ s. kfree p s)
     else release (L_pipe p) s))"

text \<open>One byte into the ring and one byte out of it.\<close>

definition pipe_put :: "uint \<Rightarrow> byte \<Rightarrow> ('x) kmem_scheme \<Rightarrow> ('x) kmem_scheme" where
  "pipe_put p c s =
     (let i = nwrite p s;
          s = wr32 (p + 568) (i + 1) s in
      s\<lparr>mem := (mem s)(p_data p i := c)\<rparr>)"

definition pipe_get :: "uint \<Rightarrow> ('x) kmem_scheme \<Rightarrow> byte \<times> ('x) kmem_scheme" where
  "pipe_get p s =
     (let i = nread p s in (mem s (p_data p i), wr32 (p + 564) (i + 1) s))"

text \<open>
  \<open>pipewrite\<close> with the lock held and the bytes \<open>addr + i\<close> .. still to
  write; \<open>n\<close> is the number it returns.
\<close>

fun pipewrite_loop :: "byte list \<Rightarrow> int \<Rightarrow> uint \<Rightarrow> ('x) ptab_scheme \<Rightarrow> (('x) ptab_scheme, int) outcome" where
  "pipewrite_loop [] n p s =
     bnd (wakeup (Ch_nread p) s) (\<lambda>_ s.
     bnd (release (L_pipe p) s) (\<lambda>_ s. Ret n s))"
| "pipewrite_loop (c # cs) n p s =
     (if nwrite p s = nread p s + of_nat PIPESIZE
      then
        bnd (if readopen p s = 0 then Ret True s
             else bnd (myproc s) (\<lambda>q s. case q of None \<Rightarrow> Fault 64 | Some q \<Rightarrow> Ret (killed (procs s ! q)) s)) (\<lambda>stop s.
        if stop then bnd (release (L_pipe p) s) (\<lambda>_ s. Ret (- 1) s)
        else
          bnd (wakeup (Ch_nread p) s) (\<lambda>_ s.
          bnd (sleep (Ch_nwrite p) (L_pipe p) s) (\<lambda>_ s. OutOfFuel)))
      else pipewrite_loop cs n p (pipe_put p c s))"

definition pipewrite :: "uint \<Rightarrow> byte list \<Rightarrow> ('x) ptab_scheme \<Rightarrow> (('x) ptab_scheme, int) outcome" where
  "pipewrite p addr s =
     bnd (acquire (L_pipe p) s) (\<lambda>_ s. pipewrite_loop addr (int (length addr)) p s)"

definition pipewrite_resume :: "nat \<Rightarrow> bool \<Rightarrow> byte list \<Rightarrow> int \<Rightarrow> uint \<Rightarrow> ('x) ptab_scheme \<Rightarrow> (('x) ptab_scheme, int) outcome" where
  "pipewrite_resume q ie cs n p s =
     bnd (sleep_resume q ie (L_pipe p) s) (\<lambda>_ s. pipewrite_loop cs n p s)"

fun piperead_copy :: "nat \<Rightarrow> uint \<Rightarrow> ('x) kmem_scheme \<Rightarrow> byte list \<times> ('x) kmem_scheme" where
  "piperead_copy 0 p s = ([], s)"
| "piperead_copy (Suc n) p s =
     (if nread p s = nwrite p s then ([], s)
      else case pipe_get p s of (c, s) \<Rightarrow> (case piperead_copy n p s of (cs, s) \<Rightarrow> (c # cs, s)))"

definition piperead_loop :: "nat \<Rightarrow> uint \<Rightarrow> ('x) ptab_scheme \<Rightarrow> (('x) ptab_scheme, int \<times> byte list) outcome" where
  "piperead_loop n p s =
     (if nread p s = nwrite p s \<and> writeopen p s \<noteq> 0
      then
        bnd (myproc s) (\<lambda>q s.
        case q of None \<Rightarrow> Fault 64
        | Some q \<Rightarrow>
          if killed (procs s ! q) then bnd (release (L_pipe p) s) (\<lambda>_ s. Ret (- 1, []) s)
          else bnd (sleep (Ch_nread p) (L_pipe p) s) (\<lambda>_ s. OutOfFuel))
      else
        case piperead_copy n p s of (cs, s) \<Rightarrow>
        bnd (wakeup (Ch_nwrite p) s) (\<lambda>_ s.
        bnd (release (L_pipe p) s) (\<lambda>_ s. Ret (int (length cs), cs) s)))"

definition piperead :: "uint \<Rightarrow> nat \<Rightarrow> ('x) ptab_scheme \<Rightarrow> (('x) ptab_scheme, int \<times> byte list) outcome" where
  "piperead p n s = bnd (acquire (L_pipe p) s) (\<lambda>_ s. piperead_loop n p s)"

definition piperead_resume :: "nat \<Rightarrow> bool \<Rightarrow> nat \<Rightarrow> uint \<Rightarrow> ('x) ptab_scheme \<Rightarrow> (('x) ptab_scheme, int \<times> byte list) outcome" where
  "piperead_resume q ie n p s = bnd (sleep_resume q ie (L_pipe p) s) (\<lambda>_ s. piperead_loop n p s)"

section \<open>The file table\<close>

datatype fdtype = FD_NONE | FD_PIPE | FD_INODE

record kfile =
  ftype :: fdtype
  fref :: int
  readable :: bool
  writable :: bool
  fpipe :: uint
  fip :: "nat option"
  foff :: uint

record filest = consst +
  files :: "kfile list"

definition NFILE :: nat where "NFILE = 100"

definition upd_file :: "nat \<Rightarrow> (kfile \<Rightarrow> kfile) \<Rightarrow> ('x) filest_scheme \<Rightarrow> ('x) filest_scheme" where
  "upd_file f g s = s\<lparr>files := (files s)[f := g (files s ! f)]\<rparr>"

definition fileinit :: "('x) filest_scheme \<Rightarrow> ('x) filest_scheme" where
  "fileinit s = initlock L_ftable ''ftable'' s"

definition filealloc :: "('x) filest_scheme \<Rightarrow> (('x) filest_scheme, nat option) outcome" where
  "filealloc s =
     bnd (acquire L_ftable s) (\<lambda>_ s.
     case List.find (\<lambda>f. fref (files s ! f) = 0) [0..<NFILE] of
       Some f \<Rightarrow>
         let s = upd_file f (\<lambda>k. k\<lparr>fref := 1\<rparr>) s in
         bnd (release L_ftable s) (\<lambda>_ s. Ret (Some f) s)
     | None \<Rightarrow> bnd (release L_ftable s) (\<lambda>_ s. Ret None s))"

definition filedup :: "nat \<Rightarrow> ('x) filest_scheme \<Rightarrow> (('x) filest_scheme, nat) outcome" where
  "filedup f s =
     bnd (acquire L_ftable s) (\<lambda>_ s.
     if fref (files s ! f) < 1 then Panic ''filedup''
     else
       let s = upd_file f (\<lambda>k. k\<lparr>fref := fref k + 1\<rparr>) s in
       bnd (release L_ftable s) (\<lambda>_ s. Ret f s))"

text \<open>A file of type \<open>FD_INODE\<close> has an inode; 8 is the offset of \<open>ref\<close> in an inode.\<close>

definition with_ip ::
  "nat option \<Rightarrow> (nat \<Rightarrow> ('x) filest_scheme \<Rightarrow> (('x) filest_scheme, 'a) outcome) \<Rightarrow> ('x) filest_scheme \<Rightarrow> (('x) filest_scheme, 'a) outcome" where
  "with_ip p g s = (case p of None \<Rightarrow> Fault 8 | Some ip \<Rightarrow> g ip s)"

definition fileclose :: "nat \<Rightarrow> ('x) filest_scheme \<Rightarrow> (('x) filest_scheme, unit) outcome" where
  "fileclose f s =
     bnd (acquire L_ftable s) (\<lambda>_ s.
     if fref (files s ! f) < 1 then Panic ''fileclose''
     else
       let s = upd_file f (\<lambda>k. k\<lparr>fref := fref k - 1\<rparr>) s in
       if fref (files s ! f) > 0 then release L_ftable s
       else
         let ff = files s ! f;
             s = upd_file f (\<lambda>k. k\<lparr>fref := 0\<rparr>) s;
             s = upd_file f (\<lambda>k. k\<lparr>ftype := FD_NONE\<rparr>) s in
         bnd (release L_ftable s) (\<lambda>_ s.
         if ftype ff = FD_PIPE then pipeclose (fpipe ff) (writable ff) s
         else if ftype ff = FD_INODE
         then
           bnd (begin_op s) (\<lambda>_ s.
           bnd (with_ip (fip ff) iput s) (\<lambda>_ s.
           end_op s))
         else Ret () s))"

definition filestat :: "nat \<Rightarrow> ('x) filest_scheme \<Rightarrow> (('x) filest_scheme, int \<times> stat option) outcome" where
  "filestat f s =
     (if ftype (files s ! f) = FD_INODE
      then with_ip (fip (files s ! f)) (\<lambda>ip s.
        bnd (ilock ip s) (\<lambda>_ s.
        let st = stati ip s in
        bnd (iunlock ip s) (\<lambda>_ s. Ret (0, Some st) s))) s
      else Ret (- 1, None) s)"

definition fileread :: "nat \<Rightarrow> nat \<Rightarrow> ('x) filest_scheme \<Rightarrow> (('x) filest_scheme, int \<times> byte list) outcome" where
  "fileread f n s =
     (if \<not> readable (files s ! f) then Ret (- 1, []) s
      else if ftype (files s ! f) = FD_PIPE then piperead (fpipe (files s ! f)) n s
      else if ftype (files s ! f) = FD_INODE
      then with_ip (fip (files s ! f)) (\<lambda>ip s.
        bnd (ilock ip s) (\<lambda>_ s.
        bnd (readi ip (foff (files s ! f)) (of_nat n) s) (\<lambda>(r, bs) s.
        let s = (if r > 0 then upd_file f (\<lambda>k. k\<lparr>foff := foff k + of_int r\<rparr>) s else s) in
        bnd (iunlock ip s) (\<lambda>_ s. Ret (r, bs) s)))) s
      else Panic ''fileread'')"

definition max_op_bytes :: nat where
  "max_op_bytes = nat ((MAXOPBLOCKS - 1 - 1 - 2) div 2) * 512"

function filewrite_loop :: "byte list \<Rightarrow> nat \<Rightarrow> ('x) filest_scheme \<Rightarrow> (('x) filest_scheme, bool) outcome" where
  "filewrite_loop src f s =
     (if src = [] then Ret True s
      else
        let n1 = (if length src > max_op_bytes then max_op_bytes else length src) in
        bnd (begin_op s) (\<lambda>_ s.
        bnd (with_ip (fip (files s ! f)) (\<lambda>ip s.
          bnd (ilock ip s) (\<lambda>_ s.
          bnd (writei ip (take n1 src) (foff (files s ! f)) s) (\<lambda>r s.
          let s = (if r > 0 then upd_file f (\<lambda>k. k\<lparr>foff := foff k + of_int r\<rparr>) s else s) in
          bnd (iunlock ip s) (\<lambda>_ s. Ret r s)))) s) (\<lambda>r s.
        bnd (end_op s) (\<lambda>_ s.
        if r < 0 then Ret False s
        else if r \<noteq> int n1 then Panic ''short filewrite''
        else filewrite_loop (drop n1 src) f s))))"
  by pat_completeness auto
termination
  by (relation "measure (\<lambda>(src, f, s). length src)") (auto simp: max_op_bytes_def MAXOPBLOCKS_def)

declare filewrite_loop.simps [simp del]

definition filewrite :: "nat \<Rightarrow> byte list \<Rightarrow> ('x) filest_scheme \<Rightarrow> (('x) filest_scheme, int) outcome" where
  "filewrite f addr s =
     (if \<not> writable (files s ! f) then Ret (- 1) s
      else if ftype (files s ! f) = FD_PIPE then pipewrite (fpipe (files s ! f)) addr s
      else if ftype (files s ! f) = FD_INODE
      then bnd (filewrite_loop addr f s) (\<lambda>ok s. Ret (if ok then int (length addr) else - 1) s)
      else Panic ''filewrite'')"

section \<open>Allocating a pipe\<close>

definition close_opt :: "nat option \<Rightarrow> ('x) filest_scheme \<Rightarrow> (('x) filest_scheme, unit) outcome" where
  "close_opt f s = (case f of None \<Rightarrow> Ret () s | Some f \<Rightarrow> fileclose f s)"

text \<open>
  The result is \<open>*f0\<close> and \<open>*f1\<close>, or \<open>None\<close> for -1.  When
  \<open>bad\<close> is reached, \<open>p\<close> is 0.
\<close>

definition pipealloc :: "('x) filest_scheme \<Rightarrow> (('x) filest_scheme, (nat \<times> nat) option) outcome" where
  "pipealloc s =
     bnd (filealloc s) (\<lambda>f0 s.
     bnd (case f0 of None \<Rightarrow> Ret None s | Some _ \<Rightarrow> filealloc s) (\<lambda>f1 s.
     bnd (case f1 of None \<Rightarrow> Ret 0 s | Some _ \<Rightarrow> kalloc s) (\<lambda>p s.
     if p = 0
     then
       bnd (close_opt f0 s) (\<lambda>_ s.
       bnd (close_opt f1 s) (\<lambda>_ s. Ret None s))
     else
       let s = pipe_init p s;
           s = upd_file (the f0) (\<lambda>k. k\<lparr>ftype := FD_PIPE, readable := True, writable := False, fpipe := p\<rparr>) s;
           s = upd_file (the f1) (\<lambda>k. k\<lparr>ftype := FD_PIPE, readable := False, writable := True, fpipe := p\<rparr>) s in
       Ret (Some (the f0, the f1)) s)))"

end
