(* ===== verification/Fifo.thy ===== *)
theory Fifo
  imports File Bcache Frames
begin

text \<open>
  Pipes as first-in first-out queues.  The counters of a pipe are 32-bit words that
  only grow and wrap around; the queue is the bytes between them.
\<close>

section \<open>Bounded queues\<close>

text \<open>What a bounded queue promises: bytes come out in the order they went in.\<close>

locale bounded_queue =
  fixes q :: "'s \<Rightarrow> 'a list" and ok :: "'s \<Rightarrow> bool" and cap :: nat
    and put :: "'a \<Rightarrow> 's \<Rightarrow> 's" and get :: "'s \<Rightarrow> 'a \<times> 's"
  assumes cap_law: "ok s \<Longrightarrow> length (q s) \<le> cap"
    and put_law: "ok s \<Longrightarrow> length (q s) < cap \<Longrightarrow> ok (put c s) \<and> q (put c s) = q s @ [c]"
    and get_law: "ok s \<Longrightarrow> q s \<noteq> [] \<Longrightarrow> fst (get s) = hd (q s) \<and> ok (snd (get s)) \<and> q (snd (get s)) = tl (q s)"
begin

lemma put_all:
  assumes "ok s" "length (q s) + length cs \<le> cap"
  shows "ok (fold put cs s) \<and> q (fold put cs s) = q s @ cs"
  using assms
proof (induction cs arbitrary: s)
  case (Cons c cs)
  note p = put_law[OF Cons.prems(1), of c]
  show ?case using Cons.IH[of "put c s"] Cons.prems(2) p by simp
qed simp

end

section \<open>The fields of a pipe\<close>

lemma off_neq:
  fixes p :: uint
  assumes "a \<noteq> b" "a < 2 ^ 32" "b < 2 ^ 32"
  shows "p + of_nat a \<noteq> p + of_nat b"
proof
  assume "p + of_nat a = p + of_nat b"
  then have "(of_nat a :: uint) = of_nat b" by simp
  then have "unat (of_nat a :: uint) = unat (of_nat b :: uint)" by simp
  then show False using assms by (simp add: unat_of_nat)
qed

lemma store32_off:
  fixes p :: uint
  assumes "b < a \<or> a + 3 < b" "a < 2 ^ 31" "b < 2 ^ 31"
  shows "store32 (p + of_nat a) v m (p + of_nat b) = m (p + of_nat b)"
proof -
  have "p + of_nat b \<noteq> p + of_nat (a + k)" if "k \<le> 3" for k using assms that by (intro off_neq) auto
  from this[of 0] this[of 1] this[of 2] this[of 3] show ?thesis by (simp add: store32_apply ac_simps)
qed

lemma load32_off:
  fixes p :: uint
  assumes "b + 3 < a \<or> a + 3 < b" "a < 2 ^ 31" "b < 2 ^ 30"
  shows "load32 (p + of_nat b) (store32 (p + of_nat a) v m) = load32 (p + of_nat b) m"
proof -
  have "store32 (p + of_nat a) v m (p + of_nat (b + k)) = m (p + of_nat (b + k))" if "k \<le> 3" for k
    using assms that by (intro store32_off) auto
  from this[of 0] this[of 1] this[of 2] this[of 3] show ?thesis by (simp add: load32_def ac_simps)
qed

lemma load32_upd_off:
  fixes p :: uint
  assumes "b + 3 < a \<or> a < b" "a < 2 ^ 31" "b < 2 ^ 30"
  shows "load32 (p + of_nat b) (m(p + of_nat a := c)) = load32 (p + of_nat b) m"
proof -
  have "p + of_nat a \<noteq> p + of_nat (b + k)" if "k \<le> 3" for k using assms that by (intro off_neq) auto
  from this[of 0] this[of 1] this[of 2] this[of 3] show ?thesis by (simp add: load32_def ac_simps)
qed

lemma p_data_off: "p_data p i = p + of_nat (52 + unat i mod PIPESIZE)"
proof -
  have "i mod 512 = of_nat (unat i mod 512)" 
  proof -
    have "unat i mod 512 < 2 ^ 32" by (rule less_trans[OF mod_less_divisor]) simp_all
    then show ?thesis by (simp add: word_unat_eq_iff unat_mod unat_of_nat)
  qed
  then show ?thesis by (simp add: p_data_def PIPESIZE_def add.assoc)
qed

lemma mod_wrap: "unat ((x :: uint) + of_nat k) mod PIPESIZE = (unat x + k) mod PIPESIZE"
proof -
  have "unat (x + of_nat k) = (unat x + k) mod 2 ^ 32" by (simp add: unat_word_ariths unat_of_nat mod_add_right_eq)
  then show ?thesis by (simp add: PIPESIZE_def mod_mod_cancel)
qed

section \<open>The queue in a pipe\<close>

definition pending :: "uint \<Rightarrow> ('x) kmem_scheme \<Rightarrow> byte list" where
  "pending p s = map (\<lambda>k. mem s (p_data p (nread p s + of_nat k))) [0..<unat (nwrite p s - nread p s)]"

definition pipe_ok :: "uint \<Rightarrow> ('x) kmem_scheme \<Rightarrow> bool" where
  "pipe_ok p s \<longleftrightarrow> unat (nwrite p s - nread p s) \<le> PIPESIZE"

lemma length_pending: "length (pending p s) = unat (nwrite p s - nread p s)"
  by (simp add: pending_def)

lemma pipe_full: "pipe_ok p s \<Longrightarrow> nwrite p s = nread p s + of_nat PIPESIZE \<longleftrightarrow> length (pending p s) = PIPESIZE"
proof -
  have "nwrite p s = nread p s + of_nat PIPESIZE \<longleftrightarrow> nwrite p s - nread p s = of_nat PIPESIZE" by (auto simp: algebra_simps)
  also have "\<dots> \<longleftrightarrow> unat (nwrite p s - nread p s) = unat (of_nat PIPESIZE :: uint)" by (simp add: word_unat_eq_iff)
  finally show ?thesis by (simp add: length_pending PIPESIZE_def)
qed

lemma pipe_empty: "nread p s = nwrite p s \<longleftrightarrow> pending p s = []"
proof -
  have "nread p s = nwrite p s \<longleftrightarrow> nwrite p s - nread p s = 0" by auto
  also have "\<dots> \<longleftrightarrow> unat (nwrite p s - nread p s) = 0" by (simp add: unat_eq_0)
  finally show ?thesis by (simp flip: length_pending)
qed

lemma pipe_fields_put:
  "nwrite p (pipe_put p c s) = nwrite p s + 1" "nread p (pipe_put p c s) = nread p s"
  "readopen p (pipe_put p c s) = readopen p s" "writeopen p (pipe_put p c s) = writeopen p s"
  "mem (pipe_put p c s) (p_data p i) = (if unat i mod PIPESIZE = unat (nwrite p s) mod PIPESIZE then c else mem s (p_data p i))"
proof -
  have b: "unat i mod PIPESIZE < 512" for i :: uint by (simp add: PIPESIZE_def)
  define j where "j = 52 + unat (nwrite p s) mod PIPESIZE"
  have j: "j < 564" using b[of "nwrite p s"] by (simp add: j_def)
  have m: "mem (pipe_put p c s) = (store32 (p + of_nat 568) (nwrite p s + 1) (mem s))(p + of_nat j := c)"
    by (simp add: pipe_put_def wr32_def p_data_off j_def Let_def)
  have ld: "load32 (p + of_nat a) (mem (pipe_put p c s)) = load32 (p + of_nat a) (store32 (p + of_nat 568) (nwrite p s + 1) (mem s))"
    if "564 \<le> a" "a < 600" for a
    unfolding m using that j by (intro load32_upd_off) auto
  show "nwrite p (pipe_put p c s) = nwrite p s + 1"
    using ld[of 568] by (simp add: nwrite_def rd32_def)
  show "nread p (pipe_put p c s) = nread p s" "readopen p (pipe_put p c s) = readopen p s" "writeopen p (pipe_put p c s) = writeopen p s"
    using ld[of 564] ld[of 572] ld[of 576] load32_off[of 564 568 p] load32_off[of 572 568 p] load32_off[of 576 568 p]
    by (simp_all add: nread_def readopen_def writeopen_def rd32_def)
  show "mem (pipe_put p c s) (p_data p i) = (if unat i mod PIPESIZE = unat (nwrite p s) mod PIPESIZE then c else mem s (p_data p i))"
  proof (cases "unat i mod PIPESIZE = unat (nwrite p s) mod PIPESIZE")
    case True
    then show ?thesis by (simp add: m p_data_off j_def)
  next
    case False
    then have "p + of_nat (52 + unat i mod PIPESIZE) \<noteq> p + of_nat j"
      using b[of i] j by (intro off_neq) (auto simp: j_def)
    moreover have "store32 (p + of_nat 568) (nwrite p s + 1) (mem s) (p + of_nat (52 + unat i mod PIPESIZE)) = mem s (p + of_nat (52 + unat i mod PIPESIZE))"
      using b[of i] by (intro store32_off) auto
    ultimately show ?thesis using False by (simp add: m p_data_off del: of_nat_add)
  qed
qed

lemma pipe_fields_get:
  "nread p (snd (pipe_get p s)) = nread p s + 1" "nwrite p (snd (pipe_get p s)) = nwrite p s"
  "mem (snd (pipe_get p s)) (p_data p i) = mem s (p_data p i)" "fst (pipe_get p s) = mem s (p_data p (nread p s))"
proof -
  have m: "mem (snd (pipe_get p s)) = store32 (p + of_nat 564) (nread p s + 1) (mem s)"
    by (simp add: pipe_get_def wr32_def Let_def)
  show "nread p (snd (pipe_get p s)) = nread p s + 1" using m by (simp add: nread_def rd32_def)
  show "nwrite p (snd (pipe_get p s)) = nwrite p s"
    using m load32_off[of 568 564 p] by (simp add: nwrite_def rd32_def)
  have "52 + unat i mod PIPESIZE < 564" by (simp add: PIPESIZE_def)
  then show "mem (snd (pipe_get p s)) (p_data p i) = mem s (p_data p i)"
    unfolding m p_data_off by (intro store32_off) auto
  show "fst (pipe_get p s) = mem s (p_data p (nread p s))" by (simp add: pipe_get_def Let_def)
qed

lemma unat_suc: "unat (x :: uint) < 2 ^ 32 - 1 \<Longrightarrow> unat (x + 1) = Suc (unat x)"
  by (simp add: unat_word_ariths)

lemma pending_put:
  assumes "pipe_ok p s" "length (pending p s) < PIPESIZE"
  shows "pipe_ok p (pipe_put p c s)" "pending p (pipe_put p c s) = pending p s @ [c]"
proof -
  define L where "L = unat (nwrite p s - nread p s)"
  have L: "L < 512" using assms(2) by (simp add: length_pending L_def PIPESIZE_def)
  have d: "unat (nwrite p s + 1 - nread p s) = Suc L"
    using unat_suc[of "nwrite p s - nread p s"] L by (simp add: L_def algebra_simps)
  show "pipe_ok p (pipe_put p c s)" using d L by (simp add: pipe_ok_def pipe_fields_put PIPESIZE_def)
  have nw: "nwrite p s = nread p s + of_nat L" by (simp add: L_def)
  have x: "mem (pipe_put p c s) (p_data p (nread p s + of_nat k)) = (if k = L then c else mem s (p_data p (nread p s + of_nat k)))"
    if "k \<le> L" for k
  proof -
    have "(unat (nread p s) + k) mod PIPESIZE = (unat (nread p s) + L) mod PIPESIZE \<longleftrightarrow> k = L"
    proof
      assume e: "(unat (nread p s) + k) mod PIPESIZE = (unat (nread p s) + L) mod PIPESIZE"
      then have "PIPESIZE dvd (unat (nread p s) + L) - (unat (nread p s) + k)" by (intro mod_eq_dvd_iff_nat[THEN iffD1]) (use that in auto)
      then show "k = L" using L that by (auto simp: PIPESIZE_def dest: dvd_imp_le)
    qed simp
    then show ?thesis by (simp add: pipe_fields_put(5) mod_wrap nw)
  qed
  show "pending p (pipe_put p c s) = pending p s @ [c]"
    unfolding pending_def pipe_fields_put(1,2) d using x by (simp add: L_def[symmetric])
qed

lemma pending_get:
  assumes "pipe_ok p s" "pending p s \<noteq> []"
  shows "fst (pipe_get p s) = hd (pending p s)" "pipe_ok p (snd (pipe_get p s))" "pending p (snd (pipe_get p s)) = tl (pending p s)"
proof -
  obtain L where L: "unat (nwrite p s - nread p s) = Suc L" using assms(2) by (cases "unat (nwrite p s - nread p s)") (auto simp: pending_def)
  have "unat (nwrite p s - (nread p s + 1)) = unat ((nwrite p s - nread p s) - 1)" by (simp add: algebra_simps)
  also have "\<dots> = L" using L by (simp add: unat_sub_if_size word_size)
  finally have d: "unat (nwrite p s - (nread p s + 1)) = L" .
  have pe: "pending p s = map (\<lambda>k. mem s (p_data p (nread p s + of_nat k))) (0 # [1..<Suc L])"
    unfolding pending_def L by (subst upt_conv_Cons) simp_all
  show "fst (pipe_get p s) = hd (pending p s)" by (simp add: pe pipe_fields_get)
  show "pipe_ok p (snd (pipe_get p s))" using assms(1) d L by (simp add: pipe_ok_def pipe_fields_get)
  have u: "[1..<Suc L] = map Suc [0..<L]" by (simp add: map_Suc_upt)
  have "pending p (snd (pipe_get p s)) = map (\<lambda>k. mem s (p_data p (nread p s + 1 + of_nat k))) [0..<L]"
    unfolding pending_def pipe_fields_get d by simp
  also have "\<dots> = tl (pending p s)" unfolding pe list.map list.sel u map_map by (simp add: o_def ac_simps)
  finally show "pending p (snd (pipe_get p s)) = tl (pending p s)" .
qed

interpretation pq: bounded_queue "pending p" "pipe_ok p" PIPESIZE "pipe_put p" "pipe_get p"
  by unfold_locales (simp_all add: pipe_ok_def length_pending[symmetric] pending_put pending_get)

section \<open>Writing and reading\<close>

text \<open>Nothing but \<open>pipe_put\<close> and \<open>pipe_get\<close> touches memory.\<close>

lemma same_mem: "same s t \<Longrightarrow> mem t = mem s"
  by (simp add: same_def)

lemmas mem_lock = same_lock(1)[THEN same_mem] same_lock(2)[THEN same_mem]
lemmas mem_myproc = same_myproc[THEN same_mem]
lemmas mem_wakeup = same_wakeup[THEN same_mem]
lemmas mem_sleep = same_sleep[THEN same_mem]
lemmas mem_resume = same_resume[THEN same_mem]

lemma pending_mem: "mem t = mem s \<Longrightarrow> pending p t = pending p s \<and> pipe_ok p t = pipe_ok p s \<and> nwrite p t = nwrite p s \<and> nread p t = nread p s"
  by (simp add: pending_def pipe_ok_def nread_def nwrite_def rd32_def)

text \<open>
  \<open>pipewrite\<close> puts bytes into the queue until it is full, and then either sleeps or
  gives up; all bytes are in the queue when it returns their number.
\<close>

lemma pipewrite_loop_puts:
  assumes "pipe_ok p s" "pipewrite_loop cs n p s = Ret r t \<or> pipewrite_loop cs n p s = Switch t"
  shows "\<exists>k\<le>length cs. pipe_ok p t \<and> pending p t = pending p s @ take k cs \<and> nwrite p t = nwrite p s + of_nat k \<and>
    (pipewrite_loop cs n p s = Ret r t \<longrightarrow> (k = length cs \<and> r = n) \<or> r = - 1)"
  using assms
proof (induction cs arbitrary: s)
  case Nil
  then have "mem t = mem s" by (auto simp: not_Switch dest!: mem_wakeup mem_lock)
  moreover have "pipewrite_loop [] n p s = Ret r t \<Longrightarrow> r = n" by auto
  ultimately show ?case using Nil.prems(1) pending_mem[of t s p] by auto
next
  case (Cons c cs)
  show ?case
  proof (cases "nwrite p s = nread p s + of_nat PIPESIZE")
    case True
    have "mem t = mem s \<and> (pipewrite_loop (c # cs) n p s = Ret r t \<longrightarrow> r = - 1)"
      using Cons.prems(2) True
      by (auto simp: not_Switch split: if_splits option.splits dest!: mem_wakeup mem_lock mem_myproc mem_sleep[of _ _ _ "()" t, OF disjI2])
    then show ?thesis using Cons.prems(1) pending_mem[of t s p] by (intro exI[of _ 0]) auto
  next
    case False
    have l: "length (pending p s) < PIPESIZE"
      using pipe_full[OF Cons.prems(1)] False pq.cap_law[OF Cons.prems(1)] by simp
    note u = pending_put[OF Cons.prems(1) l, of c]
    have e: "pipewrite_loop (c # cs) n p s = pipewrite_loop cs n p (pipe_put p c s)" using False by simp
    obtain k where k: "k \<le> length cs" "pipe_ok p t" "pending p t = pending p (pipe_put p c s) @ take k cs"
      "nwrite p t = nwrite p (pipe_put p c s) + of_nat k"
      "pipewrite_loop cs n p (pipe_put p c s) = Ret r t \<longrightarrow> (k = length cs \<and> r = n) \<or> r = - 1"
      using Cons.IH[OF u(1)] Cons.prems(2) unfolding e by blast
    then show ?thesis unfolding e using u(2) by (intro exI[of _ "Suc k"]) (simp add: pipe_fields_put)
  qed
qed

lemma piperead_copy_gets:
  assumes "pipe_ok p s" "piperead_copy n p s = (cs, t)"
  shows "pipe_ok p t \<and> pending p s = cs @ pending p t \<and> length cs = min n (length (pending p s))"
  using assms
proof (induction n arbitrary: s cs)
  case (Suc n)
  show ?case
  proof (cases "pending p s = []")
    case True
    then show ?thesis using Suc.prems pipe_empty[of p s] by auto
  next
    case False
    note g = pending_get[OF Suc.prems(1) False]
    obtain c u where cu: "pipe_get p s = (c, u)" by (cases "pipe_get p s")
    obtain ds v where v: "piperead_copy n p u = (ds, v)" by (cases "piperead_copy n p u")
    have e: "cs = c # ds" "t = v" using Suc.prems(2) False cu v by (simp_all add: pipe_empty)
    have "pipe_ok p v \<and> pending p u = ds @ pending p v \<and> length ds = min n (length (pending p u))"
      using Suc.IH[of u ds] g cu v e(2) by simp
    then show ?thesis using e g cu False by (cases "pending p s") auto
  qed
qed simp

lemma piperead_loop_gets:
  assumes "pipe_ok p s" "piperead_loop n p s = Ret (r, cs) t"
  shows "pipe_ok p t \<and> pending p s = cs @ pending p t \<and> (r = - 1 \<and> cs = [] \<or> r = int (min n (length (pending p s))) \<and> length cs = nat r)"
proof (cases "nread p s = nwrite p s \<and> writeopen p s \<noteq> 0")
  case True
  then have "mem t = mem s \<and> r = - 1 \<and> cs = []"
    using assms(2) by (auto simp: piperead_loop_def split: option.splits if_splits dest!: mem_myproc mem_lock)
  then show ?thesis using assms(1) pending_mem[of t s p] by simp
next
  case False
  obtain ds u where u: "piperead_copy n p s = (ds, u)" by (cases "piperead_copy n p s")
  have "bnd (wakeup (Ch_nwrite p) u) (\<lambda>_ s. bnd (release (L_pipe p) s) (\<lambda>_ s. Ret (int (length ds), ds) s)) = Ret (r, cs) t"
    using assms(2) unfolding piperead_loop_def if_not_P[OF False] u prod.case .
  then obtain v where v: "wakeup (Ch_nwrite p) u = Ret () v" "release (L_pipe p) v = Ret () t" "r = int (length ds)" "cs = ds" by auto
  have m: "mem t = mem u" using mem_lock(2)[OF v(2)] mem_wakeup[OF v(1)] by (rule trans)
  note c = piperead_copy_gets[OF assms(1) u]
  have "pipe_ok p t" "pending p s = cs @ pending p t" using c pending_mem[OF m, of p] v(4) by auto
  moreover have "r = int (min n (length (pending p s)))" "length cs = nat r" unfolding v(3,4) nat_int using c by (simp_all only:)
  ultimately show ?thesis by blast
qed

section \<open>Properties\<close>

text \<open>
  A history of a pipe: \<open>w\<close> are the bytes that writers have put into it and
  \<open>r\<close> the bytes that \<open>piperead\<close> has returned, in order.  A writer that
  has to wait has put in as many bytes as \<open>nwrite\<close> has grown; it goes on with the
  others in \<open>pipewrite_resume\<close>.  Anything else may happen in between that leaves
  the page of the pipe alone.
\<close>

inductive pipe_hist :: "uint \<Rightarrow> ('x) ptab_scheme \<Rightarrow> ('x) ptab_scheme \<Rightarrow> byte list \<Rightarrow> byte list \<Rightarrow> bool" for p s0 where
  hist_start: "pipe_hist p s0 s0 [] []"
| hist_write: "\<lbrakk>pipe_hist p s0 s w r; pipewrite p addr s = Ret n t \<or> pipewrite p addr s = Switch t\<rbrakk>
    \<Longrightarrow> pipe_hist p s0 t (w @ take (unat (nwrite p t - nwrite p s)) addr) r"
| hist_resume: "\<lbrakk>pipe_hist p s0 s w r; pipewrite_resume q ie cs n p s = Ret m t \<or> pipewrite_resume q ie cs n p s = Switch t\<rbrakk>
    \<Longrightarrow> pipe_hist p s0 t (w @ take (unat (nwrite p t - nwrite p s)) cs) r"
| hist_read: "\<lbrakk>pipe_hist p s0 s w r; piperead p n s = Ret (m, cs) t\<rbrakk> \<Longrightarrow> pipe_hist p s0 t w (r @ cs)"
| hist_reread: "\<lbrakk>pipe_hist p s0 s w r; piperead_resume q ie n p s = Ret (m, cs) t\<rbrakk> \<Longrightarrow> pipe_hist p s0 t w (r @ cs)"
| hist_other: "\<lbrakk>pipe_hist p s0 s w r; \<And>a. a < 580 \<Longrightarrow> mem t (p + of_nat a) = mem s (p + of_nat a)\<rbrakk> \<Longrightarrow> pipe_hist p s0 t w r"

lemma pending_page:
  assumes "\<And>a. a < 580 \<Longrightarrow> mem t (p + of_nat a) = mem s (p + of_nat a)"
  shows "pending p t = pending p s \<and> pipe_ok p t = pipe_ok p s"
proof -
  have ld: "load32 (p + of_nat a) (mem t) = load32 (p + of_nat a) (mem s)" if "a + 3 < 580" for a
    using assms[of a] assms[of "a + 1"] assms[of "a + 2"] assms[of "a + 3"] that by (simp add: load32_def ac_simps)
  have c: "nread p t = nread p s" "nwrite p t = nwrite p s"
    using ld[of 564] ld[of 568] by (simp_all add: nread_def nwrite_def rd32_def)
  have "mem t (p_data p i) = mem s (p_data p i)" for i
    unfolding p_data_off by (rule assms) (simp add: PIPESIZE_def less_trans[OF mod_less_divisor])
  then show ?thesis by (simp add: pending_def pipe_ok_def c)
qed

lemma write_step:
  assumes "pipe_ok p s" "mem s1 = mem s" "pipewrite_loop cs n p s1 = Ret m t \<or> pipewrite_loop cs n p s1 = Switch t"
  shows "pipe_ok p t \<and> pending p t = pending p s @ take (unat (nwrite p t - nwrite p s)) cs"
proof -
  note e = pending_mem[OF assms(2), of p]
  obtain k where k: "k \<le> length cs" "pipe_ok p t" "pending p t = pending p s1 @ take k cs" "nwrite p t = nwrite p s1 + of_nat k"
    using pipewrite_loop_puts[OF _ assms(3)] e assms(1) by blast
  have "length (pending p s1 @ take k cs) \<le> 512" using pq.cap_law[OF k(2)] k(3) by (simp add: PIPESIZE_def)
  then have "k < 2 ^ 32" using k(1) by simp
  then have "unat (nwrite p t - nwrite p s) = k" using k(4) e by (simp add: unat_of_nat)
  then show ?thesis using k e by simp
qed

lemma read_step:
  assumes "pipe_ok p s" "mem s1 = mem s" "piperead_loop n p s1 = Ret (m, cs) t"
  shows "pipe_ok p t \<and> pending p s = cs @ pending p t"
  using piperead_loop_gets[OF _ assms(3)] pending_mem[OF assms(2), of p] assms(1) by simp

text \<open>
  C7.  A pipe is a queue.  However reads and writes interleave, with waiting in
  between and with the counters wrapping around, the bytes written so far are the
  bytes read so far followed by those in the buffer, of which there are at most
  \<open>PIPESIZE\<close>: no byte is lost, duplicated or reordered.
\<close>

theorem pipe_fifo:
  assumes "pipe_hist p s0 s w r" "pipe_ok p s0" "pending p s0 = []"
  shows "w = r @ pending p s \<and> length (pending p s) \<le> PIPESIZE"
proof -
  have "pipe_ok p s \<and> w = r @ pending p s"
    using assms(1)
  proof induction
    case hist_start
    show ?case using assms(2,3) by simp
  next
    case (hist_write s w r addr n t)
    from hist_write.hyps(2) obtain s1 where 1: "acquire (L_pipe p) s = Ret () s1"
      "pipewrite_loop addr (int (length addr)) p s1 = Ret n t \<or> pipewrite_loop addr (int (length addr)) p s1 = Switch t"
      by (auto simp: pipewrite_def not_Switch)
    show ?case using write_step[OF _ mem_lock(1)[OF 1(1)] 1(2)] hist_write.IH by simp
  next
    case (hist_resume s w r q ie cs n m t)
    from hist_resume.hyps(2) obtain s1 where 1: "sleep_resume q ie (L_pipe p) s = Ret () s1"
      "pipewrite_loop cs n p s1 = Ret m t \<or> pipewrite_loop cs n p s1 = Switch t"
      by (auto simp: pipewrite_resume_def sleep_resume_Switch)
    show ?case using write_step[OF _ mem_resume[OF 1(1)] 1(2)] hist_resume.IH by simp
  next
    case (hist_read s w r n m cs t)
    then obtain s1 where 1: "acquire (L_pipe p) s = Ret () s1" "piperead_loop n p s1 = Ret (m, cs) t"
      by (auto simp: piperead_def)
    show ?case using read_step[OF _ mem_lock(1)[OF 1(1)] 1(2)] hist_read.IH by simp
  next
    case (hist_reread s w r q ie n m cs t)
    then obtain s1 where 1: "sleep_resume q ie (L_pipe p) s = Ret () s1" "piperead_loop n p s1 = Ret (m, cs) t"
      by (auto simp: piperead_resume_def)
    show ?case using read_step[OF _ mem_resume[OF 1(1)] 1(2)] hist_reread.IH by simp
  next
    case (hist_other s w r t)
    then show ?case using pending_page[of t p s] by simp
  qed
  then show ?thesis using pq.cap_law[of p s] by simp
qed

section \<open>Pipes nobody else uses\<close>

lemma mach_upd_mem:
  "cli_ok (s\<lparr>mem := m\<rparr>) = cli_ok s" "lk_free l (s\<lparr>mem := m\<rparr>) = lk_free l s" "calm (t\<lparr>mem := m\<rparr>) = calm t"
  by (simp_all add: cli_ok_def this_cpu_def readeflags_IF_def lk_free_def calm_def cur_def)

lemma put_upd: "pipe_put p c (s\<lparr>mem := m\<rparr>) = s\<lparr>mem := mem (pipe_put p c (s\<lparr>mem := m\<rparr>))\<rparr>"
  by (simp add: pipe_put_def wr32_def Let_def)

lemma pipewrite_loop_fits:
  assumes "pipe_ok p (s\<lparr>mem := m\<rparr>)" "length (pending p (s\<lparr>mem := m\<rparr>)) + length cs \<le> PIPESIZE"
  shows "\<exists>m'. pipewrite_loop cs n p (s\<lparr>mem := m\<rparr>) = pipewrite_loop [] n p (s\<lparr>mem := m'\<rparr>)"
  using assms
proof (induction cs arbitrary: m)
  case (Cons c cs)
  let ?s = "s\<lparr>mem := m\<rparr>"
  have l: "length (pending p ?s) < PIPESIZE" using Cons.prems(2) by simp
  note u = pending_put[OF Cons.prems(1) l, of c]
  have "pipewrite_loop (c # cs) n p ?s = pipewrite_loop cs n p (pipe_put p c ?s)"
    using pipe_full[OF Cons.prems(1)] l by simp
  then show ?case using Cons.IH[of "mem (pipe_put p c ?s)"] u Cons.prems(2) unfolding put_upd[symmetric] by simp
qed blast

lemma pipe_end:
  assumes "calm s" and that: "l \<noteq> L_ptable"
  shows "bnd (wakeup ch ((acq l s)\<lparr>mem := m\<rparr>)) (\<lambda>_ s. bnd (release l s) (\<lambda>_ s. Ret x s)) = Ret x (s\<lparr>procs := map (wk ch) (procs s), mem := m\<rparr>)"
proof -
  note c = calmD[OF assms(1)]
  have "wakeup ch ((acq l s)\<lparr>mem := m\<rparr>) = Ret () ((acq l s)\<lparr>mem := m, procs := map (wk ch) (procs s)\<rparr>)"
    using c that by (subst wakeup_eq) (simp_all add: mach_upd_mem, simp add: acq_def)
  moreover have "release l ((acq l s)\<lparr>mem := m, procs := map (wk ch) (procs s)\<rparr>) = Ret () (s\<lparr>procs := map (wk ch) (procs s), mem := m\<rparr>)"
    by (subst release_acq[OF c]) (simp_all add: acq_def)
  ultimately show ?thesis by simp
qed

lemma pipewrite_fits:
  assumes "calm s" "pipe_ok p s" "length (pending p s) + length cs \<le> PIPESIZE"
  shows "\<exists>t. pipewrite p cs s = Ret (int (length cs)) t \<and> calm t"
proof -
  note c = calmD[OF assms(1)]
  let ?a = "acq (L_pipe p) s"
  have m: "mem ?a = mem s" by (simp add: acq_def)
  have "?a\<lparr>mem := mem s\<rparr> = ?a" by (simp flip: m)
  then obtain m' where "pipewrite_loop cs (int (length cs)) p ?a = pipewrite_loop [] (int (length cs)) p (?a\<lparr>mem := m'\<rparr>)"
    using pipewrite_loop_fits[of p "mem s" ?a cs "int (length cs)"] pending_mem[OF m, of p] assms(2,3) by auto
  then have "pipewrite p cs s = Ret (int (length cs)) (s\<lparr>procs := map (wk (Ch_nread p)) (procs s), mem := m'\<rparr>)"
    using pipe_end[OF assms(1), of "L_pipe p"] by (simp add: pipewrite_def acquire_acq[OF c])
  then show ?thesis using assms(1) by (simp add: mach_upd_mem)
qed

lemma copy_upd: "\<exists>m'. snd (piperead_copy n p (s\<lparr>mem := m\<rparr>)) = s\<lparr>mem := m'\<rparr>"
proof (induction n arbitrary: m)
  case 0
  then show ?case by auto
next
  case (Suc n)
  have "pipe_get p (s\<lparr>mem := m\<rparr>) = (mem (s\<lparr>mem := m\<rparr>) (p_data p (nread p (s\<lparr>mem := m\<rparr>))), s\<lparr>mem := store32 (p + 564) (nread p (s\<lparr>mem := m\<rparr>) + 1) m\<rparr>)"
    by (simp add: pipe_get_def wr32_def Let_def)
  then show ?case using Suc.IH[of "store32 (p + 564) (nread p (s\<lparr>mem := m\<rparr>) + 1) m"] by (auto split: prod.splits)
qed

lemma piperead_ready:
  assumes "calm s" "pipe_ok p s" "pending p s \<noteq> []"
  shows "\<exists>t. piperead p n s = Ret (int (min n (length (pending p s))), take n (pending p s)) t \<and> calm t"
proof -
  note c = calmD[OF assms(1)]
  let ?a = "acq (L_pipe p) s"
  have m: "mem ?a = mem s" by (simp add: acq_def)
  have ea: "?a\<lparr>mem := mem s\<rparr> = ?a" by (simp flip: m)
  note e = pending_mem[OF m, of p]
  obtain cs u where u: "piperead_copy n p ?a = (cs, u)" by (cases "piperead_copy n p ?a")
  obtain m' where m': "u = ?a\<lparr>mem := m'\<rparr>" using copy_upd[of n p "mem s" ?a] u ea by auto
  have g: "pending p s = cs @ pending p u" "length cs = min n (length (pending p s))"
    using piperead_copy_gets[OF _ u] e assms(2) by (metis (no_types))+
  have cs: "cs = take n (pending p s)" using g by (metis append_eq_conv_conj append_take_drop_id length_take min.commute)
  have ne: "\<not> (nread p ?a = nwrite p ?a \<and> writeopen p ?a \<noteq> 0)" using assms(3) e pipe_empty[of p ?a] by simp
  have "piperead p n s = bnd (wakeup (Ch_nwrite p) u) (\<lambda>_ s. bnd (release (L_pipe p) s) (\<lambda>_ s. Ret (int (length cs), cs) s))"
    unfolding piperead_def acquire_acq[OF c] bnd.simps piperead_loop_def if_not_P[OF ne] u by simp
  also have "\<dots> = Ret (int (length cs), cs) (s\<lparr>procs := map (wk (Ch_nwrite p)) (procs s), mem := m'\<rparr>)"
    unfolding m' by (rule pipe_end[OF assms(1)]) simp
  finally show ?thesis using assms(1) g(2) by (simp add: mach_upd_mem flip: cs)
qed

theorem pipe_fifo_witness:
  "\<exists>s. pipe_hist 0x80100000 (idle_state (\<lambda>_. []) 0 ()) s [104, 105] [104] \<and> pending 0x80100000 s = [105]"
proof -
  let ?p = "0x80100000 :: uint"
  let ?s = "idle_state (\<lambda>_. []) 0 () :: bufst"
  have z: "load32 a (mem ?s) = 0" for a by (simp add: idle_state_def load32_def un32_def)
  have s: "pipe_ok ?p ?s" "pending ?p ?s = []"
    by (simp_all add: pipe_ok_def pending_def nread_def nwrite_def rd32_def z)
  obtain t where t: "pipewrite ?p [104, 105] ?s = Ret 2 t" "calm t"
    using pipewrite_fits[OF idle_calm s(1), of "[104, 105]"] s(2) by (auto simp: PIPESIZE_def)
  have h1: "pipe_hist ?p ?s t ([] @ take (unat (nwrite ?p t - nwrite ?p ?s)) [104, 105]) []"
    by (rule hist_write[OF hist_start]) (use t in blast)
  obtain s1 where 1: "acquire (L_pipe ?p) ?s = Ret () s1" "pipewrite_loop [104, 105] 2 ?p s1 = Ret 2 t"
    using t(1) by (auto simp: pipewrite_def)
  have o1: "pipe_ok ?p s1" using pending_mem[OF mem_lock(1)[OF 1(1)], of ?p] s(1) by simp
  have pt: "pending ?p t = [104, 105]" "unat (nwrite ?p t - nwrite ?p ?s) = 2" "pipe_ok ?p t"
    using pipewrite_loop_puts[OF o1 disjI1[OF 1(2)]] 1(2) pending_mem[OF mem_lock(1)[OF 1(1)], of ?p] s(2) by auto
  obtain u where u: "piperead ?p 1 t = Ret (1, [104]) u"
    using piperead_ready[OF t(2) pt(3), of 1] pt(1) by auto
  have "pipe_hist ?p ?s u [104, 105] ([] @ [104])"
    by (rule hist_read[OF _ u]) (use h1 pt(2) in simp)
  then show ?thesis using pipe_fifo[OF _ s, of u "[104, 105]" "[104]"] by auto
qed

end
