(* ===== verification/User.thy ===== *)
theory User
  imports Console
begin

text \<open>
  User programs: what a process does between its system calls, and the library
  of \<open>user/ulib.c\<close> and \<open>user/printf.c\<close>.

  A program is a tree.  It stops, or makes a system call and goes on with the answer.
  The kernel is on the other side of the calls: a program's behaviour is a function of
  the answers.  \<open>fork\<close> gives the parent and the child two answers to the same
  call; a successful \<open>exec\<close> gives none.  Memory is not a part of a program: a
  buffer that a call fills is a part of the answer, and a string that a call is given is a
  part of the call.
\<close>

section \<open>System calls\<close>

datatype ucall =
    Ufork | Uwait | Upipe | Uwrite int "byte list" | Uread int int | Uclose int | Ukill int
  | Uexec "byte list" "byte list list" | Uopen "byte list" int | Umknod "byte list" int int | Uunlink "byte list"
  | Ufstat int | Ulink "byte list" "byte list" | Umkdir "byte list" | Uchdir "byte list" | Udup int
  | Usbrk int | Usleep int | Ugetdate | Usetdate "int list" | Utimerrate int

text \<open>
  An answer: the value returned, the bytes that \<open>read\<close> stored, and the integers
  that a call stored through a pointer.
\<close>

record ures =
  rv :: int
  rbytes :: "byte list"
  rints :: "int list"

abbreviation ret :: "int \<Rightarrow> ures" where
  "ret n \<equiv> \<lparr>rv = n, rbytes = [], rints = []\<rparr>"

section \<open>Programs\<close>

text \<open>\<open>Hang\<close>: a loop has used up the rounds it was given.\<close>

datatype 'a prog = Value 'a | Exit | Hang | Call ucall "ures \<Rightarrow> 'a prog"

primrec ubind :: "'a prog \<Rightarrow> ('a \<Rightarrow> 'b prog) \<Rightarrow> 'b prog" where
  "ubind (Value x) k = k x"
| "ubind Exit k = Exit"
| "ubind Hang k = Hang"
| "ubind (Call c f) k = Call c (\<lambda>r. ubind (f r) k)"

lemma ubind_assoc: "ubind (ubind p f) g = ubind p (\<lambda>x. ubind (f x) g)"
  by (induction p) simp_all

lemma ubind_Value [simp]: "ubind p Value = p"
  by (induction p) simp_all

definition ucall :: "ucall \<Rightarrow> ures prog" where
  "ucall c = Call c Value"

text \<open>
  Running a program against a kernel that answers its calls one after the other.
\<close>

datatype 'a uend = Done 'a | Exited | Cut

primrec run :: "(ucall \<Rightarrow> 'k \<Rightarrow> ures \<times> 'k) \<Rightarrow> 'a prog \<Rightarrow> 'k \<Rightarrow> 'a uend \<times> 'k" where
  "run h (Value x) k = (Done x, k)"
| "run h Exit k = (Exited, k)"
| "run h Hang k = (Cut, k)"
| "run h (Call c f) k = run h (f (fst (h c k))) (snd (h c k))"

lemma run_bind:
  "run h (ubind p f) k = (case run h p k of (Done x, k) \<Rightarrow> run h (f x) k | (Exited, k) \<Rightarrow> (Exited, k) | (Cut, k) \<Rightarrow> (Cut, k))"
  by (induction p arbitrary: k) simp_all

text \<open>
  Open streams: the bytes that are still to be read, in the portions in which they arrive,
  and the bytes written.  A portion that is not empty is never delivered as an end of file.
\<close>

record streams =
  portions :: "int \<Rightarrow> byte list list"
  written :: "int \<Rightarrow> byte list"

fun stream_call :: "ucall \<Rightarrow> streams \<Rightarrow> ures \<times> streams" where
  "stream_call (Uread fd n) s =
     (case portions s fd of
        [] \<Rightarrow> (ret 0, s)
      | c # cs \<Rightarrow>
          (\<lparr>rv = int (length (take (nat n) c)), rbytes = take (nat n) c, rints = []\<rparr>,
           s\<lparr>portions := (portions s)(fd := (if length c \<le> nat n then cs else drop (nat n) c # cs))\<rparr>))"
| "stream_call (Uwrite fd bs) s = (ret (int (length bs)), s\<lparr>written := (written s)(fd := written s fd @ bs)\<rparr>)"
| "stream_call c s = (ret (- 1), s)"

definition emit :: "int \<Rightarrow> byte list \<Rightarrow> streams \<Rightarrow> streams" where
  "emit fd bs s = s\<lparr>written := (written s)(fd := written s fd @ bs)\<rparr>"

lemma emit_simps [simp]:
  "emit fd [] s = s" "emit fd bs (emit fd as s) = emit fd (as @ bs) s" "portions (emit fd bs s) = portions s"
  "written (emit fd bs s) = (written s)(fd := written s fd @ bs)"
  by (simp_all add: emit_def)

definition lit :: "string \<Rightarrow> byte list" where
  "lit s = map of_char s"

text \<open>A literal that ends with a newline.\<close>

definition litn :: "string \<Rightarrow> byte list" where
  "litn s = lit s @ [10]"

section \<open>The library\<close>

text \<open>\<open>gets\<close> on a buffer; the loop's argument counts the room left.\<close>

fun gets_loop :: "nat \<Rightarrow> byte list prog" where
  "gets_loop 0 = Value []"
| "gets_loop (Suc n) =
     Call (Uread 0 1) (\<lambda>r.
     if rv r < 1 then Value []
     else let c = chr (rbytes r) in
       if c = 10 \<or> c = 13 then Value [c] else ubind (gets_loop n) (\<lambda>cs. Value (c # cs)))"

definition gets :: "byte list \<Rightarrow> int \<Rightarrow> byte list prog" where
  "gets buf mx = ubind (gets_loop (nat (mx - 1))) (\<lambda>cs. Value (blit 0 (cs @ [0]) buf))"

definition ustat :: "byte list \<Rightarrow> (int \<times> int list) prog" where
  "ustat n =
     Call (Uopen n 0) (\<lambda>r.
     if rv r < 0 then Value (- 1, [])
     else
       Call (Ufstat (rv r)) (\<lambda>q.
       Call (Uclose (rv r)) (\<lambda>_. Value (rv q, rints q))))"

fun umemmove :: "nat \<Rightarrow> uint \<Rightarrow> uint \<Rightarrow> memory \<Rightarrow> memory" where
  "umemmove 0 dst src m = m"
| "umemmove (Suc n) dst src m = umemmove n (dst + 1) (src + 1) (m(dst := m src))"

section \<open>Formatted output\<close>

definition uputc :: "int \<Rightarrow> byte \<Rightarrow> unit prog" where
  "uputc fd c = Call (Uwrite fd [c]) (\<lambda>_. Value ())"

fun uputs :: "int \<Rightarrow> byte list \<Rightarrow> unit prog" where
  "uputs fd [] = Value ()"
| "uputs fd (c # cs) = ubind (uputc fd c) (\<lambda>_. uputs fd cs)"

definition udigit :: "nat \<Rightarrow> byte" where
  "udigit d = (if d < 10 then 48 + of_nat d else 65 + of_nat (d - 10))"

function udigits_rev :: "nat \<Rightarrow> nat \<Rightarrow> byte list" where
  "udigits_rev base x =
     udigit (x mod base) # (if x div base = 0 \<or> base < 2 then [] else udigits_rev base (x div base))"
  by pat_completeness auto
termination
  by (relation "measure snd") (auto simp: not_less intro!: div_less_dividend intro: gr_zeroI)

declare udigits_rev.simps [simp del]

definition uprintint_digits :: "uint \<Rightarrow> nat \<Rightarrow> bool \<Rightarrow> byte list" where
  "uprintint_digits xx base sg =
     (let neg = (sg \<and> sint xx < 0);
          x = (if neg then - xx else xx) in
      rev (udigits_rev base (unat x) @ (if neg then [45] else [])))"

definition uprintint :: "int \<Rightarrow> uint \<Rightarrow> nat \<Rightarrow> bool \<Rightarrow> unit prog" where
  "uprintint fd xx base sg = uputs fd (uprintint_digits xx base sg)"

text \<open>The first flag is \<open>state == '%'\<close>.\<close>

fun printf_loop :: "int \<Rightarrow> bool \<Rightarrow> byte list \<Rightarrow> parg list \<Rightarrow> unit prog" where
  "printf_loop fd st [] as = Value ()"
| "printf_loop fd st (c # fmt) as =
     (if \<not> st then
        if c = 37 then printf_loop fd True fmt as
        else ubind (uputc fd c) (\<lambda>_. printf_loop fd False fmt as)
      else if c = 100 then ubind (uprintint fd (parg_int as) 10 True) (\<lambda>_. printf_loop fd False fmt (tl as))
      else if c = 120 \<or> c = 112 then ubind (uprintint fd (parg_int as) 16 False) (\<lambda>_. printf_loop fd False fmt (tl as))
      else if c = 115 then ubind (uputs fd (parg_str as)) (\<lambda>_. printf_loop fd False fmt (tl as))
      else if c = 99 then ubind (uputc fd (ucast (parg_int as))) (\<lambda>_. printf_loop fd False fmt (tl as))
      else if c = 37 then ubind (uputc fd c) (\<lambda>_. printf_loop fd False fmt as)
      else ubind (uputc fd 37) (\<lambda>_. ubind (uputc fd c) (\<lambda>_. printf_loop fd False fmt as)))"

definition printf :: "int \<Rightarrow> byte list \<Rightarrow> parg list \<Rightarrow> unit prog" where
  "printf fd fmt as = printf_loop fd False (cstr fmt) as"

text \<open>The arguments of \<open>printf\<close>.\<close>

abbreviation PI :: "int \<Rightarrow> parg" where
  "PI n \<equiv> PInt (word_of_int n)"

abbreviation PS :: "byte list \<Rightarrow> parg" where
  "PS s \<equiv> PStr (Some s)"

section \<open>What is printed\<close>

lemma run_uputc [simp]: "run stream_call (uputc fd c) s = (Done (), emit fd [c] s)"
  by (simp add: uputc_def emit_def)

lemma run_uputs [simp]: "run stream_call (uputs fd cs) s = (Done (), emit fd cs s)"
  by (induction cs arbitrary: s) (simp_all add: run_bind)

text \<open>The text that \<open>printf\<close> produces.\<close>

fun formatted :: "bool \<Rightarrow> byte list \<Rightarrow> parg list \<Rightarrow> byte list" where
  "formatted st [] as = []"
| "formatted st (c # fmt) as =
     (if \<not> st then if c = 37 then formatted True fmt as else c # formatted False fmt as
      else if c = 100 then uprintint_digits (parg_int as) 10 True @ formatted False fmt (tl as)
      else if c = 120 \<or> c = 112 then uprintint_digits (parg_int as) 16 False @ formatted False fmt (tl as)
      else if c = 115 then parg_str as @ formatted False fmt (tl as)
      else if c = 99 then ucast (parg_int as) # formatted False fmt (tl as)
      else if c = 37 then c # formatted False fmt as
      else 37 # c # formatted False fmt as)"

lemma run_printf [simp]: "run stream_call (printf fd fmt as) s = (Done (), emit fd (formatted False (cstr fmt) as) s)"
proof -
  have "run stream_call (printf_loop fd st f as) s = (Done (), emit fd (formatted st f as) s)" for st f
    by (induction fd st f as arbitrary: s rule: printf_loop.induct) (simp_all add: run_bind uprintint_def)
  then show ?thesis by (simp add: printf_def)
qed

section \<open>Numbers printed and read\<close>

lemma udigit_dec:
  assumes "d < 10"
  shows "48 \<le> udigit d" "udigit d \<le> 57" "(ucast (udigit d) :: uint) - 48 = of_nat d"
proof -
  have "d \<in> {0, 1, 2, 3, 4, 5, 6, 7, 8, 9}" using assms by auto
  then show "48 \<le> udigit d" "udigit d \<le> 57" "(ucast (udigit d) :: uint) - 48 = of_nat d"
    by (auto simp: udigit_def)
qed

lemma atoi_digits:
  "atoi_loop (rev (udigits_rev 10 x) @ t) n = atoi_loop t (n * 10 ^ length (udigits_rev 10 x) + of_nat x)"
proof (induction x arbitrary: t n rule: less_induct)
  case (less x)
  note d = udigit_dec[of "x mod 10", simplified]
  have step: "atoi_loop (udigit (x mod 10) # t) k = atoi_loop t (k * 10 + of_nat (x mod 10))" for k
    using d by (simp add: add_diff_eq[symmetric])
  show ?case
  proof (cases "x div 10 = 0")
    case True
    then have "x mod 10 = x" by auto
    then show ?thesis using True step[of n] by (simp add: udigits_rev.simps)
  next
    case False
    then have "x div 10 < x" by auto
    have e: "(of_nat x :: uint) = of_nat (x div 10) * 10 + of_nat (x mod 10)"
      by (metis div_mult_mod_eq of_nat_add of_nat_mult of_nat_numeral)
    have l: "length (udigits_rev 10 x) = Suc (length (udigits_rev 10 (x div 10)))" using False by (subst udigits_rev.simps) simp
    have "atoi_loop (rev (udigits_rev 10 x) @ t) n = atoi_loop (rev (udigits_rev 10 (x div 10)) @ udigit (x mod 10) # t) n"
      using False by (subst udigits_rev.simps) simp
    also have "\<dots> = atoi_loop t ((n * 10 ^ length (udigits_rev 10 (x div 10)) + of_nat (x div 10)) * 10 + of_nat (x mod 10))"
      unfolding less.IH[OF \<open>x div 10 < x\<close>] by (rule step)
    also have "(n * 10 ^ length (udigits_rev 10 (x div 10)) + of_nat (x div 10)) * 10 + of_nat (x mod 10)
        = n * 10 ^ length (udigits_rev 10 x) + of_nat x"
      unfolding e l by (simp add: algebra_simps)
    finally show ?thesis .
  qed
qed

lemma udigits_length: "2 \<le> base \<Longrightarrow> x < base ^ Suc k \<Longrightarrow> length (udigits_rev base x) \<le> Suc k"
proof (induction k arbitrary: x)
  case 0
  then show ?case by (simp add: udigits_rev.simps)
next
  case (Suc k)
  have "x div base < base ^ Suc k" using Suc.prems by (simp add: less_mult_imp_div_less mult.commute)
  then show ?case using Suc.IH[OF Suc.prems(1)] Suc.prems(1) by (subst udigits_rev.simps) auto
qed

text \<open>
  C34.  Numbers survive printing and parsing: what \<open>printf\<close> prints for a
  non-negative \<open>%d\<close> argument, \<open>atoi\<close> reads back, whatever non-digit
  text follows; a negative argument is printed as a minus sign and the digits of its
  absolute value, also for the least integer, whose negation overflows.
\<close>

theorem atoi_printint:
  assumes "chr t < 48 \<or> 57 < chr t"
  shows "if 0 \<le> sint x then atoi (uprintint_digits x 10 True @ t) = sint x
    else uprintint_digits x 10 True = 45 # rev (udigits_rev 10 (nat (- sint x)))"
proof (cases "0 \<le> sint x")
  case True
  have t: "atoi_loop t k = k" for k using assms by (cases t) (auto simp: chr_def)
  show ?thesis using True by (simp add: atoi_def uprintint_digits_def atoi_digits t)
next
  case False
  have b: "- (2 ^ 31) \<le> sint x" using sint_greater_eq[of x] by simp
  have "- x = word_of_int (- sint x)" by simp
  then have "unat (- x) = nat (- sint x mod 2 ^ 32)" by (simp only: unat_eq_nat_uint uint_word_of_int) simp
  also have "\<dots> = nat (- sint x)" using False b by simp
  finally show ?thesis using False by (simp add: uprintint_digits_def)
qed

lemma atoi_printint_witness:
  "atoi (uprintint_digits 1024 10 True @ [32]) = 1024 \<and>
   uprintint_digits (word_of_int (- (2 ^ 31))) 10 True = 45 # rev (udigits_rev 10 (2 ^ 31))"
  using atoi_printint[of "[32]" 1024] atoi_printint[of "[32]" "word_of_int (- (2 ^ 31))"] by (simp add: chr_def)

lemma digits_length: "length (digits_rev base x) = length (udigits_rev base x)"
proof (induction base x rule: udigits_rev.induct)
  case (1 base x)
  then show ?case by (subst digits_rev.simps, subst udigits_rev.simps) simp
qed

text \<open>
  C35.  \<open>printint\<close> of the kernel and of the user library collect at most 11
  characters in their arrays of 16, for each base they are called with and every argument.
\<close>

theorem printint_fits:
  assumes "base = 10 \<or> base = 16"
  shows "length (printint_digits x base sg) \<le> 11 \<and> length (uprintint_digits x base sg) \<le> 11"
proof -
  have "length (udigits_rev base n) \<le> 10" if "n < 2 ^ 32" for n
  proof -
    have "(2 :: nat) ^ 32 \<le> base ^ Suc 9" using assms by auto
    then show ?thesis using udigits_length[of base n 9] assms that by auto
  qed
  then have "length (udigits_rev base (unat y)) \<le> 10" for y :: uint using unat_lt32 by blast
  from this[of x] this[of "- x"] show ?thesis by (auto simp: printint_digits_def uprintint_digits_def digits_length Let_def)
qed

lemma printint_fits_witness: "length (printint_digits 4294967295 16 False) \<le> 11 \<and> length (uprintint_digits 4294967295 10 True) \<le> 11"
  using printint_fits[of 16 4294967295 False] printint_fits[of 10 4294967295 True] by simp

end
