(* ===== verification/Utils.thy ===== *)
theory Utils
  imports User
begin

text \<open>
  The small programs of \<open>user/\<close>.  \<open>main\<close> takes the argument
  vector as a list whose length is \<open>argc\<close>.  A loop that reads until the end of
  its input takes a number of rounds; the arrays that a program keeps from one round to the
  next are arguments.
\<close>

section \<open>cat and echo\<close>

fun cat :: "nat \<Rightarrow> int \<Rightarrow> unit prog" where
  "cat 0 fd = Hang"
| "cat (Suc k) fd =
     Call (Uread fd 512) (\<lambda>r.
     let n = rv r in
     if n > 0
     then
       Call (Uwrite 1 (take (nat n) (rbytes r))) (\<lambda>w.
       if rv w \<noteq> n then ubind (printf 1 (litn ''cat: write error'') []) (\<lambda>_. Exit)
       else cat k fd)
     else if n < 0 then ubind (printf 1 (litn ''cat: read error'') []) (\<lambda>_. Exit)
     else Value ())"

fun cat_files :: "nat \<Rightarrow> byte list list \<Rightarrow> unit prog" where
  "cat_files k [] = Exit"
| "cat_files k (a # as) =
     Call (Uopen a 0) (\<lambda>r.
     if rv r < 0 then ubind (printf 1 (litn ''cat: cannot open %s'') [PS a]) (\<lambda>_. Exit)
     else
       ubind (cat k (rv r)) (\<lambda>_.
       Call (Uclose (rv r)) (\<lambda>_. cat_files k as)))"

definition cat_main :: "nat \<Rightarrow> byte list list \<Rightarrow> unit prog" where
  "cat_main k argv =
     (if length argv \<le> 1 then ubind (cat k 0) (\<lambda>_. Exit)
      else cat_files k (tl argv))"

fun echo_args :: "byte list list \<Rightarrow> unit prog" where
  "echo_args [] = Exit"
| "echo_args (a # as) =
     ubind (printf 1 (lit ''%s%s'') [PS a, PS (if as \<noteq> [] then [32] else [10])]) (\<lambda>_. echo_args as)"

definition echo_main :: "byte list list \<Rightarrow> unit prog" where
  "echo_main argv = echo_args (tl argv)"

section \<open>wc\<close>

definition wc_space :: "byte list" where
  "wc_space = [32, 13, 9, 10, 11]"

text \<open>The loop over the bytes of a buffer, with \<open>l\<close>, \<open>w\<close>, \<open>c\<close> and \<open>inword\<close>.\<close>

fun wc_count :: "byte list \<Rightarrow> uint \<times> uint \<times> uint \<times> bool \<Rightarrow> uint \<times> uint \<times> uint \<times> bool" where
  "wc_count [] st = st"
| "wc_count (b # bs) (l, w, c, inword) =
     (let c = c + 1;
          l = (if b = 10 then l + 1 else l) in
      wc_count bs
        (if strchr wc_space b \<noteq> None then (l, w, c, False)
         else if \<not> inword then (l, w + 1, c, True)
         else (l, w, c, inword)))"

fun wc_loop :: "nat \<Rightarrow> int \<Rightarrow> byte list \<Rightarrow> uint \<times> uint \<times> uint \<times> bool \<Rightarrow> unit prog" where
  "wc_loop 0 fd nm st = Hang"
| "wc_loop (Suc k) fd nm st =
     Call (Uread fd 512) (\<lambda>r.
     let n = rv r in
     if n > 0 then wc_loop k fd nm (wc_count (take (nat n) (rbytes r)) st)
     else if n < 0 then ubind (printf 1 (litn ''wc: read error'') []) (\<lambda>_. Exit)
     else
       let (l, w, c, _) = st in
       printf 1 (litn ''%d %d %d %s'') [PInt l, PInt w, PInt c, PS nm])"

definition wc :: "nat \<Rightarrow> int \<Rightarrow> byte list \<Rightarrow> unit prog" where
  "wc k fd nm = wc_loop k fd nm (0, 0, 0, False)"

fun wc_files :: "nat \<Rightarrow> byte list list \<Rightarrow> unit prog" where
  "wc_files k [] = Exit"
| "wc_files k (a # as) =
     Call (Uopen a 0) (\<lambda>r.
     if rv r < 0 then ubind (printf 1 (litn ''wc: cannot open %s'') [PS a]) (\<lambda>_. Exit)
     else
       ubind (wc k (rv r) a) (\<lambda>_.
       Call (Uclose (rv r)) (\<lambda>_. wc_files k as)))"

definition wc_main :: "nat \<Rightarrow> byte list list \<Rightarrow> unit prog" where
  "wc_main k argv =
     (if length argv \<le> 1 then ubind (wc k 0 []) (\<lambda>_. Exit)
      else wc_files k (tl argv))"

section \<open>kill, ln, mkdir and rm\<close>

fun kill_args :: "byte list list \<Rightarrow> unit prog" where
  "kill_args [] = Exit"
| "kill_args (a # as) = Call (Ukill (atoi a)) (\<lambda>_. kill_args as)"

definition kill_main :: "byte list list \<Rightarrow> unit prog" where
  "kill_main argv =
     (if length argv < 2 then ubind (printf 2 (litn ''usage: kill pid...'') []) (\<lambda>_. Exit)
      else kill_args (tl argv))"

definition ln_main :: "byte list list \<Rightarrow> unit prog" where
  "ln_main argv =
     (if length argv \<noteq> 3 then ubind (printf 2 (litn ''Usage: ln old new'') []) (\<lambda>_. Exit)
      else
        Call (Ulink (argv ! 1) (argv ! 2)) (\<lambda>r.
        if rv r < 0 then ubind (printf 2 (litn ''link %s %s: failed'') [PS (argv ! 1), PS (argv ! 2)]) (\<lambda>_. Exit)
        else Exit))"

fun mkdir_args :: "byte list list \<Rightarrow> unit prog" where
  "mkdir_args [] = Exit"
| "mkdir_args (a # as) =
     Call (Umkdir a) (\<lambda>r.
     if rv r < 0 then ubind (printf 2 (litn ''mkdir: %s failed to create'') [PS a]) (\<lambda>_. Exit)
     else mkdir_args as)"

definition mkdir_main :: "byte list list \<Rightarrow> unit prog" where
  "mkdir_main argv =
     (if length argv < 2 then ubind (printf 2 (litn ''Usage: mkdir files...'') []) (\<lambda>_. Exit)
      else mkdir_args (tl argv))"

fun rm_args :: "byte list list \<Rightarrow> unit prog" where
  "rm_args [] = Exit"
| "rm_args (a # as) =
     Call (Uunlink a) (\<lambda>r.
     if rv r < 0 then ubind (printf 2 (litn ''rm: %s failed to delete'') [PS a]) (\<lambda>_. Exit)
     else rm_args as)"

definition rm_main :: "byte list list \<Rightarrow> unit prog" where
  "rm_main argv =
     (if length argv < 2 then ubind (printf 2 (litn ''Usage: rm files...'') []) (\<lambda>_. Exit)
      else rm_args (tl argv))"

section \<open>ls\<close>

text \<open>The name after the last slash, padded with blanks to \<open>DIRSIZ\<close>.\<close>

definition fmtname :: "byte list \<Rightarrow> byte list" where
  "fmtname path =
     (let p = rev (takeWhile (\<lambda>c. c \<noteq> 47) (rev path)) in
      if length p \<ge> 14 then p
      else p @ replicate (14 - length p) 32)"

text \<open>The fields of \<open>struct stat\<close>, in order, as \<open>fstat\<close> stores them.\<close>

abbreviation st_type :: "int list \<Rightarrow> int" where "st_type st \<equiv> st ! 0"
abbreviation st_ino :: "int list \<Rightarrow> int" where "st_ino st \<equiv> st ! 2"
abbreviation st_size :: "int list \<Rightarrow> int" where "st_size st \<equiv> st ! 4"

definition ls_line :: "byte list \<Rightarrow> int list \<Rightarrow> unit prog" where
  "ls_line path st = printf 1 (litn ''%s %d %d %d'') [PS (fmtname path), PI (st_type st), PI (st_ino st), PI (st_size st)]"

text \<open>The loop over a directory; \<open>path\<close> is what \<open>buf\<close> starts with, slash included.\<close>

fun ls_dir :: "nat \<Rightarrow> int \<Rightarrow> byte list \<Rightarrow> unit prog" where
  "ls_dir 0 fd path = Hang"
| "ls_dir (Suc k) fd path =
     Call (Uread fd 16) (\<lambda>r.
     if rv r \<noteq> 16 then Value ()
     else if un16 (seg 0 2 (rbytes r)) = 0 then ls_dir k fd path
     else
       let buf = cstr (path @ seg 2 14 (rbytes r)) in
       ubind (ustat buf) (\<lambda>(n, st).
       if n < 0
       then ubind (printf 1 (litn ''ls: cannot stat %s'') [PS buf]) (\<lambda>_. ls_dir k fd path)
       else ubind (ls_line buf st) (\<lambda>_. ls_dir k fd path)))"

definition ls :: "nat \<Rightarrow> byte list \<Rightarrow> unit prog" where
  "ls k path =
     Call (Uopen path 0) (\<lambda>r.
     if rv r < 0 then printf 2 (litn ''ls: cannot open %s'') [PS path]
     else
       Call (Ufstat (rv r)) (\<lambda>q.
       if rv q < 0
       then ubind (printf 2 (litn ''ls: cannot stat %s'') [PS path]) (\<lambda>_. Call (Uclose (rv r)) (\<lambda>_. Value ()))
       else
         ubind
           (if st_type (rints q) = 2 then ls_line path (rints q)
            else if st_type (rints q) = 1
            then
              if length path + 1 + 14 + 1 > 512 then printf 1 (litn ''ls: path too long'') []
              else ls_dir k (rv r) (path @ [47])
            else Value ())
           (\<lambda>_. Call (Uclose (rv r)) (\<lambda>_. Value ()))))"

fun ls_args :: "nat \<Rightarrow> byte list list \<Rightarrow> unit prog" where
  "ls_args k [] = Exit"
| "ls_args k (a # as) = ubind (ls k a) (\<lambda>_. ls_args k as)"

definition ls_main :: "nat \<Rightarrow> byte list list \<Rightarrow> unit prog" where
  "ls_main k argv =
     (if length argv < 2 then ubind (ls k (lit ''.'')) (\<lambda>_. Exit) else ls_args k (tl argv))"

section \<open>The date and timer programs\<close>

text \<open>
  \<open>malloc\<close> and \<open>free\<close> of the structure stay inside the process.  The
  fields are those of \<open>struct rtcdate\<close> in order: second, minute, hour, day, month, year.
\<close>

definition getdate_main :: "unit prog" where
  "getdate_main =
     Call Ugetdate (\<lambda>r.
     ubind (if rv r \<noteq> 0 then printf 1 (litn ''%s'') [PS (lit ''getdate failed'')] else Value ()) (\<lambda>_.
     let t = rints r in
     ubind (printf 1 (litn ''Date: %d/%d/%d Time:  %d:%d:%d'')
       [PI (t ! 4), PI (t ! 3), PI (t ! 5), PI (t ! 2), PI (t ! 1), PI (t ! 0)]) (\<lambda>_. Exit)))"

definition setdate_main :: "byte list list \<Rightarrow> unit prog" where
  "setdate_main argv =
     (if length argv \<le> 6
      then ubind (printf 1 (litn ''%s'') [PS (lit ''usage: setdate [year] [day] [month] [hour] [min] [sec]'')]) (\<lambda>_. Exit)
      else
        Call (Usetdate [atoi (argv ! 6), atoi (argv ! 5), atoi (argv ! 4), atoi (argv ! 2), atoi (argv ! 3), atoi (argv ! 1)]) (\<lambda>r.
        if rv r \<noteq> 0 then ubind (printf 1 (litn ''%s'') [PS (lit ''setdate failed'')]) (\<lambda>_. Exit) else Exit))"

text \<open>\<open>timerrate\<close> stores the old rate through its pointer.\<close>

definition timerrate_main :: "byte list list \<Rightarrow> unit prog" where
  "timerrate_main argv =
     (if length argv < 2 then ubind (printf 1 (litn ''%s'') [PS (lit ''Usage: timerrate [hz]'')]) (\<lambda>_. Exit)
      else
        let hz = atoi (argv ! 1) in
        Call (Utimerrate hz) (\<lambda>r.
        let old = rints r ! 0 in
        ubind
          (if rv r \<noteq> - 1
           then printf 1 (litn ''Old target: %d '' @ litn ''New target: %d '' @ litn ''Return Value: %d'') [PI old, PI hz, PI (rv r)]
           else printf 1 (litn ''Incorrect range [1-1000] Return Value: %d'') [PI (rv r)])
          (\<lambda>_. Exit)))"

section \<open>Programs switched off by the configuration\<close>

definition df_main :: "unit prog" where
  "df_main = ubind (printf 1 (litn ''%s'') [PS (lit ''The df function has been turned off due to a kernel/hwinit.h macro'')]) (\<lambda>_. Exit)"

definition maptest_main :: "unit prog" where
  "maptest_main = ubind (printf 1 (litn ''%s'') [PS (lit ''This function has been turned off due to a flag in kernel/hwinit.h'')]) (\<lambda>_. Exit)"

definition umkfs_main :: "unit prog" where
  "umkfs_main = ubind (printf 1 (litn ''umkfs has been disabled due to kernel/hwinit.h macro'') []) (\<lambda>_. Exit)"

section \<open>init\<close>

text \<open>The loop that waits for the shell, with the number of children it may see.\<close>

fun init_wait :: "nat \<Rightarrow> int \<Rightarrow> unit prog" where
  "init_wait 0 sh = Hang"
| "init_wait (Suc k) sh =
     Call Uwait (\<lambda>r.
     if rv r \<ge> 0 \<and> rv r \<noteq> sh
     then ubind (printf 1 (litn ''zombie!'') []) (\<lambda>_. init_wait k sh)
     else Value ())"

fun init_loop :: "nat \<Rightarrow> nat \<Rightarrow> unit prog" where
  "init_loop w 0 = Hang"
| "init_loop w (Suc k) =
     ubind (printf 1 (litn ''init: starting sh'') []) (\<lambda>_.
     Call Ufork (\<lambda>r.
     if rv r < 0 then ubind (printf 1 (litn ''init: fork failed'') []) (\<lambda>_. Exit)
     else if rv r = 0
     then
       Call (Uexec (lit ''sh'') [lit ''sh'']) (\<lambda>_.
       ubind (printf 1 (litn ''init: exec sh failed'') []) (\<lambda>_. Exit))
     else ubind (init_wait w (rv r)) (\<lambda>_. init_loop w k)))"

definition init_main :: "nat \<Rightarrow> nat \<Rightarrow> unit prog" where
  "init_main w k =
     Call (Uopen (lit ''console'') 2) (\<lambda>r.
     ubind
       (if rv r < 0
        then
          Call (Umknod (lit ''console'') 1 1) (\<lambda>_.
          Call (Uopen (lit ''console'') 2) (\<lambda>_. Value ()))
        else Value ())
       (\<lambda>_.
     Call (Udup 0) (\<lambda>_.
     Call (Udup 0) (\<lambda>_.
     init_loop w k))))"

section \<open>Programs that exercise the kernel\<close>

definition zombie_main :: "unit prog" where
  "zombie_main =
     Call Ufork (\<lambda>r.
     if rv r > 0 then Call (Usleep 5) (\<lambda>_. Exit) else Exit)"

text \<open>\<open>forktest\<close> has a \<open>printf\<close> of its own: one write of the format.\<close>

definition forktest_printf :: "int \<Rightarrow> byte list \<Rightarrow> unit prog" where
  "forktest_printf fd s = Call (Uwrite fd (take (strlen s) s)) (\<lambda>_. Value ())"

text \<open>The number of children made, \<open>n\<close>, or a child's exit.\<close>

fun forktest_forks :: "nat \<Rightarrow> nat \<Rightarrow> nat prog" where
  "forktest_forks 0 n = Value n"
| "forktest_forks (Suc k) n =
     Call Ufork (\<lambda>r.
     if rv r < 0 then Value n
     else if rv r = 0 then Exit
     else forktest_forks k (n + 1))"

fun forktest_waits :: "nat \<Rightarrow> unit prog" where
  "forktest_waits 0 = Value ()"
| "forktest_waits (Suc n) =
     Call Uwait (\<lambda>r.
     if rv r < 0 then ubind (forktest_printf 1 (litn ''wait stopped early'')) (\<lambda>_. Exit)
     else forktest_waits n)"

definition forktest :: "unit prog" where
  "forktest =
     ubind (forktest_printf 1 (litn ''fork test'')) (\<lambda>_.
     ubind (forktest_forks 1000 0) (\<lambda>n.
     if n = 1000 then ubind (forktest_printf 1 (litn ''fork claimed to work N times!'')) (\<lambda>_. Exit)
     else
       ubind (forktest_waits n) (\<lambda>_.
       Call Uwait (\<lambda>r.
       if rv r \<noteq> - 1 then ubind (forktest_printf 1 (litn ''wait got too many'')) (\<lambda>_. Exit)
       else forktest_printf 1 (litn ''fork test OK'')))))"

definition forktest_main :: "unit prog" where
  "forktest_main = ubind forktest (\<lambda>_. Exit)"

fun ucalls :: "nat \<Rightarrow> ucall \<Rightarrow> unit prog" where
  "ucalls 0 c = Value ()"
| "ucalls (Suc n) c = Call c (\<lambda>_. ucalls n c)"

text \<open>The value of \<open>i\<close> in each of the processes that \<open>stressfs\<close> becomes.\<close>

fun stressfs_forks :: "nat \<Rightarrow> nat \<Rightarrow> nat prog" where
  "stressfs_forks 0 i = Value i"
| "stressfs_forks (Suc k) i = Call Ufork (\<lambda>r. if rv r > 0 then Value i else stressfs_forks k (i + 1))"

definition stressfs_main :: "unit prog" where
  "stressfs_main =
     ubind (printf 1 (litn ''stressfs starting'') []) (\<lambda>_.
     ubind (stressfs_forks 4 0) (\<lambda>i.
     ubind (printf 1 (litn ''write %d'') [PI (int i)]) (\<lambda>_.
     let path = lit ''stressfs'' @ [48 + of_nat i] in
     Call (Uopen path (0x200 + 2)) (\<lambda>r.
     ubind (ucalls 20 (Uwrite (rv r) (replicate 512 97))) (\<lambda>_.
     Call (Uclose (rv r)) (\<lambda>_.
     ubind (printf 1 (litn ''read'') []) (\<lambda>_.
     Call (Uopen path 0) (\<lambda>r.
     ubind (ucalls 20 (Uread (rv r) 512)) (\<lambda>_.
     Call (Uclose (rv r)) (\<lambda>_.
     Call Uwait (\<lambda>_. Exit)))))))))))"

section \<open>What cat and wc do\<close>

text \<open>A read from a stream that has not ended takes bytes from its front, at least one.\<close>

lemma stream_read:
  assumes "[] \<notin> set (portions s fd)" "portions s fd \<noteq> []" "0 < n"
  obtains b bs ps where "fst (stream_call (Uread fd n) s) = \<lparr>rv = int (length (b # bs)), rbytes = b # bs, rints = []\<rparr>"
    "snd (stream_call (Uread fd n) s) = s\<lparr>portions := (portions s)(fd := ps)\<rparr>" "concat (portions s fd) = b # bs @ concat ps" "[] \<notin> set ps"
proof -
  obtain c cs where c: "portions s fd = c # cs" using assms(2) by (cases "portions s fd") auto
  have "take (nat n) c \<noteq> []" using assms c by auto
  then obtain b bs where b: "take (nat n) c = b # bs" by (cases "take (nat n) c") auto
  have cc: "c = b # bs @ drop (nat n) c" using append_take_drop_id[of "nat n" c] b by simp
  show ?thesis
  proof (rule that)
    show "fst (stream_call (Uread fd n) s) = \<lparr>rv = int (length (b # bs)), rbytes = b # bs, rints = []\<rparr>" by (simp add: c b)
    show "snd (stream_call (Uread fd n) s) =
        s\<lparr>portions := (portions s)(fd := (if length c \<le> nat n then cs else drop (nat n) c # cs))\<rparr>" by (simp add: c)
    show "concat (portions s fd) = b # bs @ concat (if length c \<le> nat n then cs else drop (nat n) c # cs)"
      using arg_cong[OF cc, of "\<lambda>x. x @ concat cs"] b by (auto simp: c)
    show "[] \<notin> set (if length c \<le> nat n then cs else drop (nat n) c # cs)" using assms(1) c by auto
  qed
qed

text \<open>
  C27.  \<open>cat\<close> copies.  However the input arrives in portions, \<open>cat\<close>
  returns after writing exactly the bytes of its input to the standard output, and has then
  read all of it; it makes at most one round per byte, and one for the end.
\<close>

theorem cat_copies:
  assumes "[] \<notin> set (portions s fd)" "length (concat (portions s fd)) < k"
  shows "run stream_call (cat k fd) s =
    (Done (), emit 1 (concat (portions s fd)) (s\<lparr>portions := (portions s)(fd := [])\<rparr>))"
  using assms
proof (induction k arbitrary: s)
  case (Suc k)
  show ?case
  proof (cases "portions s fd = []")
    case True
    then show ?thesis by (simp add: fun_upd_idem)
  next
    case False
    obtain b bs ps where r: "fst (stream_call (Uread fd 512) s) = \<lparr>rv = int (length (b # bs)), rbytes = b # bs, rints = []\<rparr>"
      "snd (stream_call (Uread fd 512) s) = s\<lparr>portions := (portions s)(fd := ps)\<rparr>" "concat (portions s fd) = b # bs @ concat ps" "[] \<notin> set ps"
      by (rule stream_read[OF Suc.prems(1) False, of 512]) auto
    let ?s = "emit 1 (b # bs) (s\<lparr>portions := (portions s)(fd := ps)\<rparr>)"
    have "run stream_call (cat (Suc k) fd) s = run stream_call (cat k fd) ?s"
      using r(1,2) by (simp del: stream_call.simps(1) add: emit_def Let_def)
    also have "\<dots> = (Done (), emit 1 (concat (portions ?s fd)) (?s\<lparr>portions := (portions ?s)(fd := [])\<rparr>))"
      by (rule Suc.IH) (use Suc.prems(2) r(3,4) in simp_all)
    also have "emit 1 (concat (portions ?s fd)) (?s\<lparr>portions := (portions ?s)(fd := [])\<rparr>) =
        emit 1 (concat (portions s fd)) (s\<lparr>portions := (portions s)(fd := [])\<rparr>)"
      unfolding r(3) by (simp add: emit_def fun_upd_def cong: if_cong)
    finally show ?thesis .
  qed
qed simp

lemma cat_copies_witness:
  "snd (run stream_call (cat 10 0) \<lparr>portions = (\<lambda>_. [])(0 := [[104, 105], [33]]), written = \<lambda>_. []\<rparr>) =
     \<lparr>portions = \<lambda>_. [], written = (\<lambda>_. [])(1 := [104, 105, 33])\<rparr>"
  using cat_copies[of "\<lparr>portions = (\<lambda>_. [])(0 := [[104, 105], [33]]), written = \<lambda>_. []\<rparr>" 0 10]
  by (simp add: emit_def fun_upd_idem)

definition space :: "byte \<Rightarrow> bool" where
  "space b \<longleftrightarrow> b \<in> {9, 10, 11, 13, 32}"

lemma strchr_space: "(strchr wc_space b = None) = (\<not> space b)"
  by (auto simp: wc_space_def space_def)

text \<open>The positions where a word starts.\<close>

definition word_starts :: "byte list \<Rightarrow> nat set" where
  "word_starts bs = {i. i < length bs \<and> \<not> space (bs ! i) \<and> (i = 0 \<or> space (bs ! (i - 1)))}"

lemma word_starts_code:
  "word_starts bs = set (filter (\<lambda>i. \<not> space (bs ! i) \<and> (i = 0 \<or> space (bs ! (i - 1)))) [0..<length bs])"
  by (auto simp: word_starts_def)

lemma word_starts_snoc:
  "word_starts (bs @ [b]) = word_starts bs \<union> (if \<not> space b \<and> (bs = [] \<or> space (last bs)) then {length bs} else {})"
proof -
  have "i \<in> word_starts (bs @ [b]) \<longleftrightarrow> i \<in> word_starts bs \<union> (if \<not> space b \<and> (bs = [] \<or> space (last bs)) then {length bs} else {})" for i
  proof (cases "i < length bs")
    case True
    then have "(bs @ [b]) ! i = bs ! i" "(bs @ [b]) ! (i - 1) = bs ! (i - 1)" using less_imp_diff_less[of i "length bs" 1] by (simp_all add: nth_append)
    then show ?thesis using True by (auto simp: word_starts_def)
  next
    case False
    show ?thesis
    proof (cases "i = length bs")
      case True
      then show ?thesis by (cases "bs = []") (auto simp: word_starts_def nth_append last_conv_nth)
    qed (use False in \<open>auto simp: word_starts_def\<close>)
  qed
  then show ?thesis by blast
qed

lemma finite_word_starts [simp]: "finite (word_starts bs)"
  by (simp add: word_starts_def)

lemma wc_count_append: "wc_count (as @ bs) st = wc_count bs (wc_count as st)"
  by (induction as st rule: wc_count.induct) (simp_all add: Let_def)

lemma wc_count_eq:
  "wc_count bs (0, 0, 0, False) =
     (of_nat (count_list bs 10), of_nat (card (word_starts bs)), of_nat (length bs), bs \<noteq> [] \<and> \<not> space (last bs))"
proof (induction bs rule: rev_induct)
  case Nil
  then show ?case by (simp add: word_starts_def)
next
  case (snoc b bs)
  have c: "card (word_starts (bs @ [b])) = card (word_starts bs) + (if \<not> space b \<and> (bs = [] \<or> space (last bs)) then 1 else 0)"
    unfolding word_starts_snoc by (simp add: word_starts_def)
  show ?case by (auto simp: wc_count_append snoc strchr_space Let_def c)
qed

text \<open>
  C26.  \<open>wc\<close> counts.  However the input arrives in portions, \<open>wc\<close>
  prints the number of newlines, the number of positions where a word starts and the number
  of bytes of the whole input, and the name: a word cut in two by a buffer boundary counts once.
\<close>

theorem wc_counts:
  assumes "[] \<notin> set (portions s fd)" "concat (portions s fd) = bs" "length bs < k"
  shows "run stream_call (wc k fd nm) s =
    (Done (), emit 1 (uprintint_digits (of_nat (count_list bs 10)) 10 True @ [32] @ uprintint_digits (of_nat (card (word_starts bs))) 10 True @ [32] @
        uprintint_digits (of_nat (length bs)) 10 True @ [32] @ cstr nm @ [10]) (s\<lparr>portions := (portions s)(fd := [])\<rparr>))"
proof -
  have loop: "run stream_call (wc_loop k fd nm (wc_count as (0, 0, 0, False))) s =
      (let (l, w, c, _) = wc_count (as @ concat (portions s fd)) (0, 0, 0, False) in
       (Done (), emit 1 (formatted False (cstr (litn ''%d %d %d %s'')) [PInt l, PInt w, PInt c, PS nm]) (s\<lparr>portions := (portions s)(fd := [])\<rparr>)))"
    if "[] \<notin> set (portions s fd)" "length (concat (portions s fd)) < k" for as
    using that
  proof (induction k arbitrary: s as)
    case (Suc k)
    show ?case
    proof (cases "portions s fd = []")
      case True
      then show ?thesis by (simp add: fun_upd_idem case_prod_beta Let_def)
    next
      case False
      obtain b bs ps where r: "fst (stream_call (Uread fd 512) s) = \<lparr>rv = int (length (b # bs)), rbytes = b # bs, rints = []\<rparr>"
        "snd (stream_call (Uread fd 512) s) = s\<lparr>portions := (portions s)(fd := ps)\<rparr>" "concat (portions s fd) = b # bs @ concat ps" "[] \<notin> set ps"
        by (rule stream_read[OF Suc.prems(1) False, of 512]) auto
      let ?s = "s\<lparr>portions := (portions s)(fd := ps)\<rparr>"
      have "run stream_call (wc_loop (Suc k) fd nm (wc_count as (0, 0, 0, False))) s =
          run stream_call (wc_loop k fd nm (wc_count (as @ b # bs) (0, 0, 0, False))) ?s"
        using r(1,2) by (simp del: stream_call.simps(1) wc_count.simps(2) add: Let_def wc_count_append)
      then show ?thesis using Suc.IH[of ?s "as @ b # bs"] Suc.prems(2) r(3,4) by (simp cong: if_cong)
    qed
  qed simp
  have f: "cstr (litn ''%d %d %d %s'') = [37, 100, 32, 37, 100, 32, 37, 100, 32, 37, 115, 10]"
    by (simp add: litn_def lit_def)
  show ?thesis
    using loop[of "[]", unfolded wc_count.simps(1)] assms by (simp add: wc_def f wc_count_eq parg_int_def parg_str_def del: wc_count.simps(2))
qed

lemma wc_counts_witness:
  "snd (run stream_call (wc 10 3 (lit ''f'')) \<lparr>portions = (\<lambda>_. [])(3 := [[104, 105], [33, 10], [97, 10]]), written = \<lambda>_. []\<rparr>) =
     \<lparr>portions = \<lambda>_. [], written = (\<lambda>_. [])(1 := litn ''2 2 6 f'')\<rparr>"
proof -
  have w: "word_starts [104, 105, 33, 10, 97, 10] = {0, 4}"
    by (simp add: word_starts_code space_def upt_rec nth_Cons') (simp add: numeral_eq_Suc)
  show ?thesis
    using wc_counts[of "\<lparr>portions = (\<lambda>_. [])(3 := [[104, 105], [33, 10], [97, 10]]), written = \<lambda>_. []\<rparr>" 3 "[104, 105, 33, 10, 97, 10]" 10 "lit ''f''"] w
    by (simp add: emit_def fun_upd_idem lit_def litn_def uprintint_digits_def udigits_rev.simps udigit_def)
qed

end
