(* ===== verification/Grep.thy ===== *)
theory Grep
  imports User
begin

text \<open>
  \<open>user/grep.c\<close>: the matcher, and the loop that cuts the input into lines.
  A string is the list of its bytes before the NUL; \<open>chr\<close> of the empty list is the NUL.
\<close>

section \<open>The matcher\<close>

function (sequential) matchhere :: "byte list \<Rightarrow> byte list \<Rightarrow> bool"
  and matchstar :: "byte \<Rightarrow> byte list \<Rightarrow> byte list \<Rightarrow> bool" where
  "matchhere re tx =
     (if re = [] then True
      else if chr (tl re) = 42 then matchstar (chr re) (tl (tl re)) tx
      else if chr re = 36 \<and> tl re = [] then tx = []
      else if tx \<noteq> [] \<and> (chr re = 46 \<or> chr re = chr tx) then matchhere (tl re) (tl tx)
      else False)"
| "matchstar c re tx =
     (if matchhere re tx then True
      else if tx \<noteq> [] \<and> (chr tx = c \<or> c = 46) then matchstar c re (tl tx)
      else False)"
  by pat_completeness auto
termination
proof (relation "measures [\<lambda>x. case x of Inl (re, _) \<Rightarrow> 2 * length re | Inr (_, re, _) \<Rightarrow> 2 * length re + 1,
    \<lambda>x. case x of Inl (_, t) \<Rightarrow> length t | Inr (_, _, t) \<Rightarrow> length t]", goal_cases)
  case (2 re tx)
  then obtain a b r where "re = a # b # r" by (cases re; cases "tl re") (auto simp: chr_def)
  then show ?case by simp
qed (auto simp: neq_Nil_conv)

declare matchhere.simps [simp del] matchstar.simps [simp del]

fun match_from :: "byte list \<Rightarrow> byte list \<Rightarrow> bool" where
  "match_from re [] = matchhere re []"
| "match_from re (c # tx) = (if matchhere re (c # tx) then True else match_from re tx)"

definition match :: "byte list \<Rightarrow> byte list \<Rightarrow> bool" where
  "match re tx = (if chr re = 94 then matchhere (tl re) tx else match_from re tx)"

section \<open>Lines\<close>

text \<open>
  The inner loop, on the text from \<open>p\<close> up to the NUL that ends the buffer: the
  bytes that it writes, one \<open>write\<close> a line, and what is left after the last newline.
\<close>

function grep_lines :: "byte list \<Rightarrow> byte list \<Rightarrow> byte list prog" where
  "grep_lines pat p =
     (case strchr p 10 of
        None \<Rightarrow> Value p
      | Some q \<Rightarrow>
          if match pat (take q p)
          then Call (Uwrite 1 (take (q + 1) p)) (\<lambda>_. grep_lines pat (drop (q + 1) p))
          else grep_lines pat (drop (q + 1) p))"
  by pat_completeness auto
termination
proof (relation "measure (length o snd)", goal_cases)
  case (2 pat p q x)
  then have "p \<noteq> []" by (cases p) auto
  then show ?case by simp
next
  case (3 pat p q)
  then have "p \<noteq> []" by (cases p) auto
  then show ?case by simp
qed simp

declare grep_lines.simps [simp del]

text \<open>
  The outer loop: \<open>b\<close> is what is left in \<open>buf\<close>, its length is \<open>m\<close>.
\<close>

fun grep_loop :: "nat \<Rightarrow> byte list \<Rightarrow> int \<Rightarrow> byte list \<Rightarrow> unit prog" where
  "grep_loop 0 pat fd b = Hang"
| "grep_loop (Suc k) pat fd b =
     Call (Uread fd (1024 - int (length b) - 1)) (\<lambda>r.
     if rv r > 0
     then
       let b = b @ take (nat (rv r)) (rbytes r) in
       ubind (grep_lines pat b) (\<lambda>p.
       grep_loop k pat fd (if length p = length b then [] else p))
     else Value ())"

definition grep :: "nat \<Rightarrow> byte list \<Rightarrow> int \<Rightarrow> unit prog" where
  "grep k pat fd = grep_loop k pat fd []"

fun grep_files :: "nat \<Rightarrow> byte list \<Rightarrow> byte list list \<Rightarrow> unit prog" where
  "grep_files k pat [] = Exit"
| "grep_files k pat (a # as) =
     Call (Uopen a 0) (\<lambda>r.
     if rv r < 0 then ubind (printf 1 (litn ''grep: cannot open %s'') [PS a]) (\<lambda>_. Exit)
     else
       ubind (grep k pat (rv r)) (\<lambda>_.
       Call (Uclose (rv r)) (\<lambda>_. grep_files k pat as)))"

definition grep_main :: "nat \<Rightarrow> byte list list \<Rightarrow> unit prog" where
  "grep_main k argv =
     (if length argv \<le> 1 then ubind (printf 2 (litn ''usage: grep pattern [file ...]'') []) (\<lambda>_. Exit)
      else if length argv \<le> 2 then ubind (grep k (argv ! 1) 0) (\<lambda>_. Exit)
      else grep_files k (argv ! 1) (drop 2 argv))"

section \<open>What a pattern means\<close>

text \<open>A pattern is a sequence of items: one character, a repetition, or the end of the text.\<close>

datatype item = One byte | Star byte | End

fun items :: "byte list \<Rightarrow> item list" where
  "items [] = []"
| "items [c] = (if c = 36 then [End] else [One c])"
| "items (c # d # re) = (if d = 42 then Star c # items re else One c # items (d # re))"

definition fits :: "byte \<Rightarrow> byte \<Rightarrow> bool" where
  "fits c x \<longleftrightarrow> c = 46 \<or> x = c"

fun begins :: "item list \<Rightarrow> byte list \<Rightarrow> bool" where
  "begins [] tx = True"
| "begins (One c # rs) tx = (\<exists>x t. tx = x # t \<and> fits c x \<and> begins rs t)"
| "begins (Star c # rs) tx = (\<exists>u v. tx = u @ v \<and> (\<forall>x\<in>set u. fits c x) \<and> begins rs v)"
| "begins (End # rs) tx = (tx = [])"

lemma matchstar_eq:
  assumes "\<And>t. matchhere re t = begins rs t"
  shows "matchstar c re tx = begins (Star c # rs) tx"
proof (induction tx)
  case Nil
  then show ?case using assms by (simp add: matchstar.simps)
next
  case (Cons x t)
  have "begins (Star c # rs) (x # t) \<longleftrightarrow> begins rs (x # t) \<or> fits c x \<and> begins (Star c # rs) t" (is "?l = ?r")
  proof
    assume ?l
    then obtain u v where u: "x # t = u @ v" "\<forall>y\<in>set u. fits c y" "begins rs v" by auto
    then show ?r by (cases u) auto
  next
    assume ?r
    then show ?l
    proof
      assume "begins rs (x # t)"
      then show ?l unfolding begins.simps by (intro exI[of _ "[]"] exI[of _ "x # t"]) simp
    next
      assume "fits c x \<and> begins (Star c # rs) t"
      then obtain u v where "t = u @ v" "\<forall>y\<in>set u. fits c y" "begins rs v" "fits c x" by auto
      then show ?l unfolding begins.simps by (intro exI[of _ "x # u"] exI[of _ v]) simp
    qed
  qed
  then show ?case using Cons assms by (simp add: matchstar.simps[of c re "x # t"] chr_def fits_def)
qed

lemma matchhere_eq: "matchhere re tx = begins (items re) tx"
proof (induction re arbitrary: tx rule: items.induct)
  case 1
  then show ?case by (simp add: matchhere.simps)
next
  case (2 c)
  then show ?case by (subst matchhere.simps) (auto simp: chr_def fits_def matchhere.simps[of "[]"] neq_Nil_conv)
next
  case (3 c d re)
  then show ?case using matchstar_eq[of re "items re" c tx] by (subst matchhere.simps) (auto simp: chr_def fits_def neq_Nil_conv)
qed

text \<open>
  C24.  The matcher decides the meaning of its patterns.  A pattern that starts with a
  caret matches a text that begins with what the rest of the pattern describes; any other
  pattern matches a text of which some suffix does.  \<open>begins\<close> gives the items of a
  pattern their meaning: a character or a dot stands for one character, a starred one for any
  number of them, and a final dollar for the end of the text.
\<close>

theorem match_meaning:
  "match re tx \<longleftrightarrow> (if chr re = 94 then begins (items (tl re)) tx else \<exists>u v. tx = u @ v \<and> begins (items re) v)"
proof -
  have "match_from re tx \<longleftrightarrow> (\<exists>u v. tx = u @ v \<and> begins (items re) v)"
  proof (induction tx)
    case Nil
    then show ?case by (simp add: matchhere_eq)
  next
    case (Cons x t)
    have "(\<exists>u v. x # t = u @ v \<and> begins (items re) v) \<longleftrightarrow> begins (items re) (x # t) \<or> (\<exists>u v. t = u @ v \<and> begins (items re) v)"
      by (metis append_Cons append_Nil append_eq_Cons_conv)
    then show ?case using Cons by (simp add: matchhere_eq)
  qed
  then show ?thesis by (simp add: match_def matchhere_eq)
qed

section \<open>What grep prints\<close>

text \<open>The lines of a text that end with a newline, without it, and what follows the last of them.\<close>

function full_lines :: "byte list \<Rightarrow> byte list list" where
  "full_lines p = (if 10 \<in> set p then takeWhile (\<lambda>c. c \<noteq> 10) p # full_lines (tl (dropWhile (\<lambda>c. c \<noteq> 10) p)) else [])"
  by pat_completeness auto
termination
proof (relation "measure length")
  fix p :: "byte list"
  assume "10 \<in> set p"
  then have "dropWhile (\<lambda>c. c \<noteq> 10) p \<noteq> []" by (auto simp: dropWhile_eq_Nil_conv)
  then show "(tl (dropWhile (\<lambda>c. c \<noteq> 10) p), p) \<in> measure length"
    using length_dropWhile_le[of "\<lambda>c. c \<noteq> 10" p] by (cases "dropWhile (\<lambda>c. c \<noteq> 10) p") auto
qed simp

declare full_lines.simps [simp del]

definition unfinished :: "byte list \<Rightarrow> byte list" where
  "unfinished p = rev (takeWhile (\<lambda>c. c \<noteq> 10) (rev p))"

definition printed :: "byte list \<Rightarrow> byte list \<Rightarrow> byte list" where
  "printed pat p = concat (map (\<lambda>l. l @ [10]) (filter (match pat) (full_lines p)))"

lemma full_lines_none: "10 \<notin> set p \<Longrightarrow> full_lines p = []"
  by (simp add: full_lines.simps)

lemma full_lines_line: "10 \<notin> set l \<Longrightarrow> full_lines (l @ 10 # p) = l # full_lines p"
proof -
  assume l: "10 \<notin> set l"
  then have "takeWhile (\<lambda>c. c \<noteq> 10) (l @ 10 # p) = l" "dropWhile (\<lambda>c. c \<noteq> 10) (l @ 10 # p) = 10 # p"
    by (induction l) auto
  then show ?thesis by (subst full_lines.simps) simp
qed

lemma unfinished_none: "10 \<notin> set p \<Longrightarrow> unfinished p = p"
proof -
  assume "10 \<notin> set p"
  then have "takeWhile (\<lambda>c. c \<noteq> 10) (rev p) = rev p" by (intro takeWhile_eq_all_conv[THEN iffD2]) auto
  then show ?thesis by (simp only: unfinished_def rev_rev_ident)
qed

lemma unfinished_line: "unfinished (l @ 10 # p) = unfinished p"
  by (simp add: unfinished_def takeWhile_tail)

lemma unfinished_no_nl: "10 \<notin> set (unfinished p)"
  unfolding unfinished_def by (auto dest: set_takeWhileD)

text \<open>Every text is a sequence of lines and an unfinished one.\<close>

lemma lines_induct [case_names unfinished line]:
  assumes "\<And>p. 10 \<notin> set p \<Longrightarrow> P p" "\<And>l p. 10 \<notin> set l \<Longrightarrow> P p \<Longrightarrow> P (l @ 10 # p)"
  shows "P p"
proof (induction p rule: length_induct)
  case (1 p)
  show ?case
  proof (cases "10 \<in> set p")
    case True
    then obtain l q where "p = l @ 10 # q" "10 \<notin> set l" using split_list_first by fastforce
    then show ?thesis using 1 assms(2) by simp
  qed (rule assms(1))
qed

lemma full_lines_append: "full_lines (p @ q) = full_lines p @ full_lines (unfinished p @ q)"
  by (induction p rule: lines_induct) (simp_all add: full_lines_none unfinished_none full_lines_line unfinished_line)

lemma unfinished_length: "10 \<in> set p \<Longrightarrow> length (unfinished p) < length p"
proof (induction p rule: lines_induct)
  case (line l p)
  have "length (unfinished p) \<le> length p" using length_takeWhile_le[of "\<lambda>c. c \<noteq> 10" "rev p"] by (simp add: unfinished_def)
  then show ?case by (simp add: unfinished_line)
qed simp

lemma strchr_nl: "10 \<notin> set l \<Longrightarrow> 0 \<notin> set l \<Longrightarrow> strchr (l @ 10 # p) 10 = Some (length l)"
  by (induction l) auto

lemma strchr_none: "10 \<notin> set l \<Longrightarrow> strchr l 10 = None"
  by (induction l) auto

lemma run_grep_lines:
  "0 \<notin> set p \<Longrightarrow> run stream_call (grep_lines pat p) s = (Done (unfinished p), emit 1 (printed pat p) s)"
proof (induction p arbitrary: s rule: lines_induct)
  case (unfinished p)
  then show ?case by (subst grep_lines.simps) (simp add: strchr_none unfinished_none printed_def full_lines_none)
next
  case (line l p)
  then have q: "strchr (l @ 10 # p) 10 = Some (length l)" by (simp add: strchr_nl)
  show ?case
    using line q by (subst grep_lines.simps) (auto simp: unfinished_line printed_def full_lines_line emit_def)
qed

lemma grep_loop_prints:
  assumes "portions s fd = (if r = [] then [] else [r])" "10 \<notin> set b" "length b < 1023" "0 \<notin> set (b @ r)"
    "\<forall>l\<in>set (full_lines (b @ r)). length l < 1023" "length r < k"
  shows "run stream_call (grep_loop k pat fd b) s = (Done (), emit 1 (printed pat (b @ r)) (s\<lparr>portions := (portions s)(fd := [])\<rparr>))"
  using assms
proof (induction k arbitrary: s b r)
  case (Suc k)
  show ?case
  proof (cases "r = []")
    case True
    then show ?thesis using Suc.prems(1,2) by (simp add: printed_def full_lines_none fun_upd_idem)
  next
    case False
    let ?n = "1023 - length b"
    let ?b = "b @ take ?n r" and ?r = "drop ?n r"
    have br: "b @ r = ?b @ ?r" by simp
    have n: "nat (1024 - int (length b) - 1) = ?n" "0 < ?n" using Suc.prems(3) by simp_all
    define s' where "s' = s\<lparr>portions := (portions s)(fd := (if ?r = [] then [] else [?r]))\<rparr>"
    have rd: "stream_call (Uread fd (1024 - int (length b) - 1)) s = (\<lparr>rv = int (length (take ?n r)), rbytes = take ?n r, rints = []\<rparr>, s')"
      using Suc.prems(1) False n by (simp add: s'_def)
    have nz: "0 \<notin> set ?b" using Suc.prems(4) by (auto dest: in_set_takeD)
    define b' where "b' = (if length (unfinished ?b) = length ?b then [] else unfinished ?b)"
    have tk: "take (min (length r) ?n) r = take ?n r" by (simp add: min_def)
    have step: "run stream_call (grep_loop (Suc k) pat fd b) s = run stream_call (grep_loop k pat fd b') (emit 1 (printed pat ?b) s')"
      using rd False n(2) by (simp add: tk run_bind run_grep_lines[OF nz] b'_def Let_def del: stream_call.simps)
    have key: "printed pat (b @ r) = printed pat ?b @ printed pat (b' @ ?r) \<and> length b' < 1023 \<and> 10 \<notin> set b' \<and>
        (\<forall>l\<in>set (full_lines (b' @ ?r)). length l < 1023)"
    proof (cases "10 \<in> set ?b")
      case True
      have "b' = unfinished ?b" using unfinished_length[OF True] by (simp add: b'_def)
      moreover have "length ?b \<le> 1023" using Suc.prems(3) by simp
      ultimately show ?thesis
        using unfinished_length[OF True] unfinished_no_nl[of ?b] full_lines_append[of ?b ?r] Suc.prems(5) unfolding br
        by (auto simp: printed_def)
    next
      case no: False
      then have b': "b' = []" by (simp add: b'_def unfinished_none)
      have "10 \<notin> set ?r"
      proof
        assume "10 \<in> set ?r"
        then obtain l q where l: "?r = l @ 10 # q" "10 \<notin> set l" using split_list_first by fastforce
        then have "length r > ?n" by (metis append_is_Nil_conv drop_all linorder_not_less list.distinct(1))
        then have "length ?b = 1023" using Suc.prems(3) by simp
        moreover have "full_lines (b @ r) = (?b @ l) # full_lines q"
          using full_lines_line[of "?b @ l" q] no l unfolding br by simp
        ultimately show False using Suc.prems(5) by simp
      qed
      moreover from this have "10 \<notin> set (b @ r)" using no unfolding br set_append by blast
      ultimately show ?thesis using no b' by (simp add: printed_def full_lines_none)
    qed
    have "run stream_call (grep_loop k pat fd b') (emit 1 (printed pat ?b) s') =
        (Done (), emit 1 (printed pat (b' @ ?r)) ((emit 1 (printed pat ?b) s')\<lparr>portions := (portions (emit 1 (printed pat ?b) s'))(fd := [])\<rparr>))"
    proof (rule Suc.IH)
      show "portions (emit 1 (printed pat ?b) s') fd = (if ?r = [] then [] else [?r])" by (simp add: s'_def)
      show "0 \<notin> set (b' @ ?r)" using nz Suc.prems(4) by (auto simp: b'_def unfinished_def dest!: set_takeWhileD in_set_dropD)
      show "length ?r < k" using Suc.prems(6) False n(2) by (cases r) auto
    qed (use key in auto)
    then show ?thesis unfolding step by (simp add: key emit_def s'_def fun_upd_def cong: if_cong)
  qed
qed simp

text \<open>
  C23.  What \<open>grep\<close> prints of a file.  For a file without NUL bytes whose lines
  are shorter than the buffer, \<open>grep\<close> returns after printing the lines that match
  the pattern, each once, in order, with its newline, however the lines lie across the
  buffer's boundary.  It prints nothing of a last line that has no newline.
\<close>

theorem grep_prints_matches:
  assumes "portions s fd = [bs]" "bs \<noteq> []" "0 \<notin> set bs" "\<forall>l\<in>set (full_lines bs). length l < 1023" "length bs < k"
  shows "run stream_call (grep k pat fd) s =
    (Done (), emit 1 (concat (map (\<lambda>l. l @ [10]) (filter (match pat) (full_lines bs)))) (s\<lparr>portions := (portions s)(fd := [])\<rparr>))"
  using grep_loop_prints[of s fd bs "[]" k pat] assms by (simp add: grep_def printed_def)

lemma grep_prints_matches_witness:
  "snd (run stream_call (grep 20 (lit ''^a*b$'') 3) \<lparr>portions = (\<lambda>_. [])(3 := [litn ''aab'' @ litn ''abc'' @ litn ''b'']), written = \<lambda>_. []\<rparr>) =
     \<lparr>portions = \<lambda>_. [], written = (\<lambda>_. [])(1 := litn ''aab'' @ litn ''b'')\<rparr>"
proof -
  let ?bs = "litn ''aab'' @ litn ''abc'' @ litn ''b''"
  have l: "full_lines ?bs = [lit ''aab'', lit ''abc'', lit ''b'']"
    by (simp add: litn_def lit_def full_lines.simps)
  have m: "match (lit ''^a*b$'') (lit ''aab'')" "\<not> match (lit ''^a*b$'') (lit ''abc'')" "match (lit ''^a*b$'') (lit ''b'')"
    by (simp_all add: match_def lit_def chr_def matchhere.simps matchstar.simps)
  show ?thesis
    using grep_prints_matches[of "\<lparr>portions = (\<lambda>_. [])(3 := [?bs]), written = \<lambda>_. []\<rparr>" 3 ?bs 20 "lit ''^a*b$''"] l m
    by (simp add: emit_def fun_upd_idem lit_def litn_def)
qed

text \<open>
  A line that arrives in two portions, as it may from a pipe, is lost: when a read brings no
  newline the buffer is emptied.
\<close>

lemma grep_drops_partial_line:
  "snd (run stream_call (grep 5 (lit ''a'') 0) \<lparr>portions = (\<lambda>_. [])(0 := [lit ''a'', litn ''b'']), written = \<lambda>_. []\<rparr>) =
     \<lparr>portions = \<lambda>_. [], written = \<lambda>_. []\<rparr>"
proof -
  have 1: "run stream_call (grep_lines [97] [97]) s = (Done [97], s)" for s by (simp add: grep_lines.simps)
  have 2: "run stream_call (grep_lines [97] [98, 10]) s = (Done [], s)" for s
    by (simp add: grep_lines.simps match_def matchhere.simps chr_def)
  have "grep 5 = grep (Suc (Suc (Suc (Suc 1))))" by (simp add: numeral_eq_Suc)
  then show ?thesis by (simp add: grep_def lit_def litn_def run_bind 1 2 Let_def fun_upd_idem)
qed

end
