(* ===== verification/Shell.thy ===== *)
theory Shell
  imports User
begin

text \<open>
  The shell, \<open>user/sh.c\<close>: the parser, the commands it builds, and how they
  are run.

  The parser works on a line in a buffer.  A pointer into the buffer is an index, and the
  pointer \<open>ps\<close> that the routines advance is an argument and a part of the result.
  The structures that the constructors allocate are the nodes of a tree; a word is the pair
  of the indices of its start and its end.
\<close>

section \<open>Commands\<close>

definition MAXARGS :: nat where "MAXARGS = 10"

datatype cmd =
    EXEC "(nat \<times> nat) list"
  | REDIR cmd nat nat int int
  | PIPE cmd cmd
  | LIST cmd cmd
  | BACK cmd

section \<open>Tokens\<close>

definition whitespace :: "byte list" where "whitespace = [32, 9, 13, 10, 11]"
definition symbols :: "byte list" where "symbols = [60, 124, 62, 38, 59, 40, 41]"

text \<open>The character at an index; behind the end of the line is the NUL.\<close>

definition at :: "byte list \<Rightarrow> nat \<Rightarrow> byte" where
  "at s i = (if i < length s then s ! i else 0)"

function skip_space :: "byte list \<Rightarrow> nat \<Rightarrow> nat \<Rightarrow> nat" where
  "skip_space s es i = (if i < es \<and> strchr whitespace (at s i) \<noteq> None then skip_space s es (i + 1) else i)"
  by pat_completeness auto
termination
  by (relation "measure (\<lambda>(_, es, i). es - i)") auto

function skip_word :: "byte list \<Rightarrow> nat \<Rightarrow> nat \<Rightarrow> nat" where
  "skip_word s es i =
     (if i < es \<and> strchr whitespace (at s i) = None \<and> strchr symbols (at s i) = None then skip_word s es (i + 1) else i)"
  by pat_completeness auto
termination
  by (relation "measure (\<lambda>(_, es, i). es - i)") auto

declare skip_space.simps [simp del] skip_word.simps [simp del]

text \<open>The token, the indices \<open>q\<close> and \<open>eq\<close>, and the new \<open>ps\<close>.\<close>

definition gettoken :: "byte list \<Rightarrow> nat \<Rightarrow> nat \<Rightarrow> byte \<times> nat \<times> nat \<times> nat" where
  "gettoken s es ps =
     (let q = skip_space s es ps;
          c = at s q;
          (r, e) =
            (if c = 0 then (0, q)
             else if c \<in> {124, 40, 41, 59, 38, 60} then (c, q + 1)
             else if c = 62 then if at s (q + 1) = 62 then (43, q + 2) else (62, q + 1)
             else (97, skip_word s es q)) in
      (r, q, e, skip_space s es e))"

definition peek :: "byte list \<Rightarrow> nat \<Rightarrow> nat \<Rightarrow> byte list \<Rightarrow> bool \<times> nat" where
  "peek s es ps toks =
     (let q = skip_space s es ps in (at s q \<noteq> 0 \<and> strchr toks (at s q) \<noteq> None, q))"

section \<open>The parser\<close>

text \<open>
  A routine returns, calls \<open>panic\<close>, or has used up the number of calls and rounds
  it was given.
\<close>

datatype 'a parsed = Parsed 'a nat | Syntax string | Unfinished

fun pbind :: "'a parsed \<Rightarrow> ('a \<Rightarrow> nat \<Rightarrow> 'b parsed) \<Rightarrow> 'b parsed" where
  "pbind (Parsed x ps) f = f x ps"
| "pbind (Syntax m) f = Syntax m"
| "pbind Unfinished f = Unfinished"

text \<open>
  \<open>parseredirs\<close> returns the redirections it finds, with the mode and the descriptor;
  \<open>redirected\<close> puts them around a command, the first one innermost.
\<close>

type_synonym redir = "nat \<times> nat \<times> int \<times> int"

definition redirected :: "cmd \<Rightarrow> redir list \<Rightarrow> cmd" where
  "redirected c rs = foldl (\<lambda>c (q, e, md, fd). REDIR c q e md fd) c rs"

fun parseredirs :: "nat \<Rightarrow> byte list \<Rightarrow> nat \<Rightarrow> nat \<Rightarrow> redir list parsed" where
  "parseredirs 0 s es ps = Unfinished"
| "parseredirs (Suc n) s es ps =
     (let (b, ps) = peek s es ps [60, 62] in
      if \<not> b then Parsed [] ps
      else
        let (tok, _, _, ps) = gettoken s es ps;
            (w, q, e, ps) = gettoken s es ps in
        if w \<noteq> 97 then Syntax ''missing file for redirection''
        else
          pbind (parseredirs n s es ps) (\<lambda>rs ps.
          Parsed
            (if tok = 60 then (q, e, 0, 0) # rs
             else if tok = 62 \<or> tok = 43 then (q, e, 0x200 + 1, 1) # rs
             else rs) ps))"

text \<open>
  The loop of \<open>parseexec\<close>: the words and the redirections that it adds to those
  it has.  The words go into the command that the redirections stand around.
\<close>

fun parseargs :: "nat \<Rightarrow> byte list \<Rightarrow> nat \<Rightarrow> nat \<Rightarrow> (nat \<times> nat) list \<Rightarrow> redir list \<Rightarrow> cmd parsed" where
  "parseargs 0 s es ps as rs = Unfinished"
| "parseargs (Suc n) s es ps as rs =
     (let (b, ps) = peek s es ps [124, 41, 38, 59] in
      if b then Parsed (redirected (EXEC as) rs) ps
      else
        let (tok, q, e, ps) = gettoken s es ps in
        if tok = 0 then Parsed (redirected (EXEC as) rs) ps
        else if tok \<noteq> 97 then Syntax ''syntax''
        else if length as + 1 \<ge> MAXARGS then Syntax ''too many args''
        else
          pbind (parseredirs n s es ps) (\<lambda>rs' ps.
          parseargs n s es ps (as @ [(q, e)]) (rs @ rs')))"

text \<open>The loop of \<open>parseline\<close> over ampersands.\<close>

fun parseback :: "nat \<Rightarrow> byte list \<Rightarrow> nat \<Rightarrow> nat \<Rightarrow> cmd \<Rightarrow> cmd parsed" where
  "parseback 0 s es ps c = Unfinished"
| "parseback (Suc n) s es ps c =
     (let (b, ps) = peek s es ps [38] in
      if b then let (_, _, _, ps) = gettoken s es ps in parseback n s es ps (BACK c)
      else Parsed c ps)"

text \<open>
  The four routines call each other.  Each takes the ones it calls as arguments, and
  \<open>parse\<close> ties the knot.
\<close>

type_synonym parser = "byte list \<Rightarrow> nat \<Rightarrow> nat \<Rightarrow> cmd parsed"

definition parseline :: "nat \<Rightarrow> parser \<Rightarrow> parser \<Rightarrow> parser" where
  "parseline n pipe_of line_of s es ps =
     pbind (pipe_of s es ps) (\<lambda>c ps.
     pbind (parseback n s es ps c) (\<lambda>c ps.
     let (b, ps) = peek s es ps [59] in
     if b
     then let (_, _, _, ps) = gettoken s es ps in pbind (line_of s es ps) (\<lambda>d ps. Parsed (LIST c d) ps)
     else Parsed c ps))"

definition parsepipe :: "parser \<Rightarrow> parser \<Rightarrow> parser" where
  "parsepipe exec_of pipe_of s es ps =
     pbind (exec_of s es ps) (\<lambda>c ps.
     let (b, ps) = peek s es ps [124] in
     if b
     then let (_, _, _, ps) = gettoken s es ps in pbind (pipe_of s es ps) (\<lambda>d ps. Parsed (PIPE c d) ps)
     else Parsed c ps)"

definition parseblock :: "nat \<Rightarrow> parser \<Rightarrow> parser" where
  "parseblock n line_of s es ps =
     (let (b, ps) = peek s es ps [40] in
      if \<not> b then Syntax ''parseblock''
      else
        let (_, _, _, ps) = gettoken s es ps in
        pbind (line_of s es ps) (\<lambda>c ps.
        let (b, ps) = peek s es ps [41] in
        if \<not> b then Syntax ''syntax - missing )''
        else
          let (_, _, _, ps) = gettoken s es ps in
          pbind (parseredirs n s es ps) (\<lambda>rs ps. Parsed (redirected c rs) ps)))"

definition parseexec :: "nat \<Rightarrow> parser \<Rightarrow> parser" where
  "parseexec n block_of s es ps =
     (let (b, ps) = peek s es ps [40] in
      if b then block_of s es ps
      else
        pbind (parseredirs n s es ps) (\<lambda>rs ps.
        parseargs n s es ps [] rs))"

datatype clause = Line | Pipe | Block | Exec

primrec parse :: "nat \<Rightarrow> clause \<Rightarrow> parser" where
  "parse 0 nt = (\<lambda>s es ps. Unfinished)"
| "parse (Suc n) nt =
     (case nt of
        Line \<Rightarrow> parseline n (parse n Pipe) (parse n Line)
      | Pipe \<Rightarrow> parsepipe (parse n Exec) (parse n Pipe)
      | Block \<Rightarrow> parseblock n (parse n Line)
      | Exec \<Rightarrow> parseexec n (parse n Block))"

text \<open>NUL bytes are written behind the words; the result is the buffer.\<close>

fun nulterminate :: "cmd \<Rightarrow> byte list \<Rightarrow> byte list" where
  "nulterminate (EXEC as) s = foldl (\<lambda>s (_, e). s[e := 0]) s as"
| "nulterminate (REDIR c q e md fd) s = (nulterminate c s)[e := 0]"
| "nulterminate (PIPE c d) s = nulterminate d (nulterminate c s)"
| "nulterminate (LIST c d) s = nulterminate d (nulterminate c s)"
| "nulterminate (BACK c) s = nulterminate c s"

definition sh_panic :: "string \<Rightarrow> 'a prog" where
  "sh_panic m = ubind (printf 2 (litn ''%s'') [PS (lit m)]) (\<lambda>_. Exit)"

definition parsecmd :: "nat \<Rightarrow> byte list \<Rightarrow> (cmd \<times> byte list) prog" where
  "parsecmd n s =
     (let es = strlen s in
      case parse n Line s es 0 of
        Syntax m \<Rightarrow> sh_panic m
      | Unfinished \<Rightarrow> Hang
      | Parsed c ps \<Rightarrow>
          let (_, ps) = peek s es ps [] in
          if ps \<noteq> es
          then ubind (printf 2 (litn ''leftovers: %s'') [PS (drop ps s)]) (\<lambda>_. sh_panic ''syntax'')
          else Value (c, nulterminate c s))"

section \<open>Running commands\<close>

definition fork1 :: "int prog" where
  "fork1 = Call Ufork (\<lambda>r. if rv r = - 1 then sh_panic ''fork'' else Value (rv r))"

text \<open>The string that a word of the command points to.\<close>

definition word_at :: "byte list \<Rightarrow> nat \<Rightarrow> byte list" where
  "word_at buf q = cstr (drop q buf)"

fun runcmd :: "byte list \<Rightarrow> cmd \<Rightarrow> unit prog" where
  "runcmd buf (EXEC as) =
     (if as = [] then Exit
      else
        let argv = map (\<lambda>(q, _). word_at buf q) as in
        Call (Uexec (hd argv) argv) (\<lambda>_.
        ubind (printf 2 (litn ''exec %s failed'') [PS (hd argv)]) (\<lambda>_. Exit)))"
| "runcmd buf (REDIR c q e md fd) =
     Call (Uclose fd) (\<lambda>_.
     Call (Uopen (word_at buf q) md) (\<lambda>r.
     if rv r < 0 then ubind (printf 2 (litn ''open %s failed'') [PS (word_at buf q)]) (\<lambda>_. Exit)
     else runcmd buf c))"
| "runcmd buf (LIST c d) =
     ubind fork1 (\<lambda>n.
     if n = 0 then runcmd buf c
     else Call Uwait (\<lambda>_. runcmd buf d))"
| "runcmd buf (PIPE c d) =
     Call Upipe (\<lambda>r.
     if rv r < 0 then sh_panic ''pipe''
     else
       let p0 = rints r ! 0; p1 = rints r ! 1 in
       ubind fork1 (\<lambda>n.
       if n = 0
       then Call (Uclose 1) (\<lambda>_. Call (Udup p1) (\<lambda>_. Call (Uclose p0) (\<lambda>_. Call (Uclose p1) (\<lambda>_. runcmd buf c))))
       else
         ubind fork1 (\<lambda>n.
         if n = 0
         then Call (Uclose 0) (\<lambda>_. Call (Udup p0) (\<lambda>_. Call (Uclose p0) (\<lambda>_. Call (Uclose p1) (\<lambda>_. runcmd buf d))))
         else Call (Uclose p0) (\<lambda>_. Call (Uclose p1) (\<lambda>_. Call Uwait (\<lambda>_. Call Uwait (\<lambda>_. Exit)))))))"
| "runcmd buf (BACK c) =
     ubind fork1 (\<lambda>n. if n = 0 then runcmd buf c else Exit)"

definition getcmd :: "byte list \<Rightarrow> (int \<times> byte list) prog" where
  "getcmd buf =
     ubind (printf 2 (lit ''$ '') []) (\<lambda>_.
     ubind (gets (replicate (length buf) 0) (int (length buf))) (\<lambda>buf.
     Value (if at buf 0 = 0 then - 1 else 0, buf)))"

fun sh_open :: "nat \<Rightarrow> unit prog" where
  "sh_open 0 = Hang"
| "sh_open (Suc k) =
     Call (Uopen (lit ''console'') 2) (\<lambda>r.
     if rv r < 0 then Value ()
     else if rv r \<ge> 3 then Call (Uclose (rv r)) (\<lambda>_. Value ())
     else sh_open k)"

text \<open>The loop over commands, with the number of them; \<open>n\<close> is the parser's bound.\<close>

fun sh_loop :: "nat \<Rightarrow> nat \<Rightarrow> byte list \<Rightarrow> unit prog" where
  "sh_loop n 0 buf = Hang"
| "sh_loop n (Suc k) buf =
     ubind (getcmd buf) (\<lambda>(m, buf).
     if m < 0 then Exit
     else if at buf 0 = 99 \<and> at buf 1 = 100 \<and> at buf 2 = 32
     then
       let buf = buf[strlen buf - 1 := 0] in
       Call (Uchdir (word_at buf 3)) (\<lambda>r.
       if rv r < 0 then ubind (printf 2 (litn ''cannot cd %s'') [PS (word_at buf 3)]) (\<lambda>_. sh_loop n k buf)
       else sh_loop n k buf)
     else
       ubind fork1 (\<lambda>p.
       if p = 0 then ubind (parsecmd n buf) (\<lambda>(c, buf). runcmd buf c)
       else Call Uwait (\<lambda>_. sh_loop n k buf)))"

definition sh_main :: "nat \<Rightarrow> nat \<Rightarrow> nat \<Rightarrow> unit prog" where
  "sh_main o' n k = ubind (sh_open o') (\<lambda>_. sh_loop n k (replicate 100 0))"

section \<open>The parser stops\<close>

text \<open>The line ends with a NUL at \<open>es\<close>.\<close>

definition ends_at :: "byte list \<Rightarrow> nat \<Rightarrow> bool" where
  "ends_at s es \<longleftrightarrow> es < length s \<and> s ! es = 0"

definition wordchar :: "byte \<Rightarrow> bool" where
  "wordchar c \<longleftrightarrow> strchr whitespace c = None \<and> strchr symbols c = None"

text \<open>A word of the line, as far as it goes.\<close>

definition is_word :: "byte list \<Rightarrow> nat \<Rightarrow> nat \<times> nat \<Rightarrow> bool" where
  "is_word s es w \<longleftrightarrow> (case w of (q, e) \<Rightarrow>
     q < e \<and> e \<le> es \<and> (\<forall>i. q \<le> i \<longrightarrow> i < e \<longrightarrow> wordchar (s ! i)) \<and> (e < es \<longrightarrow> \<not> wordchar (s ! e)))"

lemma skip_space_bounds: "i \<le> es \<Longrightarrow> i \<le> skip_space s es i \<and> skip_space s es i \<le> es"
proof (induction s es i rule: skip_space.induct)
  case (1 s es i)
  then show ?case by (subst skip_space.simps, subst (2) skip_space.simps) auto
qed

lemma skip_space_stops: "i \<le> es \<Longrightarrow> skip_space s es i < es \<Longrightarrow> strchr whitespace (at s (skip_space s es i)) = None"
proof (induction s es i rule: skip_space.induct)
  case (1 s es i)
  then show ?case by (cases "i < es \<and> strchr whitespace (at s i) \<noteq> None") (auto simp: skip_space.simps[of s es i])
qed

lemma skip_word_word:
  "i \<le> es \<Longrightarrow> i \<le> skip_word s es i \<and> skip_word s es i \<le> es \<and> (\<forall>j. i \<le> j \<longrightarrow> j < skip_word s es i \<longrightarrow> wordchar (at s j)) \<and>
     (skip_word s es i < es \<longrightarrow> \<not> wordchar (at s (skip_word s es i)))"
proof (induction s es i rule: skip_word.induct)
  case (1 s es i)
  show ?case
  proof (cases "i < es \<and> strchr whitespace (at s i) = None \<and> strchr symbols (at s i) = None")
    case True
    then have e: "skip_word s es i = skip_word s es (i + 1)" by (simp add: skip_word.simps[of s es i])
    have w: "wordchar (at s i)" using True by (simp add: wordchar_def)
    show ?thesis unfolding e using 1 True w by (metis Suc_eq_plus1 Suc_leI le_antisym not_less_eq_eq Suc_leD)
  next
    case False
    then show ?thesis using "1.prems" by (auto simp: skip_word.simps[of s es i] wordchar_def)
  qed
qed

lemma skip_word_less: "i < es \<Longrightarrow> wordchar (at s i) \<Longrightarrow> i < skip_word s es i"
  using skip_word_word[of "i + 1" es s] by (subst skip_word.simps) (auto simp: wordchar_def)

text \<open>A token that is not the end takes at least one character.\<close>

lemma gettoken_fine:
  assumes "ends_at s es" "ps \<le> es" "gettoken s es ps = (r, q, e, p)"
  shows "ps \<le> p \<and> p \<le> es \<and> (r \<noteq> 0 \<longrightarrow> ps < p) \<and> (r = 97 \<longrightarrow> is_word s es (q, e))"
proof -
  define i where "i = skip_space s es ps"
  have i: "ps \<le> i" "i \<le> es" "i < es \<Longrightarrow> strchr whitespace (at s i) = None"
    using skip_space_bounds[OF assms(2), of s] skip_space_stops[OF assms(2), of s] by (simp_all add: i_def)
  have z: "at s es = 0" using assms(1) by (simp add: ends_at_def at_def)
  have lt: "i < es" if "at s i \<noteq> 0" using that i(2) z by (metis le_neq_implies_less)
  have lt2: "i + 1 < es" if "at s (i + 1) = 62" "i < es"
  proof -
    have "i + 1 \<noteq> es" using that(1) z by auto
    then show ?thesis using that(2) by simp
  qed
  let ?w = "skip_word s es i"
  have w: "i < ?w" "is_word s es (i, ?w)" if "at s i \<noteq> 0" "at s i \<notin> {124, 40, 41, 59, 38, 60, 62}"
  proof -
    have "wordchar (at s i)" using that i(3)[OF lt[OF that(1)]] by (auto simp: wordchar_def symbols_def)
    then show "i < ?w" using skip_word_less lt[OF that(1)] by blast
    moreover have "at s j = s ! j" if "j < es" for j using that assms(1) by (simp add: at_def ends_at_def)
    ultimately show "is_word s es (i, ?w)" using skip_word_word[OF i(2), of s] by (auto simp: is_word_def)
  qed
  have wb: "?w \<le> es" using skip_word_word[OF i(2), of s] by simp
  have e: "e \<le> es \<and> i \<le> e \<and> (r \<noteq> 0 \<longrightarrow> i < e) \<and> (r = 97 \<longrightarrow> is_word s es (q, e))" "p = skip_space s es e"
    using assms(3) w wb i(2) lt lt2 unfolding gettoken_def Let_def i_def[symmetric] by (auto split: if_splits)
  then show ?thesis using skip_space_bounds[of e es s] i(1) by auto
qed

lemma peek_fine:
  assumes "ends_at s es" "ps \<le> es" "peek s es ps toks = (b, p)"
  shows "ps \<le> p \<and> p \<le> es \<and> (b \<longrightarrow> fst (gettoken s es p) \<noteq> 0)"
proof -
  have p: "p = skip_space s es ps" "b \<Longrightarrow> at s p \<noteq> 0" using assms(3) by (auto simp: peek_def Let_def)
  then have "ps \<le> p" "p \<le> es" using skip_space_bounds[OF assms(2), of s] by simp_all
  moreover have "skip_space s es p = p" using skip_space_stops[OF assms(2), of s] p(1) by (subst skip_space.simps) auto
  ultimately show ?thesis using p(2) by (auto simp: gettoken_def Let_def split: if_splits)
qed

text \<open>The words that a command refers to.\<close>

fun words :: "cmd \<Rightarrow> (nat \<times> nat) set" where
  "words (EXEC as) = set as"
| "words (REDIR c q e md fd) = insert (q, e) (words c)"
| "words (PIPE c d) = words c \<union> words d"
| "words (LIST c d) = words c \<union> words d"
| "words (BACK c) = words c"

lemma words_redirected: "words (redirected c rs) = words c \<union> (\<lambda>(q, e, _, _). (q, e)) ` set rs"
  unfolding redirected_def by (induction rs arbitrary: c) auto

text \<open>
  Commands as \<open>runcmd\<close> expects them: the arguments and the null pointer behind
  them fit \<open>argv\<close>, and a redirection opens the standard input for reading or the
  standard output for writing.
\<close>

fun wf_cmd :: "cmd \<Rightarrow> bool" where
  "wf_cmd (EXEC as) = (length as < MAXARGS)"
| "wf_cmd (REDIR c q e md fd) = (wf_cmd c \<and> (md, fd) \<in> {(0, 0), (0x201, 1)})"
| "wf_cmd (PIPE c d) = (wf_cmd c \<and> wf_cmd d)"
| "wf_cmd (LIST c d) = (wf_cmd c \<and> wf_cmd d)"
| "wf_cmd (BACK c) = wf_cmd c"

lemma wf_redirected: "wf_cmd (redirected c rs) \<longleftrightarrow> wf_cmd c \<and> (\<forall>(_, _, md, fd)\<in>set rs. (md, fd) \<in> {(0, 0), (0x201, 1)})"
  unfolding redirected_def by (induction rs arbitrary: c) auto

text \<open>
  \<open>fine Q es ps r\<close>: the routine stopped, within the line, and if it
  returned a value it satisfies \<open>Q\<close>.
\<close>

definition fine :: "('a \<Rightarrow> bool) \<Rightarrow> nat \<Rightarrow> nat \<Rightarrow> 'a parsed \<Rightarrow> bool" where
  "fine Q es ps r \<longleftrightarrow> (case r of Parsed x p \<Rightarrow> ps \<le> p \<and> p \<le> es \<and> Q x | Syntax _ \<Rightarrow> True | Unfinished \<Rightarrow> False)"

lemma fine_simps [simp]:
  "fine Q es ps (Parsed x p) \<longleftrightarrow> ps \<le> p \<and> p \<le> es \<and> Q x" "fine Q es ps (Syntax m)" "\<not> fine Q es ps Unfinished"
  by (simp_all add: fine_def)

lemma fine_bind:
  "fine P es ps r \<Longrightarrow> (\<And>x p. P x \<Longrightarrow> ps \<le> p \<Longrightarrow> p \<le> es \<Longrightarrow> fine Q es ps (f x p)) \<Longrightarrow> fine Q es ps (pbind r f)"
  by (cases r) simp_all

lemma fine_le: "fine Q es p r \<Longrightarrow> ps \<le> p \<Longrightarrow> fine Q es ps r"
  by (cases r) simp_all

definition ok_cmd :: "byte list \<Rightarrow> nat \<Rightarrow> cmd \<Rightarrow> bool" where
  "ok_cmd s es c \<longleftrightarrow> (\<forall>w\<in>words c. is_word s es w) \<and> wf_cmd c"

definition ok_redirs :: "byte list \<Rightarrow> nat \<Rightarrow> redir list \<Rightarrow> bool" where
  "ok_redirs s es rs \<longleftrightarrow> (\<forall>(q, e, md, fd)\<in>set rs. is_word s es (q, e) \<and> (md, fd) \<in> {(0, 0), (0x201, 1)})"

lemma ok_redirected: "ok_cmd s es c \<Longrightarrow> ok_redirs s es rs \<Longrightarrow> ok_cmd s es (redirected c rs)"
  by (fastforce simp: ok_cmd_def ok_redirs_def words_redirected wf_redirected)

lemma parseredirs_fine:
  assumes "ends_at s es"
  shows "ps \<le> es \<Longrightarrow> es - ps < n \<Longrightarrow> fine (ok_redirs s es) es ps (parseredirs n s es ps)"
proof (induction n arbitrary: ps)
  case (Suc n)
  obtain b p where p: "peek s es ps [60, 62] = (b, p)" by force
  note P = peek_fine[OF assms Suc.prems(1) p]
  obtain r q e p1 where g: "gettoken s es p = (r, q, e, p1)" by (metis prod_cases4)
  obtain w q2 e2 p2 where h: "gettoken s es p1 = (w, q2, e2, p2)" by (metis prod_cases4)
  have G: "p \<le> p1" "p1 \<le> es" "b \<longrightarrow> p < p1" using gettoken_fine[OF assms _ g] P g by auto
  have H: "p1 \<le> p2" "p2 \<le> es" "w = 97 \<longrightarrow> is_word s es (q2, e2)" using gettoken_fine[OF assms G(2) h] by auto
  have "fine (ok_redirs s es) es p2 (parseredirs n s es p2)" if b
  proof (rule Suc.IH[OF H(2)])
    show "es - p2 < n" using Suc.prems(2) P G H(1,2) that by linarith
  qed
  then have "fine (ok_redirs s es) es ps (parseredirs n s es p2)" if b using that P G H fine_le[of _ es p2 _ ps] by simp
  then show ?case using P G H p g h
    by (auto simp: Let_def ok_redirs_def intro!: fine_bind[where P = "ok_redirs s es"])
qed simp

lemma parseargs_fine:
  assumes "ends_at s es"
  shows "ps \<le> es \<Longrightarrow> es - ps < n \<Longrightarrow> ok_cmd s es (EXEC as) \<Longrightarrow> ok_redirs s es rs \<Longrightarrow>
    fine (ok_cmd s es) es ps (parseargs n s es ps as rs)"
proof (induction n arbitrary: ps as rs)
  case (Suc n)
  obtain b p where p: "peek s es ps [124, 41, 38, 59] = (b, p)" by force
  note P = peek_fine[OF assms Suc.prems(1) p]
  obtain r q e p1 where g: "gettoken s es p = (r, q, e, p1)" by (metis prod_cases4)
  have G: "p \<le> p1" "p1 \<le> es" "r \<noteq> 0 \<longrightarrow> p < p1" "r = 97 \<longrightarrow> is_word s es (q, e)" using gettoken_fine[OF assms _ g] P by auto
  have ok: "ok_cmd s es (redirected (EXEC as) rs)" using Suc.prems(3,4) by (rule ok_redirected)
  have "fine (ok_cmd s es) es p1 (pbind (parseredirs n s es p1) (\<lambda>rs' ps. parseargs n s es ps (as @ [(q, e)]) (rs @ rs')))"
    if r: "r = 97" "length as + 1 < MAXARGS"
  proof (rule fine_bind)
    have lt: "es - p1 < n" using Suc.prems(2) P G r by (simp, linarith)
    show "fine (ok_redirs s es) es p1 (parseredirs n s es p1)" by (rule parseredirs_fine[OF assms G(2) lt])
    fix rs' p2 assume a: "ok_redirs s es rs'" "p1 \<le> p2" "p2 \<le> es"
    have "fine (ok_cmd s es) es p2 (parseargs n s es p2 (as @ [(q, e)]) (rs @ rs'))"
      by (rule Suc.IH) (use a lt G(4) r Suc.prems(3,4) in \<open>auto simp: ok_cmd_def ok_redirs_def\<close>)
    then show "fine (ok_cmd s es) es p1 (parseargs n s es p2 (as @ [(q, e)]) (rs @ rs'))" by (rule fine_le[OF _ a(2)])
  qed
  from fine_le[OF this, of ps] show ?case using P G ok p g by (auto simp: Let_def)
qed simp

lemma parseback_fine:
  assumes "ends_at s es"
  shows "ps \<le> es \<Longrightarrow> es - ps < n \<Longrightarrow> ok_cmd s es c \<Longrightarrow> fine (ok_cmd s es) es ps (parseback n s es ps c)"
proof (induction n arbitrary: ps c)
  case (Suc n)
  obtain b p where p: "peek s es ps [38] = (b, p)" by force
  note P = peek_fine[OF assms Suc.prems(1) p]
  obtain r q e p1 where g: "gettoken s es p = (r, q, e, p1)" by (metis prod_cases4)
  have G: "p \<le> p1" "p1 \<le> es" "b \<longrightarrow> p < p1" using gettoken_fine[OF assms _ g] P g by auto
  have "fine (ok_cmd s es) es p1 (parseback n s es p1 (BACK c))" if b
  proof (rule Suc.IH[OF G(2)])
    show "es - p1 < n" using Suc.prems(2) P G that by linarith
    show "ok_cmd s es (BACK c)" using Suc.prems(3) by (simp add: ok_cmd_def)
  qed
  from fine_le[OF this, of ps] show ?case using P G p g Suc.prems(3) by (auto simp: Let_def)
qed simp

text \<open>The number of calls that a routine needs at a position.\<close>

definition need :: "clause \<Rightarrow> nat \<Rightarrow> nat" where
  "need nt k = 4 * k + (case nt of Line \<Rightarrow> 5 | Pipe \<Rightarrow> 4 | Exec \<Rightarrow> 3 | Block \<Rightarrow> 2)"

text \<open>The token behind a successful \<open>peek\<close>.\<close>

lemma peek_token:
  assumes "ends_at s es" "ps \<le> es" "peek s es ps toks = (b, p)" "gettoken s es p = (r, q, e, p1)"
  shows "ps \<le> p" "p \<le> es" "p \<le> p1" "p1 \<le> es" "b \<Longrightarrow> es - p1 < es - ps"
proof -
  note P = peek_fine[OF assms(1-3)]
  show p: "ps \<le> p" "p \<le> es" using P by simp_all
  show "p \<le> p1" "p1 \<le> es" using gettoken_fine[OF assms(1) p(2) assms(4)] by simp_all
  show "es - p1 < es - ps" if b
    using gettoken_fine[OF assms(1) p(2) assms(4)] P assms(4) that by (auto intro!: diff_less_mono2)
qed

text \<open>Each routine is fine when the routines it calls are, those behind a token further on in the line.\<close>

lemma parseline_fine:
  assumes "ends_at s es" "ps \<le> es" "es - ps < n" "fine (ok_cmd s es) es ps (pipe_of s es ps)"
    "\<And>p. p \<le> es \<Longrightarrow> es - p < es - ps \<Longrightarrow> fine (ok_cmd s es) es p (line_of s es p)"
  shows "fine (ok_cmd s es) es ps (parseline n pipe_of line_of s es ps)"
  unfolding parseline_def
proof (rule fine_bind[OF assms(4)], rule fine_bind)
  fix c p assume c: "ok_cmd s es c" "ps \<le> p" "p \<le> es"
  show "fine (ok_cmd s es) es ps (parseback n s es p c)"
    by (rule fine_le[OF parseback_fine[OF assms(1) c(3) _ c(1)] c(2)]) (use c(2) assms(3) in linarith)
  fix d p1 assume d: "ok_cmd s es d" "ps \<le> p1" "p1 \<le> es"
  obtain b p2 where p: "peek s es p1 [59] = (b, p2)" by force
  obtain r q e p3 where g: "gettoken s es p2 = (r, q, e, p3)" by (metis prod_cases4)
  note K = peek_token[OF assms(1) d(3) p g]
  have "fine (ok_cmd s es) es p3 (line_of s es p3)" if b
    by (rule assms(5)[OF K(4)]) (use K(5)[OF that] d(2) in simp)
  then have "fine (ok_cmd s es) es ps (line_of s es p3)" if b using that K d(2) fine_le[of _ es p3 _ ps] by simp
  then have "fine (ok_cmd s es) es ps (pbind (line_of s es p3) (\<lambda>x p. Parsed (LIST d x) p))" if b
    using that d by (intro fine_bind[where P = "ok_cmd s es"]) (auto simp: ok_cmd_def)
  then show "fine (ok_cmd s es) es ps (let (b, ps) = peek s es p1 [59] in
      if b then let (_, _, _, ps) = gettoken s es ps in pbind (line_of s es ps) (\<lambda>x p. Parsed (LIST d x) p) else Parsed d ps)"
    using p g K d by (auto simp: Let_def)
qed

lemma parsepipe_fine:
  assumes "ends_at s es" "ps \<le> es" "fine (ok_cmd s es) es ps (exec_of s es ps)"
    "\<And>p. p \<le> es \<Longrightarrow> es - p < es - ps \<Longrightarrow> fine (ok_cmd s es) es p (pipe_of s es p)"
  shows "fine (ok_cmd s es) es ps (parsepipe exec_of pipe_of s es ps)"
  unfolding parsepipe_def
proof (rule fine_bind[OF assms(3)])
  fix c p1 assume c: "ok_cmd s es c" "ps \<le> p1" "p1 \<le> es"
  obtain b p2 where p: "peek s es p1 [124] = (b, p2)" by force
  obtain r q e p3 where g: "gettoken s es p2 = (r, q, e, p3)" by (metis prod_cases4)
  note K = peek_token[OF assms(1) c(3) p g]
  have "fine (ok_cmd s es) es p3 (pipe_of s es p3)" if b
    by (rule assms(4)[OF K(4)]) (use K(5)[OF that] c(2) in simp)
  then have "fine (ok_cmd s es) es ps (pipe_of s es p3)" if b using that K c(2) fine_le[of _ es p3 _ ps] by simp
  then have "fine (ok_cmd s es) es ps (pbind (pipe_of s es p3) (\<lambda>x p. Parsed (PIPE c x) p))" if b
    using that c by (intro fine_bind[where P = "ok_cmd s es"]) (auto simp: ok_cmd_def)
  then show "fine (ok_cmd s es) es ps (let (b, ps) = peek s es p1 [124] in
      if b then let (_, _, _, ps) = gettoken s es ps in pbind (pipe_of s es ps) (\<lambda>x p. Parsed (PIPE c x) p) else Parsed c ps)"
    using p g K c by (auto simp: Let_def)
qed

lemma parseblock_fine:
  assumes "ends_at s es" "ps \<le> es" "es - ps < n"
    "\<And>p. p \<le> es \<Longrightarrow> es - p < es - ps \<Longrightarrow> fine (ok_cmd s es) es p (line_of s es p)"
  shows "fine (ok_cmd s es) es ps (parseblock n line_of s es ps)"
proof -
  obtain b p where p: "peek s es ps [40] = (b, p)" by force
  obtain r q e p1 where g: "gettoken s es p = (r, q, e, p1)" by (metis prod_cases4)
  note K = peek_token[OF assms(1,2) p g]
  have rest: "fine (ok_cmd s es) es p1 (let (b, ps) = peek s es p2 [41] in
      if \<not> b then Syntax ''syntax - missing )''
      else let (_, _, _, ps) = gettoken s es ps in pbind (parseredirs n s es ps) (\<lambda>rs ps. Parsed (redirected c rs) ps))"
    if c: "ok_cmd s es c" "p1 \<le> p2" "p2 \<le> es" for c p2
  proof -
    obtain b2 p3 where h: "peek s es p2 [41] = (b2, p3)" by force
    obtain r2 q2 e2 p4 where k: "gettoken s es p3 = (r2, q2, e2, p4)" by (metis prod_cases4)
    note L = peek_token[OF assms(1) c(3) h k]
    have lt: "es - p4 < n" using L K c assms(3) by linarith
    have "fine (ok_cmd s es) es p1 (pbind (parseredirs n s es p4) (\<lambda>rs ps. Parsed (redirected c rs) ps))"
      using fine_le[OF parseredirs_fine[OF assms(1) L(4) lt], of p1] L c
      by (intro fine_bind[where P = "ok_redirs s es"]) (auto intro: ok_redirected)
    then show ?thesis using h k by (auto simp: Let_def)
  qed
  have "fine (ok_cmd s es) es p1 (line_of s es p1)" if b
    by (rule assms(4)[OF K(4) K(5)[OF that]])
  then have "fine (ok_cmd s es) es ps (pbind (line_of s es p1) (\<lambda>c ps. let (b, ps) = peek s es ps [41] in
      if \<not> b then Syntax ''syntax - missing )''
      else let (_, _, _, ps) = gettoken s es ps in pbind (parseredirs n s es ps) (\<lambda>rs ps. Parsed (redirected c rs) ps)))" if b
    using that K(1,3) by (rule_tac fine_le[OF fine_bind[OF _ rest]]) auto
  then show ?thesis using p g by (auto simp: parseblock_def Let_def)
qed

lemma parseexec_fine:
  assumes "ends_at s es" "ps \<le> es" "es - ps < n" "\<And>p. p \<le> es \<Longrightarrow> es - p \<le> es - ps \<Longrightarrow> fine (ok_cmd s es) es p (block_of s es p)"
  shows "fine (ok_cmd s es) es ps (parseexec n block_of s es ps)"
proof -
  obtain b p where p: "peek s es ps [40] = (b, p)" by force
  have P: "ps \<le> p" "p \<le> es" using peek_fine[OF assms(1,2) p] by simp_all
  have lt: "es - p < n" using P assms(3) by linarith
  have "fine (ok_cmd s es) es p (pbind (parseredirs n s es p) (\<lambda>rs ps. parseargs n s es ps [] rs))"
  proof (rule fine_bind)
    show "fine (ok_redirs s es) es p (parseredirs n s es p)" by (rule parseredirs_fine[OF assms(1) P(2) lt])
    fix rs p1 assume a: "ok_redirs s es rs" "p \<le> p1" "p1 \<le> es"
    show "fine (ok_cmd s es) es p (parseargs n s es p1 [] rs)"
      by (rule fine_le[OF parseargs_fine[OF assms(1) a(3)] a(2)]) (use a lt in \<open>auto simp: ok_cmd_def MAXARGS_def\<close>)
  qed
  moreover have "fine (ok_cmd s es) es p (block_of s es p)" using assms(4)[OF P(2)] P by simp
  ultimately show ?thesis using p P(1) fine_le[of _ es p _ ps] by (auto simp: parseexec_def Let_def)
qed

lemma parse_fine:
  assumes "ends_at s es"
  shows "ps \<le> es \<Longrightarrow> need nt (es - ps) \<le> n \<Longrightarrow> fine (ok_cmd s es) es ps (parse n nt s es ps)"
proof (induction n arbitrary: nt ps)
  case 0
  then show ?case by (cases nt) (simp_all add: need_def)
next
  case (Suc n)
  show ?case
  proof (cases nt)
    case Line
    show ?thesis unfolding Line parse.simps clause.case
      by (rule parseline_fine[OF assms Suc.prems(1)]; (rule Suc.IH)?) (use Suc.prems Line in \<open>auto simp: need_def\<close>)
  next
    case Pipe
    show ?thesis unfolding Pipe parse.simps clause.case
      by (rule parsepipe_fine[OF assms Suc.prems(1)]; rule Suc.IH) (use Suc.prems Pipe in \<open>auto simp: need_def\<close>)
  next
    case Block
    show ?thesis unfolding Block parse.simps clause.case
      by (rule parseblock_fine[OF assms Suc.prems(1)]; (rule Suc.IH)?) (use Suc.prems Block in \<open>auto simp: need_def\<close>)
  next
    case Exec
    show ?thesis unfolding Exec parse.simps clause.case
      by (rule parseexec_fine[OF assms Suc.prems(1)]; (rule Suc.IH)?) (use Suc.prems Exec in \<open>auto simp: need_def\<close>)
  qed
qed

lemma strlen_nth: "i < strlen s \<Longrightarrow> s ! i \<noteq> 0"
proof (induction s arbitrary: i)
  case (Cons c s)
  then show ?case by (cases i) (auto split: if_splits)
qed simp

lemma strlen_ends: "0 \<in> set s \<Longrightarrow> ends_at s (strlen s)"
  by (induction s) (auto simp: ends_at_def)

lemma sh_panic_shape: "\<exists>c f. sh_panic m = Call c f"
  by (cases "cstr (lit m)") (simp_all add: sh_panic_def printf_def litn_def lit_def uputc_def parg_str_def)

lemma leftovers_shape: "\<exists>c f. ubind (printf 2 (litn ''leftovers: %s'') as) k = Call c f"
  by (simp add: printf_def litn_def lit_def uputc_def)

lemma parsecmd_Value:
  assumes "parsecmd n s = Value (c, buf)"
  shows "\<exists>p. parse n Line s (strlen s) 0 = Parsed c p \<and> buf = nulterminate c s"
proof (cases "parse n Line s (strlen s) 0")
  case (Parsed d p)
  obtain a f where "ubind (printf 2 (litn ''leftovers: %s'') [PS (drop (snd (peek s (strlen s) p [])) s)]) (\<lambda>_. sh_panic ''syntax'')
      = (Call a f :: (cmd \<times> byte list) prog)" using leftovers_shape by blast
  then show ?thesis using assms Parsed by (auto simp: parsecmd_def Let_def case_prod_beta split: if_splits)
next
  case (Syntax m)
  obtain a f where "sh_panic m = (Call a f :: (cmd \<times> byte list) prog)" using sh_panic_shape by blast
  then show ?thesis using assms Syntax by (simp add: parsecmd_def Let_def)
next
  case Unfinished
  then show ?thesis using assms by (simp add: parsecmd_def Let_def)
qed


section \<open>The words of a command\<close>

lemma nulterminate_nth:
  "length (nulterminate c s) = length s"
  "i < length s \<Longrightarrow> nulterminate c s ! i = (if i \<in> snd ` words c then 0 else s ! i)"
proof -
  have u: "i < length s \<Longrightarrow> s[e := 0] ! i = (if e = i then 0 else s ! i)" for i e and s :: "byte list" by simp
  have f: "length (foldl (\<lambda>s (_, e). s[e := 0]) s as) = length s \<and>
      (i < length s \<longrightarrow> foldl (\<lambda>s (_, e). s[e := 0]) s as ! i = (if i \<in> snd ` set as then 0 else s ! i))" for i as and s :: "byte list"
  proof (induction as arbitrary: s)
    case (Cons a as)
    then show ?case by (cases a) (simp add: u)
  qed simp
  have "length (nulterminate c s) = length s \<and> (i < length s \<longrightarrow> nulterminate c s ! i = (if i \<in> snd ` words c then 0 else s ! i))" for i
    by (induction c arbitrary: s) (simp_all add: f u image_Un)
  then show "length (nulterminate c s) = length s"
    "i < length s \<Longrightarrow> nulterminate c s ! i = (if i \<in> snd ` words c then 0 else s ! i)" by blast+
qed

lemma word_at_terminated:
  assumes "ends_at s es" "\<And>i. i < es \<Longrightarrow> s ! i \<noteq> 0" "ok_cmd s es c" "(q, e) \<in> words c"
  shows "word_at (nulterminate c s) q = seg q (e - q) s"
proof -
  let ?b = "nulterminate c s"
  have W: "q < e" "e \<le> es" "\<And>i. q \<le> i \<Longrightarrow> i < e \<Longrightarrow> wordchar (s ! i)"
    using assms(3,4) by (auto simp: ok_cmd_def is_word_def)
  have L: "es < length s" using assms(1) by (simp add: ends_at_def)
  have keep: "?b ! i = s ! i" if "q \<le> i" "i < e" for i
  proof -
    have "i \<notin> snd ` words c" using W(2,3) that assms(3) by (fastforce simp: ok_cmd_def is_word_def)
    then show ?thesis using nulterminate_nth(2)[of i s c] that W(2) L by simp
  qed
  have z: "?b ! e = 0" using nulterminate_nth(2)[of e s c] W(2) L assms(4) by force
  have "seg q (e - q) ?b = seg q (e - q) s"
    by (rule nth_equalityI) (use keep W L in \<open>auto simp: nulterminate_nth(1) nth_seg\<close>)
  then have "drop q ?b = seg q (e - q) s @ 0 # drop (Suc e) ?b"
    using id_take_nth_drop[of "e - q" "drop q ?b"] z W L by (simp add: seg_def nulterminate_nth(1))
  moreover have "\<forall>x\<in>set (seg q (e - q) s). x \<noteq> 0" using W L assms(2) by (auto simp: in_set_conv_nth nth_seg)
  ultimately show ?thesis by (simp add: word_at_def cstr_def takeWhile_append2)
qed




text \<open>
  C19.  The type of a command.  Whatever the line, a command that \<open>parsecmd\<close>
  returns is one that \<open>runcmd\<close> and \<open>nulterminate\<close> can take: the
  arguments of every simple command leave room for the null pointer behind them, and every
  redirection opens descriptor 0 for reading or descriptor 1 for writing.
\<close>

theorem parsecmd_wf:
  assumes "0 \<in> set s" "4 * strlen s + 5 \<le> n" "parsecmd n s = Value (c, buf)"
  shows "wf_cmd c"
proof -
  have F: "fine (ok_cmd s (strlen s)) (strlen s) 0 (parse n Line s (strlen s) 0)"
    by (rule parse_fine[OF strlen_ends[OF assms(1)]]) (use assms(2) in \<open>simp_all add: need_def\<close>)
  obtain p where "parse n Line s (strlen s) 0 = Parsed c p" using parsecmd_Value[OF assms(3)] by blast
  then show ?thesis using F by (simp add: ok_cmd_def)
qed

lemma parsecmd_wf_witness: "wf_cmd (LIST (EXEC [(0, 1)]) (EXEC [(2, 3)]))"
proof -
  let ?s = "[97, 59, 98, 0]" and ?c = "LIST (EXEC [(0, 1)]) (EXEC [(2, 3)])"
  have "parse 17 Line ?s 3 0 = Parsed ?c 3" "peek ?s 3 3 [] = (False, 3)" "strlen ?s = 3" by code_simp+
  then have "parsecmd 17 ?s = Value (?c, nulterminate ?c ?s)" by (simp add: parsecmd_def del: strlen.simps)
  from parsecmd_wf[OF _ _ this] show ?thesis by simp
qed

section \<open>Running a command ends the process\<close>

lemma run_uputs_done: "\<exists>k'. run h (uputs fd cs) k = (Done (), k')"
  by (induction cs arbitrary: k) (simp_all add: run_bind uputc_def)

lemma run_printf_done: "\<exists>k'. run h (printf fd fmt as) k = (Done (), k')"
proof -
  have "fst (run h (printf_loop fd st f as) k) = Done ()" for st f
  proof (induction fd st f as arbitrary: k rule: printf_loop.induct)
    case (2 fd st x f as)
    have c: "fst (run h (uputc fd c) k) = Done ()" for c k by (simp add: uputc_def)
    have s: "fst (run h (uputs fd cs) k) = Done ()" for cs k using run_uputs_done[of h fd cs k] by auto
    have bind: "fst (run h (ubind p (\<lambda>_. q)) k) = fst (run h q (snd (run h p k)))" if "fst (run h p k) = Done ()" for p q :: "unit prog" and k
      using that by (cases "run h p k") (simp add: run_bind)
    show ?case using 2 by (simp add: uprintint_def bind c s)
  qed simp
  then show ?thesis by (metis printf_def prod.collapse)
qed

lemma run_sh_panic: "fst (run h (sh_panic m) k) = Exited"
  using run_printf_done[of h 2 "litn ''%s''" "[PS (lit m)]" k] by (auto simp: sh_panic_def run_bind)

lemma run_message: "fst (run h (ubind (printf fd fmt as) (\<lambda>_. Exit)) k) = Exited"
  using run_printf_done[of h fd fmt as k] by (auto simp: run_bind)

lemma run_fork1: "fst (run h (ubind fork1 f) k) = Exited" if "\<And>n k. fst (run h (f n) k) = Exited"
  using that by (auto simp: fork1_def run_sh_panic run_bind split: prod.splits uend.splits dest: arg_cong[where f = fst])

text \<open>
  C22.  \<open>runcmd\<close> never returns.  Whatever the answers of the kernel, in the parent as in
  each child, running a command ends the process by \<open>exit\<close>, if no \<open>exec\<close>
  takes it over before: a child never falls through into the shell's loop.
\<close>

theorem runcmd_exits: "fst (run h (runcmd buf c) k) = Exited"
proof (induction c arbitrary: k)
  case (EXEC as)
  then show ?case by (simp add: Let_def run_message)
next
  case (REDIR c q e md fd)
  then show ?case by (simp add: run_message)
next
  case (PIPE c d)
  then show ?case by (auto simp: Let_def run_sh_panic intro!: run_fork1)
next
  case (LIST c d)
  then show ?case by (auto intro!: run_fork1)
next
  case (BACK c)
  then show ?case by (auto intro!: run_fork1)
qed

end
