(* ===== verification/Sysfile.thy ===== *)
theory Sysfile
  imports File
begin

text \<open>
  System call arguments and the file system calls: the first half of
  \<open>kernel/syscall.c\<close>, and \<open>kernel/sysfile.c\<close> but for
  \<open>sys_exec\<close>.

  The kernel runs on the page table of the process, so a user address is read and
  written through the processor's own walk of that table; an address that is not
  mapped faults.  The trap frame is in kernel memory at \<open>tf\<close>.  A function of
  the source that returns -1 or 0 and fills an out parameter returns an option.
\<close>

section \<open>User memory\<close>

definition uaddr :: "uint \<Rightarrow> ('x) vmst_scheme \<Rightarrow> uint option" where
  "uaddr va s = hw_walk (mem s) (hw_cr3 s (hw_id s)) va"

definition uload :: "uint \<Rightarrow> nat \<Rightarrow> ('x) vmst_scheme \<Rightarrow> (('x) vmst_scheme, byte list) outcome" where
  "uload a n s =
     (let ks = map (\<lambda>i. uaddr (a + of_nat i) s) [0..<n] in
      if None \<in> set ks then Fault a else Ret (map (\<lambda>k. mem s (the k)) ks) s)"

fun ustore :: "uint \<Rightarrow> byte list \<Rightarrow> ('x) vmst_scheme \<Rightarrow> (('x) vmst_scheme, unit) outcome" where
  "ustore a [] s = Ret () s"
| "ustore a (b # bs) s =
     (case uaddr a s of None \<Rightarrow> Fault a
      | Some k \<Rightarrow> ustore (a + 1) bs (s\<lparr>mem := (mem s)(k := b)\<rparr>))"

section \<open>Arguments\<close>

definition NOFILE :: nat where "NOFILE = 16"

text \<open>\<open>myproc()->field\<close>, for the field at offset \<open>off\<close>.\<close>

definition curproc :: "uint \<Rightarrow> ('x) mach_scheme \<Rightarrow> (('x) mach_scheme, nat) outcome" where
  "curproc off s = bnd (myproc s) (\<lambda>p s. case p of None \<Rightarrow> Fault off | Some p \<Rightarrow> Ret p s)"

text \<open>Offsets in \<open>struct trapframe\<close>.\<close>

definition tf_eax :: uint where "tf_eax = 28"
definition tf_eip :: uint where "tf_eip = 56"
definition tf_esp :: uint where "tf_esp = 68"

definition fetchint :: "uint \<Rightarrow> ('x) ptab_scheme \<Rightarrow> (('x) ptab_scheme, uint option) outcome" where
  "fetchint addr s =
     bnd (curproc 0 s) (\<lambda>p s.
     if addr \<ge> psz (procs s ! p) \<or> addr + 4 > psz (procs s ! p) then Ret None s
     else bnd (uload addr 4 s) (\<lambda>bs s. Ret (Some (un32 bs)) s))"

fun fetchstr_loop :: "nat \<Rightarrow> uint \<Rightarrow> byte list \<Rightarrow> ('x) ptab_scheme \<Rightarrow> (('x) ptab_scheme, byte list option) outcome" where
  "fetchstr_loop 0 a acc s = Ret None s"
| "fetchstr_loop (Suc n) a acc s =
     bnd (uload a 1 s) (\<lambda>bs s.
     if hd bs = 0 then Ret (Some acc) s else fetchstr_loop n (a + 1) (acc @ bs) s)"

text \<open>\<open>fetchstr\<close> returns the string; its length is what the source returns.\<close>

definition fetchstr :: "uint \<Rightarrow> ('x) ptab_scheme \<Rightarrow> (('x) ptab_scheme, byte list option) outcome" where
  "fetchstr addr s =
     bnd (curproc 0 s) (\<lambda>p s.
     if addr \<ge> psz (procs s ! p) then Ret None s
     else fetchstr_loop (unat (psz (procs s ! p) - addr)) addr [] s)"

definition argint :: "nat \<Rightarrow> ('x) ptab_scheme \<Rightarrow> (('x) ptab_scheme, uint option) outcome" where
  "argint n s =
     bnd (curproc 52 s) (\<lambda>p s.
     fetchint (rd32 (tf (procs s ! p) + tf_esp) s + 4 + 4 * of_nat n) s)"

definition argptr :: "nat \<Rightarrow> int \<Rightarrow> ('x) ptab_scheme \<Rightarrow> (('x) ptab_scheme, uint option) outcome" where
  "argptr n sz s =
     bnd (curproc 0 s) (\<lambda>p s.
     bnd (argint n s) (\<lambda>r s.
     case r of None \<Rightarrow> Ret None s
     | Some i \<Rightarrow>
       if sz < 0 \<or> i \<ge> psz (procs s ! p) \<or> i + of_int sz > psz (procs s ! p) then Ret None s
       else Ret (Some i) s))"

definition argstr :: "nat \<Rightarrow> ('x) ptab_scheme \<Rightarrow> (('x) ptab_scheme, byte list option) outcome" where
  "argstr n s =
     bnd (argint n s) (\<lambda>r s. case r of None \<Rightarrow> Ret None s | Some addr \<Rightarrow> fetchstr addr s)"

text \<open>\<open>argfd\<close>: the descriptor and the file.\<close>

definition argfd :: "nat \<Rightarrow> ('x) ptab_scheme \<Rightarrow> (('x) ptab_scheme, (nat \<times> nat) option) outcome" where
  "argfd n s =
     bnd (argint n s) (\<lambda>r s.
     case r of None \<Rightarrow> Ret None s
     | Some fd \<Rightarrow>
       if sint fd < 0 \<or> sint fd \<ge> int NOFILE then Ret None s
       else
         bnd (curproc (68 + 4 * fd) s) (\<lambda>p s.
         case ofile (procs s ! p) ! unat fd of None \<Rightarrow> Ret None s | Some f \<Rightarrow> Ret (Some (unat fd, f)) s))"

definition fdalloc :: "nat \<Rightarrow> ('x) ptab_scheme \<Rightarrow> (('x) ptab_scheme, int) outcome" where
  "fdalloc f s =
     bnd (curproc 68 s) (\<lambda>p s.
     case List.find (\<lambda>fd. ofile (procs s ! p) ! fd = None) [0..<NOFILE] of
       Some fd \<Rightarrow> Ret (int fd) (upd_proc p (\<lambda>q. q\<lparr>ofile := (ofile q)[fd := Some f]\<rparr>) s)
     | None \<Rightarrow> Ret (- 1) s)"

section \<open>Calls on open files\<close>

definition sys_dup :: "('x) filest_scheme \<Rightarrow> (('x) filest_scheme, int) outcome" where
  "sys_dup s =
     bnd (argfd 0 s) (\<lambda>r s.
     case r of None \<Rightarrow> Ret (- 1) s
     | Some (_, f) \<Rightarrow>
       bnd (fdalloc f s) (\<lambda>fd s.
       if fd < 0 then Ret (- 1) s
       else bnd (filedup f s) (\<lambda>_ s. Ret fd s)))"

text \<open>The arguments of \<open>sys_read\<close> and \<open>sys_write\<close>: file, pointer, count.\<close>

definition rw_args :: "('x) ptab_scheme \<Rightarrow> (('x) ptab_scheme, (nat \<times> uint \<times> nat) option) outcome" where
  "rw_args s =
     bnd (argfd 0 s) (\<lambda>r s.
     case r of None \<Rightarrow> Ret None s
     | Some (_, f) \<Rightarrow>
       bnd (argint 2 s) (\<lambda>r s.
       case r of None \<Rightarrow> Ret None s
       | Some n \<Rightarrow>
         bnd (argptr 1 (sint n) s) (\<lambda>r s.
         case r of None \<Rightarrow> Ret None s | Some p \<Rightarrow> Ret (Some (f, p, unat n)) s)))"

definition sys_read :: "('x) filest_scheme \<Rightarrow> (('x) filest_scheme, int) outcome" where
  "sys_read s =
     bnd (rw_args s) (\<lambda>r s.
     case r of None \<Rightarrow> Ret (- 1) s
     | Some (f, p, n) \<Rightarrow>
       bnd (fileread f n s) (\<lambda>(r, bs) s.
       bnd (ustore p bs s) (\<lambda>_ s. Ret r s)))"

definition sys_write :: "('x) filest_scheme \<Rightarrow> (('x) filest_scheme, int) outcome" where
  "sys_write s =
     bnd (rw_args s) (\<lambda>r s.
     case r of None \<Rightarrow> Ret (- 1) s
     | Some (f, p, n) \<Rightarrow>
       bnd (uload p n s) (\<lambda>bs s. filewrite f bs s))"

definition sys_close :: "('x) filest_scheme \<Rightarrow> (('x) filest_scheme, int) outcome" where
  "sys_close s =
     bnd (argfd 0 s) (\<lambda>r s.
     case r of None \<Rightarrow> Ret (- 1) s
     | Some (fd, f) \<Rightarrow>
       bnd (curproc (68 + 4 * of_nat fd) s) (\<lambda>p s.
       let s = upd_proc p (\<lambda>q. q\<lparr>ofile := (ofile q)[fd := None]\<rparr>) s in
       bnd (fileclose f s) (\<lambda>_ s. Ret 0 s)))"

definition ustore_stat :: "uint \<Rightarrow> stat \<Rightarrow> ('x) vmst_scheme \<Rightarrow> (('x) vmst_scheme, unit) outcome" where
  "ustore_stat a st s =
     bnd (ustore (a + 4) (le32 (st_dev st)) s) (\<lambda>_ s.
     bnd (ustore (a + 8) (le32 (st_ino st)) s) (\<lambda>_ s.
     bnd (ustore a (le16 (st_type st)) s) (\<lambda>_ s.
     bnd (ustore (a + 12) (le16 (st_nlink st)) s) (\<lambda>_ s.
     ustore (a + 16) (le32 (st_size st)) s))))"

definition sys_fstat :: "('x) filest_scheme \<Rightarrow> (('x) filest_scheme, int) outcome" where
  "sys_fstat s =
     bnd (argfd 0 s) (\<lambda>r s.
     case r of None \<Rightarrow> Ret (- 1) s
     | Some (_, f) \<Rightarrow>
       bnd (argptr 1 20 s) (\<lambda>a s.
       case a of None \<Rightarrow> Ret (- 1) s
       | Some a \<Rightarrow>
         bnd (filestat f s) (\<lambda>(r, st) s.
         bnd (case st of None \<Rightarrow> Ret () s | Some st \<Rightarrow> ustore_stat a st s) (\<lambda>_ s. Ret r s))))"

section \<open>Links\<close>

text \<open>\<open>end_op(); return r\<close>.\<close>

definition end_ret :: "int \<Rightarrow> ('x) logst_scheme \<Rightarrow> (('x) logst_scheme, int) outcome" where
  "end_ret r s = bnd (end_op s) (\<lambda>_ s. Ret r s)"

definition link_bad :: "nat \<Rightarrow> ('x) consst_scheme \<Rightarrow> (('x) consst_scheme, int) outcome" where
  "link_bad ip s =
     bnd (ilock ip s) (\<lambda>_ s.
     let s = upd_inode ip (\<lambda>k. k\<lparr>inlink := inlink k - 1\<rparr>) s in
     bnd (iupdate ip s) (\<lambda>_ s.
     bnd (iunlockput ip s) (\<lambda>_ s.
     end_ret (- 1) s)))"

definition sys_link :: "('x) filest_scheme \<Rightarrow> (('x) filest_scheme, int) outcome" where
  "sys_link s =
     bnd (argstr 0 s) (\<lambda>old s.
     case old of None \<Rightarrow> Ret (- 1) s
     | Some old \<Rightarrow>
     bnd (argstr 1 s) (\<lambda>new s.
     case new of None \<Rightarrow> Ret (- 1) s
     | Some new \<Rightarrow>
     bnd (begin_op s) (\<lambda>_ s.
     bnd (namei old s) (\<lambda>ip s.
     case ip of None \<Rightarrow> end_ret (- 1) s
     | Some ip \<Rightarrow>
       bnd (ilock ip s) (\<lambda>_ s.
       if itype (inodes s ! ip) = T_DIR
       then bnd (iunlockput ip s) (\<lambda>_ s. end_ret (- 1) s)
       else
         let s = upd_inode ip (\<lambda>k. k\<lparr>inlink := inlink k + 1\<rparr>) s in
         bnd (iupdate ip s) (\<lambda>_ s.
         bnd (iunlock ip s) (\<lambda>_ s.
         bnd (nameiparent new (replicate DIRSIZ 0) s) (\<lambda>(dp, name) s.
         case dp of None \<Rightarrow> link_bad ip s
         | Some dp \<Rightarrow>
           bnd (ilock dp s) (\<lambda>_ s.
           bnd (if idev (inodes s ! dp) \<noteq> idev (inodes s ! ip) then Ret (- 1) s
                else dirlink dp name (inum (inodes s ! ip)) s) (\<lambda>r s.
           if r < 0 then bnd (iunlockput dp s) (\<lambda>_ s. link_bad ip s)
           else
             bnd (iunlockput dp s) (\<lambda>_ s.
             bnd (iput ip s) (\<lambda>_ s.
             end_ret 0 s))))))))))))"

text \<open>The loop of \<open>isdirempty\<close> starts behind the entries for dot and dot-dot.\<close>

fun isdirempty_loop :: "nat list \<Rightarrow> nat \<Rightarrow> ('x) consst_scheme \<Rightarrow> (('x) consst_scheme, bool) outcome" where
  "isdirempty_loop [] dp s = Ret True s"
| "isdirempty_loop (off # offs) dp s =
     bnd (readi dp (of_nat off) 16 s) (\<lambda>(r, bs) s.
     if r \<noteq> 16 then Panic ''isdirempty: readi''
     else if de_inum (dirent_of bs) \<noteq> 0 then Ret False s
     else isdirempty_loop offs dp s)"

definition isdirempty :: "nat \<Rightarrow> ('x) consst_scheme \<Rightarrow> (('x) consst_scheme, bool) outcome" where
  "isdirempty dp s = isdirempty_loop (drop 2 (dir_offs (isize (inodes s ! dp)))) dp s"

definition unlink_bad :: "nat \<Rightarrow> ('x) consst_scheme \<Rightarrow> (('x) consst_scheme, int) outcome" where
  "unlink_bad dp s = bnd (iunlockput dp s) (\<lambda>_ s. end_ret (- 1) s)"

definition unlink_entry :: "nat \<Rightarrow> nat \<Rightarrow> uint \<Rightarrow> ('x) consst_scheme \<Rightarrow> (('x) consst_scheme, int) outcome" where
  "unlink_entry dp ip off s =
     bnd (writei dp (replicate 16 0) off s) (\<lambda>r s.
     if r \<noteq> 16 then Panic ''unlink: writei''
     else
       bnd (if itype (inodes s ! ip) = T_DIR
            then let s = upd_inode dp (\<lambda>k. k\<lparr>inlink := inlink k - 1\<rparr>) s in iupdate dp s
            else Ret () s) (\<lambda>_ s.
       bnd (iunlockput dp s) (\<lambda>_ s.
       let s = upd_inode ip (\<lambda>k. k\<lparr>inlink := inlink k - 1\<rparr>) s in
       bnd (iupdate ip s) (\<lambda>_ s.
       bnd (iunlockput ip s) (\<lambda>_ s.
       end_ret 0 s)))))"

definition sys_unlink :: "('x) filest_scheme \<Rightarrow> (('x) filest_scheme, int) outcome" where
  "sys_unlink s =
     bnd (argstr 0 s) (\<lambda>path s.
     case path of None \<Rightarrow> Ret (- 1) s
     | Some path \<Rightarrow>
     bnd (begin_op s) (\<lambda>_ s.
     bnd (nameiparent path (replicate DIRSIZ 0) s) (\<lambda>(dp, name) s.
     case dp of None \<Rightarrow> end_ret (- 1) s
     | Some dp \<Rightarrow>
       bnd (ilock dp s) (\<lambda>_ s.
       if namecmp name [46] = 0 \<or> namecmp name [46, 46] = 0 then unlink_bad dp s
       else
         bnd (dirlookup dp name s) (\<lambda>r s.
         case r of None \<Rightarrow> unlink_bad dp s
         | Some (ip, off) \<Rightarrow>
           bnd (ilock ip s) (\<lambda>_ s.
           if sint (inlink (inodes s ! ip)) < 1 then Panic ''unlink: nlink < 1''
           else
             bnd (if itype (inodes s ! ip) = T_DIR then bnd (isdirempty ip s) (\<lambda>e s. Ret (\<not> e) s)
                  else Ret False s) (\<lambda>full s.
             if full then bnd (iunlockput ip s) (\<lambda>_ s. unlink_bad dp s)
             else unlink_entry dp ip off s)))))))"

section \<open>Creating and opening\<close>

definition create_dots :: "nat \<Rightarrow> nat \<Rightarrow> ('x) consst_scheme \<Rightarrow> (('x) consst_scheme, unit) outcome" where
  "create_dots dp ip s =
     (let s = upd_inode dp (\<lambda>k. k\<lparr>inlink := inlink k + 1\<rparr>) s in
      bnd (iupdate dp s) (\<lambda>_ s.
      bnd (dirlink ip [46] (inum (inodes s ! ip)) s) (\<lambda>r s.
      if r < 0 then Panic ''create dots''
      else
        bnd (dirlink ip [46, 46] (inum (inodes s ! dp)) s) (\<lambda>r s.
        if r < 0 then Panic ''create dots'' else Ret () s))))"

definition create :: "byte list \<Rightarrow> ushort \<Rightarrow> ushort \<Rightarrow> ushort \<Rightarrow> ('x) consst_scheme \<Rightarrow> (('x) consst_scheme, nat option) outcome" where
  "create path ty mj mn s =
     bnd (nameiparent path (replicate DIRSIZ 0) s) (\<lambda>(dp, name) s.
     case dp of None \<Rightarrow> Ret None s
     | Some dp \<Rightarrow>
       bnd (ilock dp s) (\<lambda>_ s.
       bnd (dirlookup dp name s) (\<lambda>r s.
       case r of
         Some (ip, _) \<Rightarrow>
           bnd (iunlockput dp s) (\<lambda>_ s.
           bnd (ilock ip s) (\<lambda>_ s.
           if ty = T_FILE \<and> itype (inodes s ! ip) = T_FILE then Ret (Some ip) s
           else bnd (iunlockput ip s) (\<lambda>_ s. Ret None s)))
       | None \<Rightarrow>
           bnd (ialloc (idev (inodes s ! dp)) ty s) (\<lambda>ip s.
           bnd (ilock ip s) (\<lambda>_ s.
           let s = upd_inode ip (\<lambda>k. k\<lparr>imajor := mj, iminor := mn, inlink := 1\<rparr>) s in
           bnd (iupdate ip s) (\<lambda>_ s.
           bnd (if ty = T_DIR then create_dots dp ip s else Ret () s) (\<lambda>_ s.
           bnd (dirlink dp name (inum (inodes s ! ip)) s) (\<lambda>r s.
           if r < 0 then Panic ''create: dirlink''
           else bnd (iunlockput dp s) (\<lambda>_ s. Ret (Some ip) s)))))))))"

definition O_RDONLY :: uint where "O_RDONLY = 0"
definition O_WRONLY :: uint where "O_WRONLY = 1"
definition O_RDWR :: uint where "O_RDWR = 2"
definition O_CREATE :: uint where "O_CREATE = 0x200"

text \<open>\<open>sys_open\<close> up to the locked inode, or \<open>None\<close> after \<open>end_op\<close>.\<close>

definition open_inode :: "byte list \<Rightarrow> uint \<Rightarrow> ('x) consst_scheme \<Rightarrow> (('x) consst_scheme, nat option) outcome" where
  "open_inode path omode s =
     (if omode AND O_CREATE \<noteq> 0
      then bnd (create path T_FILE 0 0 s) (\<lambda>ip s.
        case ip of None \<Rightarrow> bnd (end_op s) (\<lambda>_ s. Ret None s) | Some ip \<Rightarrow> Ret (Some ip) s)
      else bnd (namei path s) (\<lambda>ip s.
        case ip of None \<Rightarrow> bnd (end_op s) (\<lambda>_ s. Ret None s)
        | Some ip \<Rightarrow>
          bnd (ilock ip s) (\<lambda>_ s.
          if itype (inodes s ! ip) = T_DIR \<and> omode \<noteq> O_RDONLY
          then bnd (iunlockput ip s) (\<lambda>_ s. bnd (end_op s) (\<lambda>_ s. Ret None s))
          else Ret (Some ip) s)))"

definition sys_open :: "('x) filest_scheme \<Rightarrow> (('x) filest_scheme, int) outcome" where
  "sys_open s =
     bnd (argstr 0 s) (\<lambda>path s.
     case path of None \<Rightarrow> Ret (- 1) s
     | Some path \<Rightarrow>
     bnd (argint 1 s) (\<lambda>omode s.
     case omode of None \<Rightarrow> Ret (- 1) s
     | Some omode \<Rightarrow>
     bnd (begin_op s) (\<lambda>_ s.
     bnd (open_inode path omode s) (\<lambda>ip s.
     case ip of None \<Rightarrow> Ret (- 1) s
     | Some ip \<Rightarrow>
       bnd (filealloc s) (\<lambda>f s.
       bnd (case f of None \<Rightarrow> Ret (- 1) s | Some f \<Rightarrow> fdalloc f s) (\<lambda>fd s.
       if fd < 0
       then
         bnd (close_opt f s) (\<lambda>_ s.
         bnd (iunlockput ip s) (\<lambda>_ s.
         end_ret (- 1) s))
       else
         bnd (iunlock ip s) (\<lambda>_ s.
         bnd (end_op s) (\<lambda>_ s.
         let s = upd_file (the f) (\<lambda>k. k\<lparr>ftype := FD_INODE, fip := Some ip, foff := 0,
                   readable := (omode AND O_WRONLY = 0),
                   writable := (omode AND O_WRONLY \<noteq> 0 \<or> omode AND O_RDWR \<noteq> 0)\<rparr>) s in
         Ret fd s))))))))"

definition made :: "nat option \<Rightarrow> ('x) consst_scheme \<Rightarrow> (('x) consst_scheme, int) outcome" where
  "made ip s =
     (case ip of None \<Rightarrow> end_ret (- 1) s
      | Some ip \<Rightarrow> bnd (iunlockput ip s) (\<lambda>_ s. end_ret 0 s))"

definition sys_mkdir :: "('x) filest_scheme \<Rightarrow> (('x) filest_scheme, int) outcome" where
  "sys_mkdir s =
     bnd (begin_op s) (\<lambda>_ s.
     bnd (argstr 0 s) (\<lambda>path s.
     bnd (case path of None \<Rightarrow> Ret None s | Some path \<Rightarrow> create path T_DIR 0 0 s) (\<lambda>ip s.
     made ip s)))"

definition sys_mknod :: "('x) filest_scheme \<Rightarrow> (('x) filest_scheme, int) outcome" where
  "sys_mknod s =
     bnd (begin_op s) (\<lambda>_ s.
     bnd (argstr 0 s) (\<lambda>path s.
     case path of None \<Rightarrow> made None s
     | Some path \<Rightarrow>
     bnd (argint 1 s) (\<lambda>mj s.
     case mj of None \<Rightarrow> made None s
     | Some mj \<Rightarrow>
     bnd (argint 2 s) (\<lambda>mn s.
     case mn of None \<Rightarrow> made None s
     | Some mn \<Rightarrow>
     bnd (create path T_DEV (ucast mj) (ucast mn) s) (\<lambda>ip s.
     made ip s)))))"

definition sys_chdir :: "('x) filest_scheme \<Rightarrow> (('x) filest_scheme, int) outcome" where
  "sys_chdir s =
     bnd (myproc s) (\<lambda>p s.
     bnd (begin_op s) (\<lambda>_ s.
     bnd (argstr 0 s) (\<lambda>path s.
     bnd (case path of None \<Rightarrow> Ret None s | Some path \<Rightarrow> namei path s) (\<lambda>ip s.
     case ip of None \<Rightarrow> end_ret (- 1) s
     | Some ip \<Rightarrow>
       bnd (ilock ip s) (\<lambda>_ s.
       if itype (inodes s ! ip) \<noteq> T_DIR
       then bnd (iunlockput ip s) (\<lambda>_ s. end_ret (- 1) s)
       else
         bnd (iunlock ip s) (\<lambda>_ s.
         case p of None \<Rightarrow> Fault 132
         | Some p \<Rightarrow>
           (case cwd (procs s ! p) of None \<Rightarrow> Fault 8
            | Some d \<Rightarrow>
              bnd (iput d s) (\<lambda>_ s.
              bnd (end_op s) (\<lambda>_ s.
              Ret 0 (upd_proc p (\<lambda>q. q\<lparr>cwd := Some ip\<rparr>) s))))))))))"

section \<open>Pipes\<close>

definition sys_pipe :: "('x) filest_scheme \<Rightarrow> (('x) filest_scheme, int) outcome" where
  "sys_pipe s =
     bnd (argptr 0 8 s) (\<lambda>a s.
     case a of None \<Rightarrow> Ret (- 1) s
     | Some a \<Rightarrow>
     bnd (pipealloc s) (\<lambda>r s.
     case r of None \<Rightarrow> Ret (- 1) s
     | Some (rfile, wfile) \<Rightarrow>
       bnd (fdalloc rfile s) (\<lambda>fd0 s.
       bnd (if fd0 < 0 then Ret (- 1) s else fdalloc wfile s) (\<lambda>fd1 s.
       if fd0 < 0 \<or> fd1 < 0
       then
         bnd (if fd0 \<ge> 0
              then bnd (curproc 68 s) (\<lambda>p s. Ret () (upd_proc p (\<lambda>q. q\<lparr>ofile := (ofile q)[nat fd0 := None]\<rparr>) s))
              else Ret () s) (\<lambda>_ s.
         bnd (fileclose rfile s) (\<lambda>_ s.
         bnd (fileclose wfile s) (\<lambda>_ s. Ret (- 1) s)))
       else
         bnd (ustore a (le32 (of_int fd0)) s) (\<lambda>_ s.
         bnd (ustore (a + 4) (le32 (of_int fd1)) s) (\<lambda>_ s. Ret 0 s))))))"

end
