(* ===== verification/Process.thy ===== *)
theory Process
  imports Sysfile
begin

text \<open>
  Process life cycle: \<open>userinit\<close>, \<open>growproc\<close>, \<open>fork\<close>,
  \<open>exit\<close>, \<open>forkret\<close> of \<open>kernel/proc.c\<close>, \<open>kernel/exec.c\<close>
  and \<open>sys_exec\<close>.

  \<open>fork_first\<close> is the static variable \<open>first\<close> of \<open>forkret\<close>,
  \<open>initcode\<close> the bytes the linker places at \<open>_binary_initcode_start\<close>.
  Programs are ELF files; the header fields are read at their offsets.
\<close>

section \<open>State\<close>

record procst = filest +
  fork_first :: bool
  initcode :: "byte list"

definition wr16 :: "uint \<Rightarrow> ushort \<Rightarrow> ('x) kmem_scheme \<Rightarrow> ('x) kmem_scheme" where
  "wr16 a v s = s\<lparr>mem := (mem s)(a := ucast v, a + 1 := ucast (drop_bit 8 v))\<rparr>"

definition SEG_UCODE :: ushort where "SEG_UCODE = 3"
definition SEG_UDATA :: ushort where "SEG_UDATA = 4"
definition DPL_USER :: ushort where "DPL_USER = 3"
definition FL_IF :: uint where "FL_IF = 0x200"
definition MAXARG :: nat where "MAXARG = 32"

section \<open>Creation\<close>

definition user_tf :: "uint \<Rightarrow> ('x) kmem_scheme \<Rightarrow> ('x) kmem_scheme" where
  "user_tf t s =
     (let s = s\<lparr>mem := memset t 0 76 (mem s)\<rparr>;
          s = wr16 (t + 60) (push_bit 3 SEG_UCODE OR DPL_USER) s;
          s = wr16 (t + 44) (push_bit 3 SEG_UDATA OR DPL_USER) s;
          s = wr16 (t + 40) (push_bit 3 SEG_UDATA OR DPL_USER) s;
          s = wr16 (t + 72) (push_bit 3 SEG_UDATA OR DPL_USER) s;
          s = wr32 (t + 64) FL_IF s;
          s = wr32 (t + tf_esp) PGSIZE s in
      wr32 (t + tf_eip) 0 s)"

text \<open>20 is the offset of \<open>pgdir\<close> in \<open>struct proc\<close>.\<close>

definition userinit :: "('x) procst_scheme \<Rightarrow> (('x) procst_scheme, unit) outcome" where
  "userinit s =
     bnd (allocproc s) (\<lambda>p s.
     let s = s\<lparr>initproc := p\<rparr> in
     case p of None \<Rightarrow> Fault 20
     | Some p \<Rightarrow>
       bnd (setupkvm s) (\<lambda>d s.
       let s = upd_proc p (\<lambda>q. q\<lparr>pgdir := d\<rparr>) s in
       if d = 0 then Panic ''userinit: out of memory?''
       else
         bnd (inituvm d (initcode s) s) (\<lambda>_ s.
         let s = upd_proc p (\<lambda>q. q\<lparr>psz := PGSIZE\<rparr>) s;
             s = user_tf (tf (procs s ! p)) s;
             s = upd_proc p (\<lambda>q. q\<lparr>pname := safestrcpy (pname q) (asc ''initcode'') 16\<rparr>) s in
         bnd (namei [47] s) (\<lambda>ip s.
         let s = upd_proc p (\<lambda>q. q\<lparr>cwd := ip\<rparr>) s in
         make_runnable p s))))"

definition growproc :: "int \<Rightarrow> ('x) ptab_scheme \<Rightarrow> (('x) ptab_scheme, int) outcome" where
  "growproc n s =
     bnd (curproc 0 s) (\<lambda>p s.
     let sz = psz (procs s ! p) in
     bnd (if n > 0 then allocuvm (pgdir (procs s ! p)) sz (sz + of_int n) s
          else if n < 0 then deallocuvm (pgdir (procs s ! p)) sz (sz + of_int n) s
          else Ret sz s) (\<lambda>sz s.
     if n \<noteq> 0 \<and> sz = 0 then Ret (- 1) s
     else
       let s = upd_proc p (\<lambda>q. q\<lparr>psz := sz\<rparr>) s in
       bnd (switchuvm (Some p) s) (\<lambda>_ s. Ret 0 s)))"

fun fork_files :: "nat list \<Rightarrow> nat \<Rightarrow> nat \<Rightarrow> ('x) filest_scheme \<Rightarrow> (('x) filest_scheme, unit) outcome" where
  "fork_files [] cp np s = Ret () s"
| "fork_files (i # js) cp np s =
     (case ofile (procs s ! cp) ! i of
        None \<Rightarrow> fork_files js cp np s
      | Some f \<Rightarrow>
          bnd (filedup f s) (\<lambda>f s.
          fork_files js cp np (upd_proc np (\<lambda>q. q\<lparr>ofile := (ofile q)[i := Some f]\<rparr>) s)))"

definition fork :: "('x) filest_scheme \<Rightarrow> (('x) filest_scheme, uint) outcome" where
  "fork s =
     bnd (curproc 20 s) (\<lambda>cp s.
     bnd (allocproc s) (\<lambda>np s.
     case np of None \<Rightarrow> Ret (- 1) s
     | Some np \<Rightarrow>
       bnd (copyuvm (pgdir (procs s ! cp)) (psz (procs s ! cp)) s) (\<lambda>d s.
       let s = upd_proc np (\<lambda>q. q\<lparr>pgdir := d\<rparr>) s in
       if d = 0
       then
         bnd (kfree (kstack (procs s ! np)) s) (\<lambda>_ s.
         let s = upd_proc np (\<lambda>q. q\<lparr>kstack := 0\<rparr>) s;
             s = upd_proc np (\<lambda>q. q\<lparr>pstate := UNUSED\<rparr>) s in
         Ret (- 1) s)
       else
         let s = upd_proc np (\<lambda>q. q\<lparr>psz := psz (procs s ! cp)\<rparr>) s;
             s = upd_proc np (\<lambda>q. q\<lparr>parent := Some cp\<rparr>) s;
             s = s\<lparr>mem := memmove (tf (procs s ! np)) (tf (procs s ! cp)) 76 (mem s)\<rparr>;
             s = wr32 (tf (procs s ! np) + tf_eax) 0 s in
         bnd (fork_files [0..<NOFILE] cp np s) (\<lambda>_ s.
         case cwd (procs s ! cp) of None \<Rightarrow> Fault 8
         | Some d \<Rightarrow>
           bnd (idup d s) (\<lambda>d s.
           let s = upd_proc np (\<lambda>q. q\<lparr>cwd := Some d\<rparr>) s;
               s = upd_proc np (\<lambda>q. q\<lparr>pname := safestrcpy (pname q) (pname (procs s ! cp)) 16\<rparr>) s;
               pid = pid (procs s ! np) in
           bnd (make_runnable np s) (\<lambda>_ s. Ret pid s))))))"

definition forkret :: "('x) procst_scheme \<Rightarrow> (('x) procst_scheme, unit) outcome" where
  "forkret s =
     bnd (release L_ptable s) (\<lambda>_ s.
     if fork_first s
     then
       let s = s\<lparr>fork_first := False\<rparr> in
       bnd (iinit ROOTDEV s) (\<lambda>_ s.
       initlog ROOTDEV s)
     else Ret () s)"

section \<open>Exit\<close>

fun exit_files :: "nat list \<Rightarrow> nat \<Rightarrow> ('x) filest_scheme \<Rightarrow> (('x) filest_scheme, unit) outcome" where
  "exit_files [] cp s = Ret () s"
| "exit_files (fd # fds) cp s =
     (case ofile (procs s ! cp) ! fd of
        None \<Rightarrow> exit_files fds cp s
      | Some f \<Rightarrow>
          bnd (fileclose f s) (\<lambda>_ s.
          exit_files fds cp (upd_proc cp (\<lambda>q. q\<lparr>ofile := (ofile q)[fd := None]\<rparr>) s)))"

text \<open>68 is the offset of \<open>ofile\<close>.\<close>

definition exit :: "('x) filest_scheme \<Rightarrow> (('x) filest_scheme, unit) outcome" where
  "exit s =
     bnd (myproc s) (\<lambda>cp s.
     if cp = initproc s then Panic ''init exiting''
     else case cp of None \<Rightarrow> Fault 68
     | Some cp \<Rightarrow>
       bnd (exit_files [0..<NOFILE] cp s) (\<lambda>_ s.
       bnd (begin_op s) (\<lambda>_ s.
       bnd (with_ip (cwd (procs s ! cp)) iput s) (\<lambda>_ s.
       bnd (end_op s) (\<lambda>_ s.
       let s = upd_proc cp (\<lambda>q. q\<lparr>cwd := None\<rparr>) s in
       exit_sched cp s)))))"

section \<open>Programs\<close>

definition ELF_MAGIC :: uint where "ELF_MAGIC = 0x464C457F"
definition ELF_PROG_LOAD :: uint where "ELF_PROG_LOAD = 1"

record elfhdr =
  e_magic :: uint
  e_entry :: uint
  e_phoff :: uint
  e_phnum :: ushort

record proghdr =
  ph_type :: uint
  ph_off :: uint
  ph_vaddr :: uint
  ph_filesz :: uint
  ph_memsz :: uint

definition elfhdr_of :: "byte list \<Rightarrow> elfhdr" where
  "elfhdr_of bs = \<lparr>e_magic = un32 (seg 0 4 bs), e_entry = un32 (seg 24 4 bs), e_phoff = un32 (seg 28 4 bs),
     e_phnum = un16 (seg 44 2 bs)\<rparr>"

definition proghdr_of :: "byte list \<Rightarrow> proghdr" where
  "proghdr_of bs = \<lparr>ph_type = un32 (seg 0 4 bs), ph_off = un32 (seg 4 4 bs), ph_vaddr = un32 (seg 8 4 bs),
     ph_filesz = un32 (seg 16 4 bs), ph_memsz = un32 (seg 20 4 bs)\<rparr>"

text \<open>\<open>goto bad\<close>: \<open>d\<close> is \<open>pgdir\<close>, \<open>ip\<close> the inode or 0.\<close>

definition exec_bad :: "uint \<Rightarrow> nat option \<Rightarrow> ('x) consst_scheme \<Rightarrow> (('x) consst_scheme, int) outcome" where
  "exec_bad d ip s =
     bnd (if d \<noteq> 0 then freevm d s else Ret () s) (\<lambda>_ s.
     bnd (case ip of None \<Rightarrow> Ret () s
          | Some ip \<Rightarrow> bnd (iunlockput ip s) (\<lambda>_ s. end_op s)) (\<lambda>_ s.
     Ret (- 1) s))"

text \<open>The loop over the program headers; \<open>None\<close> stands for \<open>goto bad\<close>.\<close>

fun exec_load :: "nat \<Rightarrow> uint \<Rightarrow> uint \<Rightarrow> uint \<Rightarrow> nat \<Rightarrow> ('x) consst_scheme \<Rightarrow> (('x) consst_scheme, uint option) outcome" where
  "exec_load 0 off d sz ip s = Ret (Some sz) s"
| "exec_load (Suc n) off d sz ip s =
     bnd (readi ip off 32 s) (\<lambda>(r, bs) s.
     if r \<noteq> 32 then Ret None s
     else
       let ph = proghdr_of bs in
       if ph_type ph \<noteq> ELF_PROG_LOAD then exec_load n (off + 32) d sz ip s
       else if ph_memsz ph < ph_filesz ph then Ret None s
       else if ph_vaddr ph + ph_memsz ph < ph_vaddr ph then Ret None s
       else
         bnd (allocuvm d sz (ph_vaddr ph + ph_memsz ph) s) (\<lambda>sz s.
         if sz = 0 then Ret None s
         else if ph_vaddr ph mod PGSIZE \<noteq> 0 then Ret None s
         else
           bnd (loaduvm d (ph_vaddr ph) ip (ph_off ph) (ph_filesz ph) s) (\<lambda>r s.
           if r < 0 then Ret None s else exec_load n (off + 32) d sz ip s)))"

text \<open>
  Pushing the argument strings: the stack pointer and \<open>ustack[3..3+argc]\<close>,
  or \<open>None\<close> for \<open>goto bad\<close>.
\<close>

fun exec_args ::
  "byte list list \<Rightarrow> uint \<Rightarrow> uint \<Rightarrow> uint list \<Rightarrow> ('x) vmst_scheme \<Rightarrow> (('x) vmst_scheme, (uint \<times> uint list) option) outcome" where
  "exec_args [] d sp us s = Ret (Some (sp, us)) s"
| "exec_args (a # as) d sp us s =
     (if length us \<ge> MAXARG then Ret None s
      else
        let sp = (sp - (of_nat (strlen a) + 1)) AND NOT 3 in
        bnd (copyout d sp (take (strlen a) a @ [0]) s) (\<lambda>r s.
        if r < 0 then Ret None s else exec_args as d sp (us @ [sp]) s))"

definition ustack_bytes :: "uint \<Rightarrow> uint list \<Rightarrow> byte list" where
  "ustack_bytes sp us =
     (let argc = of_nat (length us) in
      concat (map le32 ([0xFFFFFFFF, argc, sp - (argc + 1) * 4] @ us @ [0])))"

fun path_last :: "byte list \<Rightarrow> byte list \<Rightarrow> byte list" where
  "path_last e [] = e"
| "path_last e (c # t) = (if c = 0 then e else if c = 47 then path_last t t else path_last e t)"

definition exec_commit ::
  "nat option \<Rightarrow> byte list \<Rightarrow> uint \<Rightarrow> uint \<Rightarrow> uint \<Rightarrow> uint \<Rightarrow> ('x) ptab_scheme \<Rightarrow> (('x) ptab_scheme, int) outcome" where
  "exec_commit p path d sz sp entry s =
     (case p of None \<Rightarrow> Fault 136
      | Some p \<Rightarrow>
        let s = upd_proc p (\<lambda>q. q\<lparr>pname := safestrcpy (pname q) (path_last path path) 16\<rparr>) s;
            oldpgdir = pgdir (procs s ! p);
            s = upd_proc p (\<lambda>q. q\<lparr>pgdir := d\<rparr>) s;
            s = upd_proc p (\<lambda>q. q\<lparr>psz := sz\<rparr>) s;
            s = wr32 (tf (procs s ! p) + tf_eip) entry s;
            s = wr32 (tf (procs s ! p) + tf_esp) sp s in
        bnd (switchuvm (Some p) s) (\<lambda>_ s.
        bnd (freevm oldpgdir s) (\<lambda>_ s.
        Ret 0 s)))"

text \<open>From the page boundary behind the program on: the stack and its contents.\<close>

definition exec_stack ::
  "nat option \<Rightarrow> byte list \<Rightarrow> byte list list \<Rightarrow> uint \<Rightarrow> uint \<Rightarrow> uint \<Rightarrow> ('x) consst_scheme \<Rightarrow> (('x) consst_scheme, int) outcome" where
  "exec_stack p path argv d sz entry s =
     (let sz = PGROUNDUP sz in
      bnd (allocuvm d sz (sz + 2 * PGSIZE) s) (\<lambda>sz s.
      if sz = 0 then exec_bad d None s
      else
        bnd (clearpteu d (sz - 2 * PGSIZE) s) (\<lambda>_ s.
        bnd (exec_args argv d sz [] s) (\<lambda>r s.
        case r of None \<Rightarrow> exec_bad d None s
        | Some (sp, us) \<Rightarrow>
          let bs = ustack_bytes sp us;
              sp = sp - (3 + of_nat (length us) + 1) * 4 in
          bnd (copyout d sp bs s) (\<lambda>r s.
          if r < 0 then exec_bad d None s
          else exec_commit p path d sz sp entry s)))))"

definition exec :: "byte list \<Rightarrow> byte list list \<Rightarrow> ('x) consst_scheme \<Rightarrow> (('x) consst_scheme, int) outcome" where
  "exec path argv s =
     bnd (myproc s) (\<lambda>p s.
     bnd (begin_op s) (\<lambda>_ s.
     bnd (namei path s) (\<lambda>ip s.
     case ip of
       None \<Rightarrow>
         bnd (end_op s) (\<lambda>_ s.
         bnd (cprintf (asc ''exec: fail '' @ [10]) [] s) (\<lambda>_ s.
         bnd (cprintf (asc ''exec: Path name: %s'' @ [10]) [PStr (Some path)] s) (\<lambda>_ s.
         Ret (- 1) s)))
     | Some ip \<Rightarrow>
         bnd (ilock ip s) (\<lambda>_ s.
         bnd (readi ip 0 52 s) (\<lambda>(r, bs) s.
         let elf = elfhdr_of bs in
         if r \<noteq> 52 then exec_bad 0 (Some ip) s
         else if e_magic elf \<noteq> ELF_MAGIC then exec_bad 0 (Some ip) s
         else
           bnd (setupkvm s) (\<lambda>d s.
           if d = 0 then exec_bad 0 (Some ip) s
           else
             bnd (exec_load (unat (e_phnum elf)) (e_phoff elf) d 0 ip s) (\<lambda>sz s.
             case sz of None \<Rightarrow> exec_bad d (Some ip) s
             | Some sz \<Rightarrow>
               bnd (iunlockput ip s) (\<lambda>_ s.
               bnd (end_op s) (\<lambda>_ s.
               exec_stack p path argv d sz (e_entry elf) s)))))))))"

text \<open>\<open>sys_exec\<close>: the argument vector, at most \<open>MAXARG - 1\<close> strings.\<close>

fun exec_argv :: "nat \<Rightarrow> uint \<Rightarrow> ('x) ptab_scheme \<Rightarrow> (('x) ptab_scheme, byte list list option) outcome" where
  "exec_argv 0 a s = Ret None s"
| "exec_argv (Suc n) a s =
     bnd (fetchint a s) (\<lambda>r s.
     case r of None \<Rightarrow> Ret None s
     | Some uarg \<Rightarrow>
       if uarg = 0 then Ret (Some []) s
       else
         bnd (fetchstr uarg s) (\<lambda>t s.
         case t of None \<Rightarrow> Ret None s
         | Some t \<Rightarrow>
           bnd (exec_argv n (a + 4) s) (\<lambda>r s. Ret (map_option ((#) t) r) s)))"

definition sys_exec :: "('x) consst_scheme \<Rightarrow> (('x) consst_scheme, int) outcome" where
  "sys_exec s =
     bnd (argstr 0 s) (\<lambda>path s.
     case path of None \<Rightarrow> Ret (- 1) s
     | Some path \<Rightarrow>
     bnd (argint 1 s) (\<lambda>uargv s.
     case uargv of None \<Rightarrow> Ret (- 1) s
     | Some uargv \<Rightarrow>
     bnd (exec_argv MAXARG uargv s) (\<lambda>argv s.
     case argv of None \<Rightarrow> Ret (- 1) s
     | Some argv \<Rightarrow> exec path argv s)))"

end
