(* ===== verification/Date.thy ===== *)
theory Date
  imports Process
begin

text \<open>
  The real-time clock: \<open>cmostime\<close> of \<open>kernel/lapic.c\<close>, and
  \<open>getdate\<close>, \<open>setdate\<close>, \<open>tobcd\<close> of \<open>kernel/proc.c\<close>.

  \<open>cmos\<close> are the registers of the clock chip.  The chip runs on its own:
  \<open>rtc_step n\<close> is what happens to the registers between the \<open>n\<close>-th
  access and the next, a parameter of the model.  A clock that keeps changing can
  keep \<open>cmostime\<close> in its loop, so the loop has fuel.

  Not modelled: \<open>timerrate\<close> and \<open>tps\<close>, which calibrate the timer in
  floating point.
\<close>

section \<open>State\<close>

record datest = procst +
  cmos :: "byte \<Rightarrow> byte"
  rtc_step :: "nat \<Rightarrow> (byte \<Rightarrow> byte) \<Rightarrow> byte \<Rightarrow> byte"
  rtc_n :: nat

record rtcdate =
  second :: uint
  minute :: uint
  hour :: uint
  day :: uint
  month :: uint
  year :: uint

definition SECS :: byte where "SECS = 0x00"
definition MINS :: byte where "MINS = 0x02"
definition HOURS :: byte where "HOURS = 0x04"
definition DAY :: byte where "DAY = 0x07"
definition MONTH :: byte where "MONTH = 0x08"
definition YEAR :: byte where "YEAR = 0x09"
definition CMOS_STATA :: byte where "CMOS_STATA = 0x0A"
definition CMOS_STATB :: byte where "CMOS_STATB = 0x0B"
definition CMOS_UIP :: byte where "CMOS_UIP = 0x80"

section \<open>Reading the clock\<close>

definition cmos_read :: "byte \<Rightarrow> ('x) datest_scheme \<Rightarrow> uint \<times> ('x) datest_scheme" where
  "cmos_read reg s =
     (ucast (cmos s reg), s\<lparr>cmos := rtc_step s (rtc_n s) (cmos s), rtc_n := Suc (rtc_n s)\<rparr>)"

definition fill_rtcdate :: "('x) datest_scheme \<Rightarrow> rtcdate \<times> ('x) datest_scheme" where
  "fill_rtcdate s =
     (let (sc, s) = cmos_read SECS s;
          (mi, s) = cmos_read MINS s;
          (ho, s) = cmos_read HOURS s;
          (da, s) = cmos_read DAY s;
          (mo, s) = cmos_read MONTH s;
          (ye, s) = cmos_read YEAR s in
      (\<lparr>second = sc, minute = mi, hour = ho, day = da, month = mo, year = ye\<rparr>, s))"

fun cmostime_loop :: "nat \<Rightarrow> ('x) datest_scheme \<Rightarrow> (('x) datest_scheme, rtcdate) outcome" where
  "cmostime_loop 0 s = OutOfFuel"
| "cmostime_loop (Suc n) s =
     (let (t1, s) = fill_rtcdate s;
          (a, s) = cmos_read CMOS_STATA s in
      if a AND ucast CMOS_UIP \<noteq> 0 then cmostime_loop n s
      else
        let (t2, s) = fill_rtcdate s in
        if t1 = t2 then Ret t1 s else cmostime_loop n s)"

definition CONV :: "uint \<Rightarrow> uint" where
  "CONV x = drop_bit 4 x * 10 + (x AND 0xF)"

definition cmostime :: "nat \<Rightarrow> ('x) datest_scheme \<Rightarrow> (('x) datest_scheme, rtcdate) outcome" where
  "cmostime fuel s =
     bnd (acquire L_cmos s) (\<lambda>_ s.
     let (sb, s) = cmos_read CMOS_STATB s;
         bcd = (sb AND 4 = 0) in
     bnd (cmostime_loop fuel s) (\<lambda>t1 s.
     let t1 = (if bcd
               then \<lparr>second = CONV (second t1), minute = CONV (minute t1), hour = CONV (hour t1),
                     day = CONV (day t1), month = CONV (month t1), year = CONV (year t1)\<rparr>
               else t1);
         r = t1\<lparr>year := year t1 + 2000\<rparr> in
     bnd (release L_cmos s) (\<lambda>_ s. Ret r s)))"

definition rtcdate_bytes :: "rtcdate \<Rightarrow> byte list" where
  "rtcdate_bytes r =
     le32 (second r) @ le32 (minute r) @ le32 (hour r) @ le32 (day r) @ le32 (month r) @ le32 (year r)"

definition rtcdate_of :: "byte list \<Rightarrow> rtcdate" where
  "rtcdate_of bs =
     \<lparr>second = un32 (seg 0 4 bs), minute = un32 (seg 4 4 bs), hour = un32 (seg 8 4 bs),
      day = un32 (seg 12 4 bs), month = un32 (seg 16 4 bs), year = un32 (seg 20 4 bs)\<rparr>"

text \<open>\<open>getdate\<close> fetches its pointer again, so its parameter does not matter.\<close>

definition getdate :: "nat \<Rightarrow> ('x) datest_scheme \<Rightarrow> (('x) datest_scheme, int) outcome" where
  "getdate fuel s =
     bnd (argptr 0 24 s) (\<lambda>r s.
     case r of None \<Rightarrow> Ret (- 1) s
     | Some r \<Rightarrow>
       bnd (cmostime fuel s) (\<lambda>t s.
       bnd (ustore r (rtcdate_bytes t) s) (\<lambda>_ s. Ret 0 s)))"

section \<open>Setting the clock\<close>

function tobcd_loop :: "uint \<Rightarrow> uint \<Rightarrow> nat \<Rightarrow> uint" where
  "tobcd_loop x conv i =
     (if x > 0 then tobcd_loop (x div 10) (conv + push_bit (4 * i) (x mod 10)) (Suc i) else conv)"
  by pat_completeness auto
termination
  by (relation "measure (\<lambda>(x, conv, i). unat x)") (auto simp: unat_div word_gt_0 unat_gt_0)

declare tobcd_loop.simps [simp del]

definition tobcd :: "uint \<Rightarrow> uint" where
  "tobcd x = tobcd_loop x 0 0"

definition max_day :: "rtcdate \<Rightarrow> uint list" where
  "max_day r =
     (let isleap = (if year r mod 4 = 0 then 1 else 0) in
      [31, 28 + isleap, 31, 30, 31, 30, 31, 31, 30, 31, 30, 31])"

definition valid_date :: "rtcdate \<Rightarrow> bool" where
  "valid_date r \<longleftrightarrow>
     \<not> second r \<ge> 60 \<and> \<not> minute r \<ge> 60 \<and> \<not> hour r > 23 \<and> \<not> (month r \<le> 0 \<or> month r > 12) \<and>
     \<not> (day r \<le> 0 \<or> day r > 31) \<and> \<not> day r > max_day r ! unat (month r - 1)"

text \<open>
  \<open>outb(0x70, 1<<7 | reg); outb(0x71, v)\<close>: bit 7 of the index masks
  interrupts and does not select a register.
\<close>

definition cmos_write :: "byte \<Rightarrow> uint \<Rightarrow> ('x) datest_scheme \<Rightarrow> ('x) datest_scheme" where
  "cmos_write reg v s =
     s\<lparr>cmos := rtc_step s (rtc_n s) ((cmos s)(reg := ucast v)), rtc_n := Suc (rtc_n s)\<rparr>"

definition write_date :: "rtcdate \<Rightarrow> ('x) datest_scheme \<Rightarrow> ('x) datest_scheme" where
  "write_date r s =
     (let s = cmos_write YEAR (tobcd (year r)) s;
          s = cmos_write MONTH (tobcd (month r)) s;
          s = cmos_write DAY (tobcd (day r)) s;
          s = cmos_write HOURS (tobcd (hour r)) s;
          s = cmos_write MINS (tobcd (minute r)) s in
      cmos_write SECS (tobcd (second r)) s)"

definition setdate :: "('x) datest_scheme \<Rightarrow> (('x) datest_scheme, int) outcome" where
  "setdate s =
     bnd (argptr 0 24 s) (\<lambda>a s.
     case a of None \<Rightarrow> Ret (- 1) s
     | Some a \<Rightarrow>
       bnd (uload a 24 s) (\<lambda>bs s.
       let r = rtcdate_of bs in
       if \<not> valid_date r then Ret (- 1) s
       else
         bnd (pushcli s) (\<lambda>_ s.
         let s = write_date r s in
         bnd (popcli s) (\<lambda>_ s. Ret 0 s))))"

end
