(* ===== verification/Mmap.thy ===== *)
theory Mmap
  imports Date
begin

text \<open>
  Memory mapping and seeking: the last part of \<open>kernel/proc.c\<close>.

  The map table of a process is a page of kernel memory at \<open>mmt_start\<close>, an
  array of \<open>struct mme\<close> of 36 bytes linked through \<open>prev\<close> and
  \<open>next\<close>; \<open>p->mme\<close> is the head of the list, or -1.  The word that
  points to \<open>icache.inode[i]\<close> is \<open>sym_inode + 144 * i\<close>.  Memory
  at the sentinel -1 belongs to no object: an access there is \<open>Wild\<close>.
\<close>

section \<open>State\<close>

record mmapst = datest +
  sym_inode :: uint

definition MME_SIZE :: uint where "MME_SIZE = 36"

definition mme_addr :: "uint \<Rightarrow> uint" where "mme_addr e = e"
definition mme_sz :: "uint \<Rightarrow> uint" where "mme_sz e = e + 4"
definition mme_MFLAGS :: "uint \<Rightarrow> uint" where "mme_MFLAGS e = e + 8"
definition mme_offset :: "uint \<Rightarrow> uint" where "mme_offset e = e + 12"
definition mme_prev :: "uint \<Rightarrow> uint" where "mme_prev e = e + 16"
definition mme_next :: "uint \<Rightarrow> uint" where "mme_next e = e + 20"
definition mme_ip :: "uint \<Rightarrow> uint" where "mme_ip e = e + 24"
definition mme_fd :: "uint \<Rightarrow> uint" where "mme_fd e = e + 28"
definition mme_dirty :: "uint \<Rightarrow> uint" where "mme_dirty e = e + 32"

definition MAP_FILE :: uint where "MAP_FILE = 2"

definition ip_ptr :: "nat \<Rightarrow> ('x) mmapst_scheme \<Rightarrow> uint" where
  "ip_ptr i s = sym_inode s + 144 * of_nat i"

definition ptr_ip :: "uint \<Rightarrow> ('x) mmapst_scheme \<Rightarrow> nat" where
  "ptr_ip a s = unat ((a - sym_inode s) div 144)"

section \<open>Seeking\<close>

text \<open>
  \<open>ofile[fd]\<close> is not checked: outside the array the access is
  \<open>Wild\<close>.  16 and 20 are the offsets of \<open>ip\<close> and \<open>off\<close> in
  \<open>struct file\<close>, 88 that of \<open>size\<close> in \<open>struct inode\<close>.
\<close>

definition proc_file :: "int \<Rightarrow> ('x) filest_scheme \<Rightarrow> (('x) filest_scheme, nat option) outcome" where
  "proc_file fd s =
     bnd (curproc 68 s) (\<lambda>p s.
     if fd < 0 \<or> fd \<ge> int NOFILE then Wild else Ret (ofile (procs s ! p) ! nat fd) s)"

definition lseek :: "int \<Rightarrow> int \<Rightarrow> int \<Rightarrow> ('x) filest_scheme \<Rightarrow> (('x) filest_scheme, int) outcome" where
  "lseek fd off origin s =
     bnd (proc_file fd s) (\<lambda>f s.
     if origin < 0 \<or> origin > 2 then Ret (- 1) s
     else case f of None \<Rightarrow> Fault (if origin = 2 then 16 else 20)
     | Some f \<Rightarrow>
       if origin = 0 then Ret off (upd_file f (\<lambda>k. k\<lparr>foff := of_int off\<rparr>) s)
       else if origin = 1 then Ret off (upd_file f (\<lambda>k. k\<lparr>foff := foff k + of_int off\<rparr>) s)
       else case fip (files s ! f) of None \<Rightarrow> Fault 88
         | Some ip \<Rightarrow> Ret off (upd_file f (\<lambda>k. k\<lparr>foff := isize (inodes s ! ip) + of_int off\<rparr>) s))"

section \<open>Mapping\<close>

text \<open>\<open>entry + i\<close> is pointer arithmetic: it advances by \<open>i\<close> entries.\<close>

definition find_free_mmt_entry :: "uint \<Rightarrow> ('x) kmem_scheme \<Rightarrow> uint" where
  "find_free_mmt_entry start s =
     (if \<exists>k\<in>set [0..<114]. rd32 (mme_prev (start + (36 * of_nat k) * MME_SIZE)) s = 0
      then start else - 1)"

definition mmap_write_dirty :: "uint \<Rightarrow> uint \<Rightarrow> ('x) mmapst_scheme \<Rightarrow> (('x) mmapst_scheme, int) outcome" where
  "mmap_write_dirty entry addr s =
     (let ip = ptr_ip (rd32 (mme_ip entry) s) s in
      bnd (ilock ip s) (\<lambda>_ s.
      bnd (uload addr 4096 s) (\<lambda>bs s.
      bnd (writei ip bs (rd32 (mme_offset entry) s + (rd32 (mme_addr entry) s - addr)) s) (\<lambda>tmp s.
      bnd (iunlock ip s) (\<lambda>_ s.
      Ret tmp s)))))"

definition mmap_link :: "nat \<Rightarrow> uint \<Rightarrow> ('x) ptab_scheme \<Rightarrow> ('x) ptab_scheme" where
  "mmap_link p entry s =
     (let s = (if mme (procs s ! p) = - 1
               then wr32 (mme_next entry) 0 (wr32 (mme_prev entry) entry s)
               else
                 let s = wr32 (mme_prev entry) entry s;
                     s = wr32 (mme_next entry) (mme (procs s ! p)) s in
                 wr32 (mme_prev (mme (procs s ! p))) entry s) in
      upd_proc p (\<lambda>q. q\<lparr>mme := entry\<rparr>) s)"

definition mmap :: "int \<Rightarrow> int \<Rightarrow> int \<Rightarrow> int \<Rightarrow> ('x) mmapst_scheme \<Rightarrow> (('x) mmapst_scheme, uint) outcome" where
  "mmap fd len off flags s =
     (if len < 0 \<or> fd < 0 \<or> flags < 0 \<or> flags > 2 then Ret (- 1) s
      else
        bnd (curproc 24 s) (\<lambda>p s.
        let entry = find_free_mmt_entry (mmt_start (procs s ! p)) s in
        if entry < - 1
        then bnd (cprintf (asc ''mmap table out of memory'' @ [10]) [] s) (\<lambda>_ s. Ret (- 1) s)
        else
          let addr = PGROUNDDOWN (KERNBASE - pspace (procs s ! p)) in
          if addr \<le> psz (procs s ! p) then Ret (- 1) s
          else
            let s = upd_proc p (\<lambda>q. q\<lparr>pspace := (KERNBASE - addr) + of_int len\<rparr>) s in
              bnd (if flags = 2
                   then bnd (proc_file fd s) (\<lambda>f s.
                     case f of None \<Rightarrow> Fault 16
                     | Some f \<Rightarrow> (case fip (files s ! f) of None \<Rightarrow> Fault 88
                       | Some ip \<Rightarrow>
                         if of_int (len + off) > isize (inodes s ! ip) then Ret False s
                         else if entry = - 1 then Wild
                         else
                           let s = wr32 (mme_ip entry) (ip_ptr ip s) s;
                               s = wr32 (mme_fd entry) (of_int fd) s;
                               s = wr32 (mme_dirty entry) 0 s;
                               s = wr32 (mme_offset entry) (of_int off) s in
                           Ret True s))
                   else Ret True s) (\<lambda>ok s.
              if \<not> ok then Ret (- 1) s
              else if entry = - 1 then Wild
              else
                let s = wr32 (mme_MFLAGS entry) (of_int flags) s;
                    s = wr32 (mme_addr entry) addr s;
                    s = wr32 (mme_sz entry) (of_int len) s in
                Ret addr (mmap_link p entry s))))"

section \<open>Unmapping\<close>

text \<open>The search starts at the entry after \<open>e\<close>; the table has 113 entries.\<close>

fun munmap_find :: "nat \<Rightarrow> uint \<Rightarrow> uint \<Rightarrow> ('x) kmem_scheme \<Rightarrow> uint option" where
  "munmap_find 0 addr e s = None"
| "munmap_find (Suc n) addr e s =
     (let e = rd32 (mme_next e) s in
      if e \<noteq> 0 \<and> rd32 (mme_addr e) s \<noteq> addr then munmap_find n addr e s else Some e)"

fun munmap_sync :: "uint list \<Rightarrow> uint \<Rightarrow> nat \<Rightarrow> uint \<Rightarrow> ('x) mmapst_scheme \<Rightarrow> (('x) mmapst_scheme, int) outcome" where
  "munmap_sync [] e p addr s = Ret 0 s"
| "munmap_sync (i # js) e p addr s =
     bnd (walkpgdir (pgdir (procs s ! p)) (addr + i) False s) (\<lambda>pte s.
     if pte = 0 then Ret (- 1) s
     else
       bnd (if rd32 pte s AND PTE_D \<noteq> 0 then bnd (mmap_write_dirty e (addr + i) s) (\<lambda>_ s. Ret () s)
            else Ret () s) (\<lambda>_ s.
       munmap_sync js e p addr s))"

definition mme_zero :: "uint \<Rightarrow> ('x) kmem_scheme \<Rightarrow> ('x) kmem_scheme" where
  "mme_zero e s = s\<lparr>mem := memset e 0 MME_SIZE (mem s)\<rparr>"

definition munmap_unlink :: "nat \<Rightarrow> uint \<Rightarrow> ('x) ptab_scheme \<Rightarrow> ('x) ptab_scheme" where
  "munmap_unlink p e s =
     (if rd32 (mme_prev e) s = e \<and> rd32 (mme_next e) s = 0
      then upd_proc p (\<lambda>q. q\<lparr>mme := - 1\<rparr>) (mme_zero e s)
      else
        let s = (if rd32 (mme_prev e) s = e
                 then
                   let s = wr32 (mme_prev (rd32 (mme_next e) s)) (rd32 (mme_next e) s) s in
                   upd_proc p (\<lambda>q. q\<lparr>mme := e\<rparr>) s
                 else if rd32 (mme_next e) s = 0
                 then wr32 (mme_next (rd32 (mme_prev e) s)) 0 s
                 else
                   let s = wr32 (mme_next (rd32 (mme_prev e) s)) (rd32 (mme_next e) s) s in
                   wr32 (mme_prev (rd32 (mme_next e) s)) (rd32 (mme_prev e) s) s) in
        mme_zero e s)"

definition munmap :: "uint \<Rightarrow> int \<Rightarrow> ('x) mmapst_scheme \<Rightarrow> (('x) mmapst_scheme, int) outcome" where
  "munmap addr len s =
     bnd (curproc 28 s) (\<lambda>p s.
     if mme (procs s ! p) = - 1 then Ret (- 1) s
     else case munmap_find 114 addr (mme (procs s ! p)) s of
         None \<Rightarrow> OutOfFuel
       | Some e \<Rightarrow>
         if e = 0 then Ret (- 1) s
         else
           bnd (if rd32 (mme_MFLAGS e) s AND MAP_FILE \<noteq> 0
                then munmap_sync (page_steps 0 (of_nat (nat len))) e p addr s else Ret 0 s) (\<lambda>r s.
           if r < 0 then Ret (- 1) s
           else
             let s = munmap_unlink p e s in
             bnd (ustore addr (replicate (unat (of_int len :: uint)) 0) s) (\<lambda>_ s. Ret 0 s)))"

end
