(* ===== verification/Trap.thy ===== *)
theory Trap
  imports Mmap
begin

text \<open>
  Traps and the remaining system calls: \<open>kernel/trap.c\<close>,
  \<open>kernel/sysproc.c\<close>, and the dispatcher of \<open>kernel/syscall.c\<close>.

  The trap frame is in kernel memory at \<open>tf\<close>.  \<open>hw_cr2\<close> is the faulting
  address; \<open>kbd_in\<close> and \<open>com_in\<close> are the scan codes and characters the
  devices hold when they interrupt, \<open>kbd_shift\<close> the static variable
  \<open>shift\<close> of \<open>kbdgetc\<close>.  \<open>timerrate\<close>, which calibrates the
  timer in floating point, is an argument of the dispatcher.
\<close>

section \<open>State\<close>

record gatedesc =
  g_trap :: bool
  g_sel :: ushort
  g_off :: uint
  g_dpl :: byte

record trapst = mmapst +
  hw_cr2 :: uint
  kbd_shift :: byte
  kbd_in :: "byte list"
  com_in :: "byte list"
  idt :: "gatedesc list"
  vectors :: "uint list"

definition T_SYSCALL :: uint where "T_SYSCALL = 64"
definition T_PGFLT :: uint where "T_PGFLT = 14"

definition SETGATE :: "bool \<Rightarrow> ushort \<Rightarrow> uint \<Rightarrow> byte \<Rightarrow> gatedesc" where
  "SETGATE istrap sel off d = \<lparr>g_trap = istrap, g_sel = sel, g_off = off, g_dpl = d\<rparr>"

definition tvinit :: "('x) trapst_scheme \<Rightarrow> ('x) trapst_scheme" where
  "tvinit s =
     (let s = s\<lparr>idt := map (\<lambda>i. SETGATE False (push_bit 3 1) (vectors s ! i) 0) [0..<256]\<rparr>;
          s = s\<lparr>idt := (idt s)[unat T_SYSCALL := SETGATE True (push_bit 3 1) (vectors s ! unat T_SYSCALL) 3]\<rparr> in
      initlock L_ticks ''time'' s)"

section \<open>Process system calls\<close>

definition sys_fork :: "('x) filest_scheme \<Rightarrow> (('x) filest_scheme, uint) outcome" where
  "sys_fork s = fork s"

definition sys_exit :: "('x) filest_scheme \<Rightarrow> (('x) filest_scheme, uint) outcome" where
  "sys_exit s = bnd (exit s) (\<lambda>_ s. Ret 0 s)"

definition sys_wait :: "('x) ptab_scheme \<Rightarrow> (('x) ptab_scheme, uint) outcome" where
  "sys_wait s = wait s"

definition sys_kill :: "('x) ptab_scheme \<Rightarrow> (('x) ptab_scheme, int) outcome" where
  "sys_kill s = bnd (argint 0 s) (\<lambda>r s. case r of None \<Rightarrow> Ret (- 1) s | Some n \<Rightarrow> kill n s)"

definition sys_getpid :: "('x) ptab_scheme \<Rightarrow> (('x) ptab_scheme, uint) outcome" where
  "sys_getpid s = bnd (curproc 44 s) (\<lambda>p s. Ret (pid (procs s ! p)) s)"

definition sys_sbrk :: "('x) ptab_scheme \<Rightarrow> (('x) ptab_scheme, int) outcome" where
  "sys_sbrk s =
     bnd (argint 0 s) (\<lambda>r s.
     case r of None \<Rightarrow> Ret (- 1) s
     | Some n \<Rightarrow>
       bnd (curproc 0 s) (\<lambda>p s.
       let addr = psz (procs s ! p) in
       bnd (growproc (sint n) s) (\<lambda>r s.
       if r < 0 then Ret (- 1) s else Ret (sint addr) s)))"

text \<open>The comparison \<open>ticks - ticks0 < n\<close> is unsigned.\<close>

definition sys_sleep_loop :: "uint \<Rightarrow> uint \<Rightarrow> ('x) ptab_scheme \<Rightarrow> (('x) ptab_scheme, int) outcome" where
  "sys_sleep_loop n ticks0 s =
     (if ticks s - ticks0 < n
      then
        bnd (curproc 64 s) (\<lambda>p s.
        if killed (procs s ! p) then bnd (release L_ticks s) (\<lambda>_ s. Ret (- 1) s)
        else bnd (sleep Ch_ticks L_ticks s) (\<lambda>_ s. OutOfFuel))
      else bnd (release L_ticks s) (\<lambda>_ s. Ret 0 s))"

definition sys_sleep :: "('x) ptab_scheme \<Rightarrow> (('x) ptab_scheme, int) outcome" where
  "sys_sleep s =
     bnd (argint 0 s) (\<lambda>r s.
     case r of None \<Rightarrow> Ret (- 1) s
     | Some n \<Rightarrow>
       bnd (acquire L_ticks s) (\<lambda>_ s.
       sys_sleep_loop n (ticks s) s))"

definition sys_sleep_resume :: "nat \<Rightarrow> bool \<Rightarrow> uint \<Rightarrow> uint \<Rightarrow> ('x) ptab_scheme \<Rightarrow> (('x) ptab_scheme, int) outcome" where
  "sys_sleep_resume p ie n ticks0 s =
     bnd (sleep_resume p ie L_ticks s) (\<lambda>_ s. sys_sleep_loop n ticks0 s)"

definition sys_uptime :: "('x) ptab_scheme \<Rightarrow> (('x) ptab_scheme, uint) outcome" where
  "sys_uptime s =
     bnd (acquire L_ticks s) (\<lambda>_ s.
     let xticks = ticks s in
     bnd (release L_ticks s) (\<lambda>_ s. Ret xticks s))"

definition sys_getdate :: "nat \<Rightarrow> ('x) datest_scheme \<Rightarrow> (('x) datest_scheme, int) outcome" where
  "sys_getdate fuel s =
     bnd (argptr 0 24 s) (\<lambda>r s. case r of None \<Rightarrow> Ret (- 1) s | Some _ \<Rightarrow> getdate fuel s)"

definition sys_setdate :: "('x) datest_scheme \<Rightarrow> (('x) datest_scheme, int) outcome" where
  "sys_setdate s =
     bnd (argptr 0 24 s) (\<lambda>r s. case r of None \<Rightarrow> Ret (- 1) s | Some _ \<Rightarrow> setdate s)"

definition sys_timerrate ::
  "(uint \<Rightarrow> ('x) ptab_scheme \<Rightarrow> (('x) ptab_scheme, int) outcome) \<Rightarrow> ('x) ptab_scheme \<Rightarrow> (('x) ptab_scheme, int) outcome" where
  "sys_timerrate timerrate s =
     bnd (argptr 0 4 s) (\<lambda>hz s. case hz of None \<Rightarrow> Ret (- 1) s | Some hz \<Rightarrow> timerrate hz s)"

definition sys_lseek :: "('x) filest_scheme \<Rightarrow> (('x) filest_scheme, int) outcome" where
  "sys_lseek s =
     bnd (argint 0 s) (\<lambda>fd s. case fd of None \<Rightarrow> Ret (- 1) s | Some fd \<Rightarrow>
     bnd (argint 1 s) (\<lambda>off s. case off of None \<Rightarrow> Ret (- 1) s | Some off \<Rightarrow>
     bnd (argint 2 s) (\<lambda>origin s. case origin of None \<Rightarrow> Ret (- 1) s | Some origin \<Rightarrow>
     lseek (sint fd) (sint off) (sint origin) s)))"

definition sys_mmap :: "('x) mmapst_scheme \<Rightarrow> (('x) mmapst_scheme, uint) outcome" where
  "sys_mmap s =
     bnd (argint 0 s) (\<lambda>fd s. case fd of None \<Rightarrow> Ret (- 1) s | Some fd \<Rightarrow>
     bnd (argint 1 s) (\<lambda>len s. case len of None \<Rightarrow> Ret (- 1) s | Some len \<Rightarrow>
     bnd (argint 2 s) (\<lambda>off s. case off of None \<Rightarrow> Ret (- 1) s | Some off \<Rightarrow>
     bnd (argint 3 s) (\<lambda>flags s. case flags of None \<Rightarrow> Ret (- 1) s | Some flags \<Rightarrow>
     mmap (sint fd) (sint len) (sint off) (sint flags) s))))"

definition sys_munmap :: "('x) mmapst_scheme \<Rightarrow> (('x) mmapst_scheme, int) outcome" where
  "sys_munmap s =
     bnd (argint 1 s) (\<lambda>len s. case len of None \<Rightarrow> Ret (- 1) s | Some len \<Rightarrow>
     bnd (argptr 0 (sint len) s) (\<lambda>addr s. case addr of None \<Rightarrow> Ret (- 1) s | Some addr \<Rightarrow>
     munmap addr (sint len) s))"

section \<open>The dispatcher\<close>

definition ret_int :: "('s, int) outcome \<Rightarrow> ('s, uint) outcome" where
  "ret_int m = bnd m (\<lambda>r s. Ret (of_int r) s)"

text \<open>The table \<open>syscalls\<close>; \<open>None\<close> where it has no entry.\<close>

definition syscalls ::
  "nat \<Rightarrow> (uint \<Rightarrow> ('x) trapst_scheme \<Rightarrow> (('x) trapst_scheme, int) outcome) \<Rightarrow> nat \<Rightarrow>
   (('x) trapst_scheme \<Rightarrow> (('x) trapst_scheme, uint) outcome) option" where
  "syscalls fuel timerrate num =
     (if num = 1 then Some sys_fork else if num = 2 then Some sys_exit
      else if num = 3 then Some sys_wait else if num = 4 then Some (ret_int \<circ> sys_pipe)
      else if num = 5 then Some (ret_int \<circ> sys_read) else if num = 6 then Some (ret_int \<circ> sys_kill)
      else if num = 7 then Some (ret_int \<circ> sys_exec) else if num = 8 then Some (ret_int \<circ> sys_fstat)
      else if num = 9 then Some (ret_int \<circ> sys_chdir) else if num = 10 then Some (ret_int \<circ> sys_dup)
      else if num = 11 then Some sys_getpid else if num = 12 then Some (ret_int \<circ> sys_sbrk)
      else if num = 13 then Some (ret_int \<circ> sys_sleep) else if num = 14 then Some sys_uptime
      else if num = 15 then Some (ret_int \<circ> sys_open) else if num = 16 then Some (ret_int \<circ> sys_write)
      else if num = 17 then Some (ret_int \<circ> sys_mknod) else if num = 18 then Some (ret_int \<circ> sys_unlink)
      else if num = 19 then Some (ret_int \<circ> sys_link) else if num = 20 then Some (ret_int \<circ> sys_mkdir)
      else if num = 21 then Some (ret_int \<circ> sys_close) else if num = 22 then Some (ret_int \<circ> sys_getdate fuel)
      else if num = 23 then Some (ret_int \<circ> sys_setdate) else if num = 24 then Some (ret_int \<circ> sys_timerrate timerrate)
      else if num = 27 then Some (ret_int \<circ> sys_lseek) else if num = 28 then Some sys_mmap
      else if num = 29 then Some (ret_int \<circ> sys_munmap) else None)"

definition syscall ::
  "nat \<Rightarrow> (uint \<Rightarrow> ('x) trapst_scheme \<Rightarrow> (('x) trapst_scheme, int) outcome) \<Rightarrow>
   ('x) trapst_scheme \<Rightarrow> (('x) trapst_scheme, unit) outcome" where
  "syscall fuel timerrate s =
     bnd (curproc 52 s) (\<lambda>p s.
     let num = sint (rd32 (tf (procs s ! p) + tf_eax) s) in
     case (if num > 0 \<and> num < 30 then syscalls fuel timerrate (nat num) else None) of
       Some f \<Rightarrow> bnd (f s) (\<lambda>r s. Ret () (wr32 (tf (procs s ! p) + tf_eax) r s))
     | None \<Rightarrow>
         bnd (cprintf (asc ''%d %s: unknown sys call %d'' @ [10])
                [PInt (pid (procs s ! p)), PStr (Some (pname (procs s ! p))), PInt (of_int num)] s) (\<lambda>_ s.
         Ret () (wr32 (tf (procs s ! p) + tf_eax) (- 1) s)))"

section \<open>Traps\<close>

definition tf_trapno :: uint where "tf_trapno = 48"
definition tf_err :: uint where "tf_err = 52"
definition tf_cs :: uint where "tf_cs = 60"

definition cs_of :: "uint \<Rightarrow> ('x) kmem_scheme \<Rightarrow> ushort" where
  "cs_of t s = un16 [mem s (t + tf_cs), mem s (t + tf_cs + 1)]"

definition exit_if_killed :: "uint \<Rightarrow> ('x) filest_scheme \<Rightarrow> (('x) filest_scheme, unit) outcome" where
  "exit_if_killed t s =
     bnd (myproc s) (\<lambda>p s.
     if (case p of None \<Rightarrow> False | Some p \<Rightarrow> killed (procs s ! p)) \<and> cs_of t s AND 3 = DPL_USER
     then exit s else Ret () s)"

text \<open>The message of the default case, and killing the process that misbehaved.\<close>

definition trap_unexpected :: "uint \<Rightarrow> ('x) trapst_scheme \<Rightarrow> (('x) trapst_scheme, unit) outcome" where
  "trap_unexpected t s =
     bnd (cpuid s) (\<lambda>c s.
     cprintf (asc ''unexpected trap %d from cpu %d eip %x (cr2=0x%x)'' @ [10])
       [PInt (rd32 (t + tf_trapno) s), PInt (of_nat c), PInt (rd32 (t + tf_eip) s), PInt (hw_cr2 s)] s)"

definition trap_kill :: "uint \<Rightarrow> nat \<Rightarrow> ('x) trapst_scheme \<Rightarrow> (('x) trapst_scheme, unit) outcome" where
  "trap_kill t p s =
     bnd (cpuid s) (\<lambda>c s.
     bnd (cprintf (asc ''pid %d %s: trap %d err %d on cpu %d eip 0x%x addr 0x%x--kill proc'' @ [10])
       [PInt (pid (procs s ! p)), PStr (Some (pname (procs s ! p))), PInt (rd32 (t + tf_trapno) s),
        PInt (rd32 (t + tf_err) s), PInt (of_nat c), PInt (rd32 (t + tf_eip) s), PInt (hw_cr2 s)] s) (\<lambda>_ s.
     bnd (curproc 64 s) (\<lambda>p s.
     Ret () (upd_proc p (\<lambda>q. q\<lparr>killed := True\<rparr>) s))))"

text \<open>The result says whether \<open>trap\<close> goes on after the \<open>switch\<close>.\<close>

definition trap_default :: "uint \<Rightarrow> ('x) trapst_scheme \<Rightarrow> (('x) trapst_scheme, bool) outcome" where
  "trap_default t s =
     bnd (myproc s) (\<lambda>p s.
     case p of
       None \<Rightarrow> bnd (trap_unexpected t s) (\<lambda>_ s. Ret False s)
     | Some p \<Rightarrow>
         if cs_of t s AND 3 = 0 then bnd (trap_unexpected t s) (\<lambda>_ s. Ret False s)
         else bnd (trap_kill t p s) (\<lambda>_ s. Ret True s))"

text \<open>
  The page fault handler: the search of the map list, with fuel for the 113
  entries of a table; \<open>None\<close> when the fuel runs out.
\<close>

fun pgflt_find :: "nat \<Rightarrow> uint \<Rightarrow> uint \<Rightarrow> ('x) kmem_scheme \<Rightarrow> uint option" where
  "pgflt_find 0 addr e s = None"
| "pgflt_find (Suc n) addr e s =
     (if rd32 (mme_addr e) s \<ge> addr \<and> sint (rd32 (mme_addr e) s + rd32 (mme_sz e) s) \<le> sint addr then Some e
      else let e = rd32 (mme_next e) s in if e \<noteq> 0 then pgflt_find n addr e s else Some 0)"

text \<open>The \<open>if\<close> of the last loop governs \<open>entry = entry->next\<close>.\<close>

fun pgflt_dirty :: "nat \<Rightarrow> uint \<Rightarrow> ('x) kmem_scheme \<Rightarrow> bool" where
  "pgflt_dirty 0 e s = False"
| "pgflt_dirty (Suc n) e s =
     (let e = (if rd32 (mme_dirty e) s \<noteq> 0 then rd32 (mme_next e) s else e) in
      if e \<noteq> 0 then pgflt_dirty n e s else True)"

definition trap_pgflt :: "uint \<Rightarrow> ('x) trapst_scheme \<Rightarrow> (('x) trapst_scheme, bool) outcome" where
  "trap_pgflt t s =
     bnd (curproc 28 s) (\<lambda>p s.
     let addr = hw_cr2 s; entry = mme (procs s ! p) in
     if entry = - 1 then Wild
     else case pgflt_find 114 addr entry s of
         None \<Rightarrow> OutOfFuel
       | Some e \<Rightarrow>
           if e = 0 then trap_default t s
           else
             bnd (kalloc s) (\<lambda>pa s.
             bnd (mappages (pgdir (procs s ! p)) addr PGSIZE pa (PTE_P OR PTE_W OR PTE_U) s) (\<lambda>_ s.
             if pgflt_dirty 114 e s then Ret True s else OutOfFuel)))"

definition trap_timer :: "('x) trapst_scheme \<Rightarrow> (('x) trapst_scheme, unit) outcome" where
  "trap_timer s =
     bnd (cpuid s) (\<lambda>c s.
     bnd (if c = 0
          then
            bnd (acquire L_ticks s) (\<lambda>_ s.
            let s = s\<lparr>ticks := ticks s + 1\<rparr> in
            bnd (if HW3_cpu_util then proc_update_ticks s else Ret () s) (\<lambda>_ s.
            bnd (wakeup Ch_ticks s) (\<lambda>_ s.
            release L_ticks s)))
          else Ret () s) (\<lambda>_ s.
     Ret () (lapiceoi s)))"

definition trap_spurious :: "uint \<Rightarrow> ('x) trapst_scheme \<Rightarrow> (('x) trapst_scheme, unit) outcome" where
  "trap_spurious t s =
     bnd (cpuid s) (\<lambda>c s.
     bnd (cprintf (asc ''cpu%d: spurious interrupt (%d) at %x:%x'' @ [10])
       [PInt (of_nat c), PInt (rd32 (t + tf_trapno) s), PInt (ucast (cs_of t s)), PInt (rd32 (t + tf_eip) s)] s) (\<lambda>_ s.
     Ret () (lapiceoi s)))"

definition trap_switch :: "uint \<Rightarrow> ('x) trapst_scheme \<Rightarrow> (('x) trapst_scheme, bool) outcome" where
  "trap_switch t s =
     (let no = rd32 (t + tf_trapno) s in
      if no = T_IRQ0 + IRQ_TIMER then bnd (trap_timer s) (\<lambda>_ s. Ret True s)
      else if no = T_IRQ0 + IRQ_IDE then Ret True (lapiceoi s)
      else if no = T_IRQ0 + IRQ_IDE + 1 then Ret True s
      else if no = T_IRQ0 + IRQ_KBD
      then bnd (kbdintr (kbd_shift s) (kbd_in s) s) (\<lambda>sh s. Ret True (lapiceoi (s\<lparr>kbd_shift := sh, kbd_in := []\<rparr>)))
      else if no = T_IRQ0 + IRQ_COM1 \<or> no = T_IRQ0 + IRQ_COM2
      then bnd (uartintr (com_in s) s) (\<lambda>_ s. Ret True (lapiceoi (s\<lparr>com_in := []\<rparr>)))
      else if no = T_IRQ0 + 7 \<or> no = T_IRQ0 + IRQ_SPURIOUS \<or> no = T_IRQ0 + IRQ_SPURIOUS1
      then bnd (trap_spurious t s) (\<lambda>_ s. Ret True s)
      else if no = T_PGFLT then trap_pgflt t s
      else trap_default t s)"

definition trap ::
  "nat \<Rightarrow> (uint \<Rightarrow> ('x) trapst_scheme \<Rightarrow> (('x) trapst_scheme, int) outcome) \<Rightarrow>
   uint \<Rightarrow> ('x) trapst_scheme \<Rightarrow> (('x) trapst_scheme, unit) outcome" where
  "trap fuel timerrate t s =
     (if rd32 (t + tf_trapno) s = T_SYSCALL
      then
        bnd (curproc 64 s) (\<lambda>p s.
        bnd (if killed (procs s ! p) then exit s else Ret () s) (\<lambda>_ s.
        bnd (curproc 52 s) (\<lambda>p s.
        let s = upd_proc p (\<lambda>q. q\<lparr>tf := t\<rparr>) s in
        bnd (syscall fuel timerrate s) (\<lambda>_ s.
        bnd (curproc 64 s) (\<lambda>p s.
        if killed (procs s ! p) then exit s else Ret () s)))))
      else
        bnd (trap_switch t s) (\<lambda>cont s.
        if \<not> cont then Ret () s
        else
          bnd (exit_if_killed t s) (\<lambda>_ s.
          bnd (if rd32 (t + tf_trapno) s = T_IRQ0 + IRQ_TIMER then reschedule s else Ret () s) (\<lambda>_ s.
          exit_if_killed t s))))"

end
