(* ===== verification/Boot.thy ===== *)
theory Boot
  imports Process
begin

text \<open>
  The boot loader, \<open>boot/bootmain.c\<close>.

  It runs alone on the machine: its state is the memory and the traffic with the disk.
  \<open>boot_in h n p\<close> is what a read of port \<open>p\<close> gives after the bytes
  \<open>h\<close> have been sent and \<open>n\<close> reads have been made, and
  \<open>boot_data h\<close> the sector that the data port delivers after \<open>h\<close>.
\<close>

section \<open>State\<close>

record bootst =
  bmem :: memory
  bout :: "(ushort \<times> byte) list"
  breads :: nat
  boot_in :: "(ushort \<times> byte) list \<Rightarrow> nat \<Rightarrow> ushort \<Rightarrow> byte"
  boot_data :: "(ushort \<times> byte) list \<Rightarrow> byte list"

definition SECTSIZE :: nat where "SECTSIZE = 512"

definition boot_outb :: "ushort \<Rightarrow> byte \<Rightarrow> bootst \<Rightarrow> bootst" where
  "boot_outb p v s = s\<lparr>bout := bout s @ [(p, v)]\<rparr>"

section \<open>Reading the disk\<close>

text \<open>The first argument of the loops bounds their rounds.\<close>

fun waitdisk :: "nat \<Rightarrow> bootst \<Rightarrow> (bootst, unit) outcome" where
  "waitdisk 0 s = OutOfFuel"
| "waitdisk (Suc k) s =
     (let r = boot_in s (bout s) (breads s) 0x1F7; s = s\<lparr>breads := Suc (breads s)\<rparr> in
      if r AND 0xC0 \<noteq> 0x40 then waitdisk k s else Ret () s)"

definition readsect :: "nat \<Rightarrow> uint \<Rightarrow> uint \<Rightarrow> bootst \<Rightarrow> (bootst, unit) outcome" where
  "readsect k dst offset s =
     bnd (waitdisk k s) (\<lambda>_ s.
     let s = boot_outb 0x1F2 1 s;
         s = boot_outb 0x1F3 (ucast offset) s;
         s = boot_outb 0x1F4 (ucast (drop_bit 8 offset)) s;
         s = boot_outb 0x1F5 (ucast (drop_bit 16 offset)) s;
         s = boot_outb 0x1F6 (ucast (drop_bit 24 offset OR 0xE0)) s;
         s = boot_outb 0x1F7 0x20 s in
     bnd (waitdisk k s) (\<lambda>_ s.
     Ret () (s\<lparr>bmem := write_bytes dst (boot_data s (bout s)) (bmem s)\<rparr>)))"

fun readseg_loop :: "nat \<Rightarrow> nat \<Rightarrow> uint \<Rightarrow> uint \<Rightarrow> uint \<Rightarrow> bootst \<Rightarrow> (bootst, unit) outcome" where
  "readseg_loop n k pa epa offset s =
     (if \<not> pa < epa then Ret () s
      else case n of 0 \<Rightarrow> OutOfFuel
      | Suc n \<Rightarrow> bnd (readsect k pa offset s) (\<lambda>_ s. readseg_loop n k (pa + of_nat SECTSIZE) epa (offset + 1) s))"

declare readseg_loop.simps [simp del]

definition readseg :: "nat \<Rightarrow> nat \<Rightarrow> uint \<Rightarrow> uint \<Rightarrow> uint \<Rightarrow> bootst \<Rightarrow> (bootst, unit) outcome" where
  "readseg n k pa count offset s =
     (let epa = pa + count;
          pa = pa - offset mod of_nat SECTSIZE;
          offset = offset div of_nat SECTSIZE + 1 in
      readseg_loop n k pa epa offset s)"

section \<open>Loading the kernel\<close>

fun load_segments :: "nat \<Rightarrow> nat \<Rightarrow> nat \<Rightarrow> uint \<Rightarrow> uint \<Rightarrow> bootst \<Rightarrow> (bootst, unit) outcome" where
  "load_segments m n k ph eph s =
     (if \<not> ph < eph then Ret () s
      else case m of 0 \<Rightarrow> OutOfFuel
      | Suc m \<Rightarrow>
        let pa = load32 (ph + 12) (bmem s) in
        bnd (readseg n k pa (load32 (ph + 16) (bmem s)) (load32 (ph + 4) (bmem s)) s) (\<lambda>_ s.
        let filesz = load32 (ph + 16) (bmem s);
            memsz = load32 (ph + 20) (bmem s);
            s = (if memsz > filesz then s\<lparr>bmem := stosb (pa + filesz) 0 (unat (memsz - filesz)) (bmem s)\<rparr> else s) in
        load_segments m n k (ph + 32) eph s))"

declare load_segments.simps [simp del]

text \<open>
  The answer is the address that is called, or \<open>None\<close> when the image is not an ELF
  file and the loader returns to \<open>bootasm.S\<close>.
\<close>

definition bootmain :: "nat \<Rightarrow> nat \<Rightarrow> nat \<Rightarrow> bootst \<Rightarrow> (bootst, uint option) outcome" where
  "bootmain m n k s =
     (let elf = 0x10000 in
      bnd (readseg n k elf 4096 0 s) (\<lambda>_ s.
      if load32 elf (bmem s) \<noteq> ELF_MAGIC then Ret None s
      else
        let ph = elf + load32 (elf + 28) (bmem s);
            eph = ph + 32 * ucast (un16 [bmem s (elf + 44), bmem s (elf + 45)]) in
        bnd (load_segments m n k ph eph s) (\<lambda>_ s.
        Ret (Some (load32 (elf + 24) (bmem s))) s)))"

section \<open>What is read\<close>

text \<open>What the documentation of ATA drives says of a read command, for the sectors a 28-bit number can name.\<close>

definition sect_cmd :: "uint \<Rightarrow> (ushort \<times> byte) list" where
  "sect_cmd n = [(0x1F2, 1), (0x1F3, ucast n), (0x1F4, ucast (drop_bit 8 n)), (0x1F5, ucast (drop_bit 16 n)),
     (0x1F6, ucast (drop_bit 24 n OR 0xE0)), (0x1F7, 0x20)]"

definition boot_disk :: "(nat \<Rightarrow> byte list) \<Rightarrow> ((ushort \<times> byte) list \<Rightarrow> byte list) \<Rightarrow> bool" where
  "boot_disk dsk data \<longleftrightarrow> (\<forall>h n. unat n < 2 ^ 28 \<longrightarrow> length (dsk (unat n)) = SECTSIZE \<and> data (h @ sect_cmd n) = dsk (unat n))"

definition disk_ready :: "nat \<Rightarrow> bootst \<Rightarrow> bool" where
  "disk_ready k s \<longleftrightarrow> (\<forall>h n. \<exists>i<k. boot_in s h (n + i) 0x1F7 AND 0xC0 = 0x40)"

text \<open>The bytes of the kernel image, which starts at sector 1.\<close>

definition image :: "(nat \<Rightarrow> byte list) \<Rightarrow> nat \<Rightarrow> byte" where
  "image dsk i = dsk (1 + i div SECTSIZE) ! (i mod SECTSIZE)"

lemma waitdisk_ready:
  assumes "\<exists>i<k. boot_in s (bout s) (breads s + i) 0x1F7 AND 0xC0 = 0x40"
  shows "\<exists>n. waitdisk k s = Ret () (s\<lparr>breads := n\<rparr>)"
  using assms
proof (induction k arbitrary: s)
  case (Suc k)
  show ?case
  proof (cases "boot_in s (bout s) (breads s) 0x1F7 AND 0xC0 = 0x40")
    case True
    then show ?thesis by (auto simp: Let_def)
  next
    case False
    from Suc.prems obtain i where i: "i < Suc k" "boot_in s (bout s) (breads s + i) 0x1F7 AND 0xC0 = 0x40" by blast
    with False obtain j where "i = Suc j" by (cases i) auto
    with i have "\<exists>i<k. boot_in s (bout s) (Suc (breads s) + i) 0x1F7 AND 0xC0 = 0x40" by auto
    with Suc.IH[of "s\<lparr>breads := Suc (breads s)\<rparr>"] False show ?thesis by (auto simp: Let_def)
  qed
qed simp

lemma readsect_reads:
  assumes "boot_disk dsk (boot_data s)" "disk_ready k s" "unat off < 2 ^ 28"
  shows "\<exists>n h. readsect k dst off s = Ret () (s\<lparr>bmem := write_bytes dst (dsk (unat off)) (bmem s), bout := h, breads := n\<rparr>)"
proof -
  obtain n where n: "waitdisk k s = Ret () (s\<lparr>breads := n\<rparr>)" using waitdisk_ready[of k s] assms(2) by (auto simp: disk_ready_def)
  let ?s = "s\<lparr>breads := n, bout := bout s @ sect_cmd off\<rparr>"
  obtain m where m: "waitdisk k ?s = Ret () (?s\<lparr>breads := m\<rparr>)" using waitdisk_ready[of k ?s] assms(2) by (auto simp: disk_ready_def)
  have "boot_data s (bout s @ sect_cmd off) = dsk (unat off)" using assms(1,3) by (simp add: boot_disk_def)
  moreover have "readsect k dst off s = bnd (waitdisk k ?s) (\<lambda>_ s. Ret () (s\<lparr>bmem := write_bytes dst (boot_data s (bout s)) (bmem s)\<rparr>))"
    using n by (simp add: readsect_def boot_outb_def sect_cmd_def Let_def)
  ultimately show ?thesis using m by (intro exI[of _ m] exI[of _ "bout s @ sect_cmd off"]) simp
qed
lemma disk_upd [simp]: "disk_ready k (s\<lparr>bmem := m, bout := h, breads := n\<rparr>) = disk_ready k s"
  by (simp add: disk_ready_def)

definition rounds :: "uint \<Rightarrow> uint \<Rightarrow> nat" where
  "rounds pa epa = (unat epa - unat pa + 511) div 512"

lemma rounds_0: "rounds pa epa = 0 \<longleftrightarrow> \<not> pa < epa"
  by (auto simp: rounds_def word_less_nat_alt)

lemma rounds_step:
  assumes "pa < epa" "unat epa + 512 \<le> 2 ^ 32"
  shows "unat (pa + 512) = unat pa + 512" "rounds pa epa = Suc (rounds (pa + 512) epa)"
proof -
  have l: "unat pa < unat epa" using assms(1) by (simp add: word_less_nat_alt)
  show u: "unat (pa + 512) = unat pa + 512" using l assms(2) by (subst unat_plus_if') simp
  have "unat epa - unat pa + 511 = (unat epa - (unat pa + 512) + 511) + 512 \<or> unat epa - unat pa \<le> 512" using l by linarith
  then show "rounds pa epa = Suc (rounds (pa + 512) epa)"
  proof
    assume "unat epa - unat pa \<le> 512"
    then have "rounds pa epa = 1" "rounds (pa + 512) epa = 0" using l u by (simp_all add: rounds_def)
    then show ?thesis by simp
  next
    assume e: "unat epa - unat pa + 511 = (unat epa - (unat pa + 512) + 511) + 512"
    have "rounds pa epa = ((unat epa - (unat pa + 512) + 511) + 512) div 512" unfolding rounds_def e ..
    also have "\<dots> = Suc ((unat epa - (unat pa + 512) + 511) div 512)" by (rule div_add_self2[THEN trans]) simp_all
    finally show ?thesis by (simp only: rounds_def u)
  qed
qed

lemma write_sector:
  assumes "unat pa + 512 \<le> 2 ^ 32" "length d = 512"
  shows "write_bytes pa d m x = (if unat pa \<le> unat x \<and> unat x < unat pa + 512 then d ! (unat x - unat pa) else m x)"
proof -
  have "unat (x - pa) = (if unat pa \<le> unat x then unat x - unat pa else unat x + 2 ^ 32 - unat pa)"
    by (simp add: unat_sub_if_size word_size word_le_nat_alt)
  then show ?thesis using assms by (auto simp: write_bytes_def)
qed

lemma readseg_loop_reads:
  assumes "boot_disk dsk (boot_data s)" "disk_ready k s" "unat epa + 512 \<le> 2 ^ 32" "rounds pa epa \<le> n"
    "unat off + rounds pa epa \<le> 2 ^ 28"
  shows "\<exists>m h j. readseg_loop n k pa epa off s = Ret () (s\<lparr>bmem := m, bout := h, breads := j\<rparr>) \<and>
     (\<forall>x. m x = (if unat pa \<le> unat x \<and> unat x < unat pa + 512 * rounds pa epa
        then dsk (unat off + (unat x - unat pa) div 512) ! ((unat x - unat pa) mod 512) else bmem s x))"
  using assms
proof (induction n arbitrary: pa off s)
  case 0
  then have "\<not> pa < epa" by (simp flip: rounds_0)
  then have "readseg_loop 0 k pa epa off s = Ret () (s\<lparr>bmem := bmem s, bout := bout s, breads := breads s\<rparr>)"
    by (simp add: readseg_loop.simps)
  moreover have "rounds pa epa = 0" using 0 by simp
  ultimately show ?case by (intro exI[of _ "bmem s"] exI[of _ "bout s"] exI[of _ "breads s"]) auto
next
  case (Suc n)
  show ?case
  proof (cases "pa < epa")
    case False
    then have "readseg_loop (Suc n) k pa epa off s = Ret () (s\<lparr>bmem := bmem s, bout := bout s, breads := breads s\<rparr>)"
      by (simp add: readseg_loop.simps)
    moreover have "rounds pa epa = 0" using False rounds_0 by simp
    ultimately show ?thesis by (intro exI[of _ "bmem s"] exI[of _ "bout s"] exI[of _ "breads s"]) auto
  next
    case True
    note st = rounds_step[OF True Suc.prems(3)]
    have o: "unat off < 2 ^ 28" "unat (off + 1) = unat off + 1"
      using Suc.prems(5) st(2) by (simp, subst unat_plus_if') simp
    obtain j h where r: "readsect k pa off s = Ret () (s\<lparr>bmem := write_bytes pa (dsk (unat off)) (bmem s), bout := h, breads := j\<rparr>)"
      using readsect_reads[OF Suc.prems(1,2) o(1)] by blast
    let ?s = "s\<lparr>bmem := write_bytes pa (dsk (unat off)) (bmem s), bout := h, breads := j\<rparr>"
    obtain m h' j' where R: "readseg_loop n k (pa + 512) epa (off + 1) ?s = Ret () (?s\<lparr>bmem := m, bout := h', breads := j'\<rparr>)"
      "\<And>x. m x = (if unat (pa + 512) \<le> unat x \<and> unat x < unat (pa + 512) + 512 * rounds (pa + 512) epa
        then dsk (unat (off + 1) + (unat x - unat (pa + 512)) div 512) ! ((unat x - unat (pa + 512)) mod 512) else bmem ?s x)"
      using Suc.IH[of ?s "pa + 512" "off + 1"] Suc.prems st o(2) by auto
    have e: "readseg_loop (Suc n) k pa epa off s = Ret () (s\<lparr>bmem := m, bout := h', breads := j'\<rparr>)"
      using True r R(1) by (subst readseg_loop.simps) (simp add: SECTSIZE_def)
    have l: "length (dsk (unat off)) = 512" using Suc.prems(1) o(1) by (simp add: boot_disk_def SECTSIZE_def)
    have "unat pa + 512 \<le> 2 ^ 32" using st(1) unat_lt32[of "pa + 512"] by simp
    note w = write_sector[OF this l]
    have "m x = (if unat pa \<le> unat x \<and> unat x < unat pa + 512 * rounds pa epa
        then dsk (unat off + (unat x - unat pa) div 512) ! ((unat x - unat pa) mod 512) else bmem s x)" for x
    proof (cases "unat pa + 512 \<le> unat x")
      case True
      then obtain d where d: "unat x = unat pa + 512 + d" using le_Suc_ex by blast
      then have "(unat x - unat pa) div 512 = Suc (d div 512)" "(unat x - unat pa) mod 512 = d mod 512" by simp_all
      then show ?thesis unfolding R(2) st o(2) using d by (simp add: w)
    next
      case False
      then show ?thesis unfolding R(2) st using st(2) by (auto simp: w)
    qed
    with e show ?thesis by blast
  qed
qed
lemma sector_split: "((a :: nat) + i) div 512 = a div 512 + (a mod 512 + i) div 512" "(a + i) mod 512 = (a mod 512 + i) mod 512"
proof -
  have e: "a + i = (a mod 512 + i) + a div 512 * 512" by simp
  show "(a + i) div 512 = a div 512 + (a mod 512 + i) div 512" by (subst e, subst div_mult_self1) simp_all
  show "(a + i) mod 512 = (a mod 512 + i) mod 512" by (subst e, subst mod_mult_self1) simp
qed

lemma readseg_loads:
  assumes "boot_disk dsk (boot_data s)" "disk_ready k s" "unat off mod 512 \<le> unat pa" "unat pa + unat cnt + 512 \<le> 2 ^ 32"
    "unat cnt div 512 + 2 \<le> n"
  shows "\<exists>m h j. readseg n k pa cnt off s = Ret () (s\<lparr>bmem := m, bout := h, breads := j\<rparr>) \<and>
     (\<forall>i<unat cnt. m (pa + of_nat i) = image dsk (unat off + i)) \<and>
     (\<forall>x. unat x < unat pa - unat off mod 512 \<or> unat pa + unat cnt + 512 \<le> unat x \<longrightarrow> m x = bmem s x)"
proof -
  let ?r = "unat off mod 512" and ?pa = "pa - off mod 512" and ?epa = "pa + cnt" and ?off = "off div 512 + 1"
  have r: "unat (off mod 512) = ?r" by (simp add: unat_mod)
  have p: "unat ?pa = unat pa - ?r" using assms(3) r by (simp add: unat_sub word_le_nat_alt)
  have e: "unat ?epa = unat pa + unat cnt" using assms(4) by (subst unat_plus_if') simp
  have d: "unat (off div 512) = unat off div 512" by (simp add: unat_div)
  have "unat off div 512 < 2 ^ 23" using unat_lt32[of off] by (simp add: less_mult_imp_div_less)
  then have o: "unat ?off = unat off div 512 + 1" using d by (subst unat_plus_if') simp
  define R where "R = rounds ?pa ?epa"
  have "unat ?epa - unat ?pa = unat cnt + ?r" using p e assms(3) by simp
  then have R: "R = (unat cnt + ?r + 511) div 512" by (simp add: R_def rounds_def)
  have "?r < 512" by simp
  then have Rn: "R \<le> n" using assms(5) unfolding R by linarith
  have "R < 2 ^ 24" unfolding R using unat_lt32[of cnt] \<open>?r < 512\<close> by (intro less_mult_imp_div_less) simp
  then have "unat ?off + R \<le> 2 ^ 28" using o \<open>unat off div 512 < 2 ^ 23\<close> by simp
  then obtain m h j where M: "readseg_loop n k ?pa ?epa ?off s = Ret () (s\<lparr>bmem := m, bout := h, breads := j\<rparr>)"
    "\<And>x. m x = (if unat ?pa \<le> unat x \<and> unat x < unat ?pa + 512 * R
        then dsk (unat ?off + (unat x - unat ?pa) div 512) ! ((unat x - unat ?pa) mod 512) else bmem s x)"
    using readseg_loop_reads[OF assms(1,2), of ?epa ?pa n ?off] e assms(4) Rn by (auto simp: R_def)
  have "(a :: nat) \<le> 512 * ((a + 511) div 512)" "512 * ((a + 511) div 512) \<le> a + 511" for a by linarith+
  from this[of "unat cnt + ?r"] have top: "unat cnt + ?r \<le> 512 * R" "512 * R \<le> unat cnt + ?r + 511" unfolding R by blast+
  have "m (pa + of_nat i) = image dsk (unat off + i)" if i: "i < unat cnt" for i
  proof -
    have "i < 2 ^ 32" using i unat_lt32[of cnt] by simp
    then have "unat (of_nat i :: uint) = i" by (simp add: unat_of_nat)
    then have u: "unat (pa + of_nat i) = unat pa + i" using i assms(4) by (subst unat_plus_if') simp
    have x: "unat pa + i - (unat pa - ?r) = ?r + i" using assms(3) by simp
    have "unat pa - ?r \<le> unat pa + i \<and> unat pa + i < unat pa - ?r + 512 * R" using i top(1) assms(3) by linarith
    then show ?thesis
      unfolding M(2) u p o x using sector_split[of "unat off" i] by (simp add: image_def SECTSIZE_def ac_simps)
  qed
  moreover have "m x = bmem s x" if "unat x < unat pa - ?r \<or> unat pa + unat cnt + 512 \<le> unat x" for x
    unfolding M(2) p using that top(2) assms(3) by auto
  moreover have "readseg n k pa cnt off s = readseg_loop n k ?pa ?epa ?off s" by (simp add: readseg_def SECTSIZE_def Let_def)
  ultimately show ?thesis using M(1) by auto
qed
section \<open>Segments\<close>

record segment =
  g_pa :: uint
  g_off :: uint
  g_filesz :: uint
  g_memsz :: uint

definition segment_at :: "memory \<Rightarrow> uint \<Rightarrow> segment" where
  "segment_at m ph = \<lparr>g_pa = load32 (ph + 12) m, g_off = load32 (ph + 4) m, g_filesz = load32 (ph + 16) m, g_memsz = load32 (ph + 20) m\<rparr>"

primrec segments :: "memory \<Rightarrow> uint \<Rightarrow> nat \<Rightarrow> segment list" where
  "segments m ph 0 = []"
| "segments m ph (Suc n) = segment_at m ph # segments m (ph + 32) n"

text \<open>The memory that loading a segment may touch, beyond the bytes asked for: whole sectors are read.\<close>

definition lo :: "segment \<Rightarrow> nat" where
  "lo g = unat (g_pa g) - unat (g_off g) mod 512"

definition hi :: "segment \<Rightarrow> nat" where
  "hi g = max (unat (g_pa g) + unat (g_filesz g) + 512) (unat (g_pa g) + unat (g_memsz g))"

definition loadable :: "nat \<Rightarrow> segment \<Rightarrow> bool" where
  "loadable n g \<longleftrightarrow> unat (g_off g) mod 512 \<le> unat (g_pa g) \<and> hi g \<le> 2 ^ 32 \<and> unat (g_filesz g) div 512 + 2 \<le> n \<and>
     (hi g \<le> 0x10000 \<or> 0x11000 \<le> lo g)"

definition apart :: "segment \<Rightarrow> segment \<Rightarrow> bool" where
  "apart g h \<longleftrightarrow> hi h \<le> unat (g_pa g) \<or> unat (g_pa g) + max (unat (g_filesz g)) (unat (g_memsz g)) \<le> lo h"

definition loaded :: "(nat \<Rightarrow> byte list) \<Rightarrow> memory \<Rightarrow> segment \<Rightarrow> bool" where
  "loaded dsk m g \<longleftrightarrow>
     (\<forall>i<unat (g_filesz g). m (g_pa g + of_nat i) = image dsk (unat (g_off g) + i)) \<and>
     (\<forall>i<unat (g_memsz g). unat (g_filesz g) \<le> i \<longrightarrow> m (g_pa g + of_nat i) = 0)"

lemma loaded_keep:
  assumes "loaded dsk m g" "hi g \<le> 2 ^ 32"
    "\<And>x. unat (g_pa g) \<le> unat x \<Longrightarrow> unat x < unat (g_pa g) + max (unat (g_filesz g)) (unat (g_memsz g)) \<Longrightarrow> m' x = m x"
  shows "loaded dsk m' g"
proof -
  have "m' (g_pa g + of_nat i) = m (g_pa g + of_nat i)" if i: "i < max (unat (g_filesz g)) (unat (g_memsz g))" for i
  proof -
    have "unat (g_pa g) + i < 2 ^ 32" using i assms(2) by (auto simp: hi_def)
    then show ?thesis using i unat_add_of_nat[of "g_pa g" i] by (intro assms(3)) simp_all
  qed
  then show ?thesis using assms(1) by (simp add: loaded_def)
qed

text \<open>The page at \<open>0x10000\<close> that the headers are read from.\<close>

definition same_page :: "memory \<Rightarrow> memory \<Rightarrow> bool" where
  "same_page m m' \<longleftrightarrow> (\<forall>x. 0x10000 \<le> unat x \<and> unat x < 0x11000 \<longrightarrow> m' x = m x)"

lemma load32_page:
  assumes "same_page m m'" "0x10000 \<le> unat a" "unat a + 4 \<le> 0x11000"
  shows "load32 a m' = load32 a m"
proof (rule load32_cong)
  fix j :: uint assume "j < 4"
  then have "unat (a + j) = unat a + unat j" "unat j < 4" using assms(3) by (simp_all add: word_less_nat_alt unat_plus_if')
  then show "m' (a + j) = m (a + j)" using assms by (simp add: same_page_def)
qed

lemma segment_page:
  assumes "same_page m m'" "0x10000 \<le> unat ph" "unat ph + 32 \<le> 0x11000"
  shows "segment_at m' ph = segment_at m ph"
proof -
  have "unat (ph + of_nat j) = unat ph + j" if "j < 32" for j using assms(3) that by (intro unat_add_of_nat) simp
  from this[of 4] this[of 12] this[of 16] this[of 20]
  show ?thesis using load32_page[OF assms(1)] assms(2,3) by (simp add: segment_at_def)
qed

lemma segments_page:
  assumes "same_page m m'" "0x10000 \<le> unat ph" "unat ph + 32 * n \<le> 0x11000"
  shows "segments m' ph n = segments m ph n"
  using assms(2,3)
proof (induction n arbitrary: ph)
  case (Suc n)
  have "unat (ph + of_nat 32) = unat ph + 32" by (rule unat_add_of_nat) (use Suc.prems in simp)
  then show ?case using Suc.IH[of "ph + 32"] segment_page[OF assms(1)] Suc.prems by simp
qed simp

lemma load_one:
  assumes "boot_disk dsk (boot_data s)" "disk_ready k s" "ph < eph" "0x10000 \<le> unat ph" "unat ph + 32 \<le> 0x11000"
    "loadable n (segment_at (bmem s) ph)"
  shows "\<exists>m' h j. load_segments (Suc m) n k ph eph s = load_segments m n k (ph + 32) eph (s\<lparr>bmem := m', bout := h, breads := j\<rparr>) \<and>
     loaded dsk m' (segment_at (bmem s) ph) \<and>
     (\<forall>x. unat x < lo (segment_at (bmem s) ph) \<or> hi (segment_at (bmem s) ph) \<le> unat x \<longrightarrow> m' x = bmem s x)"
proof -
  let ?g = "segment_at (bmem s) ph"
  note L = assms(6)[unfolded loadable_def]
  have pre: "unat (g_off ?g) mod 512 \<le> unat (g_pa ?g)" "unat (g_pa ?g) + unat (g_filesz ?g) + 512 \<le> 2 ^ 32"
    "unat (g_filesz ?g) div 512 + 2 \<le> n" using L by (simp_all add: hi_def)
  obtain m1 h j where R: "readseg n k (g_pa ?g) (g_filesz ?g) (g_off ?g) s = Ret () (s\<lparr>bmem := m1, bout := h, breads := j\<rparr>)"
    "\<forall>i<unat (g_filesz ?g). m1 (g_pa ?g + of_nat i) = image dsk (unat (g_off ?g) + i)"
    "\<And>x. unat x < lo ?g \<or> unat (g_pa ?g) + unat (g_filesz ?g) + 512 \<le> unat x \<Longrightarrow> m1 x = bmem s x"
    using readseg_loads[OF assms(1,2) pre] unfolding lo_def by blast
  have pg: "same_page (bmem s) m1"
    unfolding same_page_def using R(3) L by (auto simp: hi_def)
  note sg = segment_page[OF pg assms(4,5)]
  have f: "load32 (ph + 16) m1 = g_filesz ?g" "load32 (ph + 20) m1 = g_memsz ?g"
    using sg by (simp_all add: segment_at_def)
  let ?m = "if g_filesz ?g < g_memsz ?g then stosb (g_pa ?g + g_filesz ?g) 0 (unat (g_memsz ?g - g_filesz ?g)) m1 else m1"
  have e: "load_segments (Suc m) n k ph eph s = load_segments m n k (ph + 32) eph (s\<lparr>bmem := ?m, bout := h, breads := j\<rparr>)"
  proof -
    have c: "s\<lparr>bout := h, breads := j, bmem := x\<rparr> = s\<lparr>bmem := x, bout := h, breads := j\<rparr>" for x by (cases s) simp
    show ?thesis using assms(3) R(1) f by (subst load_segments.simps) (simp add: segment_at_def Let_def c)
  qed
  have fz: "unat (g_pa ?g + g_filesz ?g) = unat (g_pa ?g) + unat (g_filesz ?g)" using L by (subst unat_plus_if') (simp add: hi_def)
  have st: "?m x = (if unat (g_pa ?g) + unat (g_filesz ?g) \<le> unat x \<and> unat x < unat (g_pa ?g) + unat (g_memsz ?g) then 0 else m1 x)" for x
  proof (cases "g_filesz ?g < g_memsz ?g")
    case True
    then have l: "unat (g_memsz ?g - g_filesz ?g) = unat (g_memsz ?g) - unat (g_filesz ?g)" "unat (g_filesz ?g) < unat (g_memsz ?g)"
      by (simp_all add: unat_sub word_le_nat_alt word_less_nat_alt)
    have "unat (x - (g_pa ?g + g_filesz ?g)) = (if unat (g_pa ?g + g_filesz ?g) \<le> unat x then unat x - unat (g_pa ?g + g_filesz ?g) else unat x + 2 ^ 32 - unat (g_pa ?g + g_filesz ?g))"
      by (simp add: unat_sub_if_size word_size word_le_nat_alt)
    moreover have "unat (g_pa ?g) + unat (g_memsz ?g) \<le> 2 ^ 32" using L by (simp add: hi_def)
    ultimately show ?thesis
      using True l stosb_apply[of "unat (g_memsz ?g - g_filesz ?g)" "g_pa ?g + g_filesz ?g" 0 m1 x] unat_lt32[of "g_memsz ?g - g_filesz ?g"] fz
      by auto
  qed (auto simp: word_less_nat_alt)
  have "loaded dsk ?m ?g"
  proof -
    have u: "unat (g_pa ?g + of_nat i) = unat (g_pa ?g) + i" if "i < max (unat (g_filesz ?g)) (unat (g_memsz ?g))" for i
      using that L by (intro unat_add_of_nat) (auto simp: hi_def)
    show ?thesis unfolding loaded_def
    proof (intro conjI allI impI)
      fix i assume "i < unat (g_filesz ?g)"
      then show "?m (g_pa ?g + of_nat i) = image dsk (unat (g_off ?g) + i)" unfolding st using R(2) u[of i] by simp
    next
      fix i assume "i < unat (g_memsz ?g)" "unat (g_filesz ?g) \<le> i"
      then show "?m (g_pa ?g + of_nat i) = 0" unfolding st using u[of i] by simp
    qed
  qed
  moreover have "?m x = bmem s x" if "unat x < lo ?g \<or> hi ?g \<le> unat x" for x
    unfolding st using R(3)[of x] that by (auto simp: hi_def lo_def)
  ultimately show ?thesis using e by blast
qed
lemma load_all:
  assumes "boot_disk dsk (boot_data s)" "disk_ready k s" "0x10000 \<le> unat ph" "unat ph + 32 * N \<le> 0x11000" "N \<le> m"
    "\<forall>g\<in>set (segments (bmem s) ph N). loadable n g" "sorted_wrt apart (segments (bmem s) ph N)"
  shows "\<exists>m' h j. load_segments m n k ph (ph + of_nat (32 * N)) s = Ret () (s\<lparr>bmem := m', bout := h, breads := j\<rparr>) \<and>
     same_page (bmem s) m' \<and> (\<forall>g\<in>set (segments (bmem s) ph N). loaded dsk m' g) \<and>
     (\<forall>x. (\<forall>g\<in>set (segments (bmem s) ph N). unat x < lo g \<or> hi g \<le> unat x) \<longrightarrow> m' x = bmem s x)"
  using assms
proof (induction N arbitrary: m ph s)
  case 0
  have "load_segments m n k ph ph s = Ret () (s\<lparr>bmem := bmem s, bout := bout s, breads := breads s\<rparr>)"
    by (simp add: load_segments.simps)
  then show ?case by (intro exI[of _ "bmem s"] exI[of _ "bout s"] exI[of _ "breads s"]) (simp add: same_page_def)
next
  case (Suc N)
  obtain m0 where m0: "m = Suc m0" using Suc.prems(5) by (cases m) auto
  let ?eph = "ph + of_nat (32 * Suc N)" and ?g = "segment_at (bmem s) ph"
  have u: "unat (ph + of_nat 32) = unat ph + 32" by (rule unat_add_of_nat) (use Suc.prems(4) in simp)
  have e: "unat ?eph = unat ph + 32 * Suc N" by (rule unat_add_of_nat) (use Suc.prems(4) in simp)
  have lt: "ph < ?eph" using e by (simp add: word_less_nat_alt del: of_nat_mult)
  have lg: "loadable n ?g" "unat ph + 32 \<le> 0x11000" using Suc.prems(4,6) by simp_all
  obtain m1 h j where 1: "load_segments (Suc m0) n k ph ?eph s = load_segments m0 n k (ph + 32) ?eph (s\<lparr>bmem := m1, bout := h, breads := j\<rparr>)"
    "loaded dsk m1 ?g" "\<And>x. unat x < lo ?g \<or> hi ?g \<le> unat x \<Longrightarrow> m1 x = bmem s x"
    using load_one[OF Suc.prems(1,2) lt Suc.prems(3) lg(2,1), of m0] by blast
  have pg: "same_page (bmem s) m1" using 1(3) lg(1) by (auto simp: same_page_def loadable_def)
  let ?s = "s\<lparr>bmem := m1, bout := h, breads := j\<rparr>"
  have sg: "segments m1 (ph + 32) N = segments (bmem s) (ph + 32) N"
    using segments_page[OF pg, of "ph + 32" N] u Suc.prems(3,4) by simp
  have ee: "?eph = ph + 32 + of_nat (32 * N)" by simp
  have "\<exists>m' h j. load_segments m0 n k (ph + 32) (ph + 32 + of_nat (32 * N)) ?s = Ret () (?s\<lparr>bmem := m', bout := h, breads := j\<rparr>) \<and>
     same_page (bmem ?s) m' \<and> (\<forall>g\<in>set (segments (bmem ?s) (ph + 32) N). loaded dsk m' g) \<and>
     (\<forall>x. (\<forall>g\<in>set (segments (bmem ?s) (ph + 32) N). unat x < lo g \<or> hi g \<le> unat x) \<longrightarrow> m' x = bmem ?s x)"
    by (rule Suc.IH) (use Suc.prems m0 u sg in simp_all)
  then obtain m2 h' j' where 2: "load_segments m0 n k (ph + 32) ?eph ?s = Ret () (s\<lparr>bmem := m2, bout := h', breads := j'\<rparr>)"
    "same_page m1 m2" "\<forall>g\<in>set (segments (bmem s) (ph + 32) N). loaded dsk m2 g"
    "\<And>x. \<forall>g\<in>set (segments (bmem s) (ph + 32) N). unat x < lo g \<or> hi g \<le> unat x \<Longrightarrow> m2 x = m1 x"
    unfolding ee by (auto simp: sg)
  have "loaded dsk m2 ?g"
  proof (rule loaded_keep[OF 1(2)])
    show "hi ?g \<le> 2 ^ 32" using lg(1) by (simp add: loadable_def)
    fix x :: uint assume "unat (g_pa ?g) \<le> unat x" "unat x < unat (g_pa ?g) + max (unat (g_filesz ?g)) (unat (g_memsz ?g))"
    then show "m2 x = m1 x" using Suc.prems(7) by (intro 2(4)) (force simp: apart_def)
  qed
  moreover have "same_page (bmem s) m2" using pg 2(2) by (simp add: same_page_def)
  ultimately show ?case using 1(1,3) 2(1,3,4) unfolding m0
    by (intro exI[of _ m2] exI[of _ h'] exI[of _ j']) simp
qed

section \<open>The loader\<close>

text \<open>Memory with the first page of the kernel image at \<open>0x10000\<close>.\<close>

definition boot_page :: "(nat \<Rightarrow> byte list) \<Rightarrow> memory" where
  "boot_page dsk a = image dsk (unat a - 0x10000)"

definition boot_segments :: "(nat \<Rightarrow> byte list) \<Rightarrow> segment list" where
  "boot_segments dsk = segments (boot_page dsk) (0x10000 + load32 0x1001C (boot_page dsk))
     (unat (un16 [boot_page dsk 0x1002C, boot_page dsk 0x1002D]))"

text \<open>
  C9. The boot loader loads the kernel.  From a disk whose first page after the boot sector
  is an ELF header with its program headers, it calls the entry point of the header with
  every segment in place: the bytes of the file at its physical address, and zeros up to its
  size in memory.  Whole sectors are read, so each segment must keep clear of the headers
  and of the segments loaded before it, rounded out to sectors.
\<close>

theorem bootmain_loads:
  assumes "boot_disk dsk (boot_data s)" "disk_ready k s"
    "load32 0x10000 (boot_page dsk) = ELF_MAGIC"
    "unat (load32 0x1001C (boot_page dsk)) + 32 * length (boot_segments dsk) \<le> 4096"
    "\<And>g. g \<in> set (boot_segments dsk) \<Longrightarrow> loadable n g" "sorted_wrt apart (boot_segments dsk)"
    "length (boot_segments dsk) \<le> m" "10 \<le> n"
  shows "\<exists>t. bootmain m n k s = Ret (Some (load32 0x10018 (boot_page dsk))) t \<and>
     (\<forall>g\<in>set (boot_segments dsk). loaded dsk (bmem t) g)"
proof -
  obtain m1 h j where 1: "readseg n k 0x10000 4096 0 s = Ret () (s\<lparr>bmem := m1, bout := h, breads := j\<rparr>)"
    "\<forall>i<4096. m1 (0x10000 + of_nat i) = image dsk i"
    using readseg_loads[OF assms(1,2), of 0 "0x10000" 4096 n] assms(8) by auto
  have pg: "same_page (boot_page dsk) m1"
    unfolding same_page_def boot_page_def
  proof (intro allI impI)
    fix x :: uint assume x: "0x10000 \<le> unat x \<and> unat x < 0x11000"
    have "0x10000 + of_nat (unat x - 0x10000) = x" using x by (simp add: word_unat_eq_iff unat_add_of_nat[of "0x10000", simplified])
    moreover have "unat x - 0x10000 < 4096" using x by linarith
    ultimately show "m1 x = image dsk (unat x - 0x10000)" using 1(2)[rule_format, of "unat x - 0x10000"] by simp
  qed
  note l = load32_page[OF pg]
  let ?off = "load32 0x1001C (boot_page dsk)" and ?N = "unat (un16 [boot_page dsk 0x1002C, boot_page dsk 0x1002D])"
  have len: "length (segments mm p q) = q" for mm p q by (induction q arbitrary: p) simp_all
  have N: "length (boot_segments dsk) = ?N" by (simp add: boot_segments_def len)
  have ph: "unat (0x10000 + ?off) = 0x10000 + unat ?off" using assms(4) by (subst unat_plus_if') simp
  have b: "m1 0x1002C = boot_page dsk 0x1002C" "m1 0x1002D = boot_page dsk 0x1002D" using pg by (simp_all add: same_page_def)
  let ?s = "s\<lparr>bmem := m1, bout := h, breads := j\<rparr>"
  have sg: "segments m1 (0x10000 + ?off) ?N = boot_segments dsk"
    unfolding boot_segments_def by (rule segments_page[OF pg]) (use ph assms(4) N in simp_all)
  obtain m2 h2 j2 where 2: "load_segments m n k (0x10000 + ?off) (0x10000 + ?off + of_nat (32 * ?N)) ?s = Ret () (?s\<lparr>bmem := m2, bout := h2, breads := j2\<rparr>)"
    "same_page m1 m2" "\<forall>g\<in>set (boot_segments dsk). loaded dsk m2 g"
    using load_all[of dsk ?s k "0x10000 + ?off" ?N m n] assms(1,2,5-7) ph N sg assms(4) by auto
  have pg2: "same_page (boot_page dsk) m2" using pg 2(2) by (simp add: same_page_def)
  have eph: "0x10000 + ?off + 32 * ucast (un16 [m1 0x1002C, m1 0x1002D]) = 0x10000 + ?off + of_nat (32 * ?N)"
    unfolding b by simp
  have "bootmain m n k s = Ret (Some (load32 0x10018 m2)) (?s\<lparr>bmem := m2, bout := h2, breads := j2\<rparr>)"
    using 1(1) 2(1) l[of "0x10000"] l[of "0x1001C"] assms(3) eph by (simp add: bootmain_def Let_def)
  then show ?thesis using load32_page[OF pg2, of "0x10018"] 2(3) by simp
qed

text \<open>A disk with a header sector that describes one segment, and a drive that answers with it.\<close>

definition boot_header :: "byte list" where
  "boot_header = [0x7F, 0x45, 0x4C, 0x46] @ replicate 20 0 @ [0, 0, 0x10, 0, 52, 0, 0, 0] @ replicate 12 0 @ [1, 0] @ replicate 6 0 @
     [1, 0, 0, 0, 0, 2, 0, 0, 0, 0, 0, 0, 0, 0, 0x10, 0, 2, 0, 0, 0, 4, 0, 0, 0] @ replicate 436 0"

definition small_disk :: "nat \<Rightarrow> byte list" where
  "small_disk n = (if n = 1 then boot_header else replicate 512 (of_nat n))"

definition small_data :: "(ushort \<times> byte) list \<Rightarrow> byte list" where
  "small_data h = (let c = map snd (drop (length h - 6) h) in small_disk (unat (un32 [c ! 1, c ! 2, c ! 3, c ! 4 AND 0x0F])))"

lemma small_boot_disk: "boot_disk small_disk small_data"
proof -
  have "small_data (h @ sect_cmd n) = small_disk (unat n)" if n: "unat n < 2 ^ 28" for h n
  proof -
    have "drop_bit 24 n < 16" using n by (simp add: word_less_nat_alt drop_bit_eq_div unat_div)
    then have w: "take_bit 4 (drop_bit 24 n) = drop_bit 24 n" by (simp add: take_bit_eq_mod word_unat_eq_iff unat_mod word_less_nat_alt)
    have "take_bit 4 (ucast v :: byte) = ucast (take_bit 4 v)" for v :: uint
      by (rule bit_word_eqI) (auto simp: bit_simps)
    then have "take_bit 4 (ucast (drop_bit 24 n OR 0xE0) :: byte) = ucast (take_bit 4 (drop_bit 24 n OR 0xE0))" .
    also have "take_bit 4 (drop_bit 24 n OR 0xE0) = drop_bit 24 n" using w by (simp add: take_bit_or)
    finally have "(ucast (drop_bit 24 n OR 0xE0) :: byte) AND 0x0F = ucast (drop_bit 24 n)"
      by (simp add: take_bit_eq_mask mask_eq_exp_minus_1)
    moreover have "drop (length (h @ sect_cmd n) - 6) (h @ sect_cmd n) = sect_cmd n" by (simp add: sect_cmd_def)
    moreover have "un32 [ucast n, ucast (drop_bit 8 n), ucast (drop_bit 16 n), ucast (drop_bit 24 n)] = n"
      using un32_le32[of n] by (simp add: le32_def)
    ultimately show ?thesis by (simp add: small_data_def Let_def) (simp add: sect_cmd_def)
  qed
  moreover have "length (small_disk n) = 512" for n by (simp add: small_disk_def boot_header_def)
  ultimately show ?thesis by (simp add: boot_disk_def SECTSIZE_def)
qed

lemma small_page:
  "i < 512 \<Longrightarrow> boot_page small_disk (0x10000 + of_nat i) = boot_header ! i"
proof -
  assume i: "i < 512"
  have "unat (0x10000 + of_nat i :: uint) = 0x10000 + i" using unat_add_of_nat[of "0x10000" i] i by simp
  then show ?thesis using i by (simp add: boot_page_def image_def SECTSIZE_def small_disk_def)
qed

lemma small_words:
  assumes "i + 4 \<le> 512" "a = 0x10000 + of_nat i"
  shows "load32 a (boot_page small_disk) = un32 [boot_header ! i, boot_header ! (i + 1), boot_header ! (i + 2), boot_header ! (i + 3)]"
  using small_page[of i] small_page[of "i + 1"] small_page[of "i + 2"] small_page[of "i + 3"] assms by (simp add: load32_def add.assoc)

lemma small_header:
  "load32 0x10000 (boot_page small_disk) = ELF_MAGIC" "load32 0x10018 (boot_page small_disk) = 0x100000"
  "load32 0x1001C (boot_page small_disk) = 52"
  "boot_segments small_disk = [\<lparr>g_pa = 0x100000, g_off = 512, g_filesz = 2, g_memsz = 4\<rparr>]"
proof -
  have h: "boot_header ! 0 = 0x7F" "boot_header ! 1 = 0x45" "boot_header ! 2 = 0x4C" "boot_header ! 3 = 0x46"
    "boot_header ! 26 = 0x10" "boot_header ! 28 = 52" "boot_header ! 44 = 1" "boot_header ! 57 = 2" "boot_header ! 66 = 0x10"
    "boot_header ! 68 = 2" "boot_header ! 72 = 4"
    by (simp_all add: boot_header_def nth_append)
  have z: "boot_header ! k = 0" if "k \<in> {24, 25, 27, 29, 30, 31, 45, 56, 58, 59, 64, 65, 67, 69, 70, 71, 73, 74, 75}" for k
    using that by (auto simp: boot_header_def nth_append)
  show "load32 0x10000 (boot_page small_disk) = ELF_MAGIC" using small_words[of 0] h h(3)[unfolded numeral_2_eq_2] by (simp add: un32_def ELF_MAGIC_def)
  show "load32 0x10018 (boot_page small_disk) = 0x100000" using small_words[of 24] h z by (simp add: un32_def)
  show o: "load32 0x1001C (boot_page small_disk) = 52" using small_words[of 28] h z by (simp add: un32_def)
  have "boot_page small_disk 0x1002C = 1" "boot_page small_disk 0x1002D = 0" using small_page[of 44] small_page[of 45] h z by simp_all
  moreover have "load32 0x10040 (boot_page small_disk) = 0x100000" "load32 0x10038 (boot_page small_disk) = 512"
    "load32 0x10044 (boot_page small_disk) = 2" "load32 0x10048 (boot_page small_disk) = 4"
    using small_words[of 64] small_words[of 56] small_words[of 68] small_words[of 72] h z by (simp_all add: un32_def)
  ultimately show "boot_segments small_disk = [\<lparr>g_pa = 0x100000, g_off = 512, g_filesz = 2, g_memsz = 4\<rparr>]"
    using o by (simp add: boot_segments_def segment_at_def un16_def)
qed

theorem bootmain_loads_witness:
  "\<exists>t. bootmain 1 10 1 \<lparr>bmem = (\<lambda>_. 9), bout = [], breads = 0, boot_in = (\<lambda>_ _ _. 0x40), boot_data = small_data\<rparr> = Ret (Some 0x100000) t \<and>
     bmem t 0x100000 = 2 \<and> bmem t 0x100001 = 2 \<and> bmem t 0x100002 = 0 \<and> bmem t 0x100003 = 0"
proof -
  let ?s = "\<lparr>bmem = (\<lambda>_. 9), bout = [], breads = 0, boot_in = (\<lambda>_ _ _. 0x40), boot_data = small_data\<rparr>"
  let ?g = "\<lparr>g_pa = 0x100000, g_off = 512, g_filesz = 2, g_memsz = 4\<rparr>"
  have "boot_disk small_disk (boot_data ?s)" "disk_ready 1 ?s" using small_boot_disk by (simp_all add: disk_ready_def)
  from bootmain_loads[OF this small_header(1), of 10 1]
  obtain t where t: "bootmain 1 10 1 ?s = Ret (Some 0x100000) t" "loaded small_disk (bmem t) ?g"
    using small_header by (auto simp: loadable_def hi_def lo_def)
  have "image small_disk 512 = 2" "image small_disk 513 = 2" by (simp_all add: image_def SECTSIZE_def small_disk_def)
  then have "bmem t 0x100000 = 2" "bmem t 0x100001 = 2" "bmem t 0x100002 = 0" "bmem t 0x100003 = 0"
    using t(2)[unfolded loaded_def, simplified] by (auto dest: spec[of _ 0] spec[of _ 1] spec[of _ 2] spec[of _ 3])
  with t(1) show ?thesis by blast
qed

end
