(* ===== verification/Spec2Isabelle.thy ===== *)
theory Spec2Isabelle
  imports Prelude Spinlock Cstring Mmu Kalloc Vm Pages Proc Sched Sleeplock Calm Bio Bcache Log Logsafe Inode Blocks Apic Console Frames Ide Fs Files Paths File Fifo User Utils Grep Shell Sysfile Process Date Mmap Trap Boot
begin

text \<open>
  Verification of the xv6 kernel and its user programs (\<open>src/xv6\<close>).

  \<^bold>\<open>Method.\<close>  Every kernel routine is a HOL function from a state to an
  \<open>outcome\<close> (theory Prelude): it returns, panics with the message of the
  source, spins on a lock, or switches to the scheduler.  The kernel state is a
  chain of extensible records, one link per component, and a routine is polymorphic
  in what later components add, so that a call is a function application on the
  state of the whole kernel.

  \<^bold>\<open>Theories.\<close>
  \<^item> Spinlock: \<open>kernel/spinlock.c\<close>, \<open>mycpu\<close>.
  \<^item> Cstring: \<open>kernel/string.c\<close> and the string part of \<open>user/ulib.c\<close>.
  \<^item> Mmu: the address arithmetic of \<open>kernel/mmu.h\<close> and \<open>kernel/memlayout.h\<close>.
  \<^item> Kalloc: \<open>kernel/kalloc.c\<close>.
\<close>

end
